(* ===== verification/Prelude.thy ===== *)
theory Prelude
  imports Main "HOL-Library.Word" "HOL-Library.Sublist" "HOL-Library.Multiset"
    "HOL-Library.Product_Lexorder"
begin

text \<open>
  Prelude of the ff-eth-logs development: the machine types of the Go code, the
  state-and-error steps every stateful operation is written in, decimal and hexadecimal
  printing, and the generic lemmas on words, lists and sorting that the components share.

  A Go \<open>uint64\<close> is a 64-bit word whose arithmetic wraps; \<open>int64(x)\<close> and
  \<open>uint64(y)\<close> are the two's complement reinterpretations. \<open>common.Hash\<close> and
  \<open>common.Address\<close> are the Go arrays \<open>[32]byte\<close> and \<open>[20]byte\<close>, kept as words
  of 256 and 160 bits; \<open>Bytes()\<close> is the array as a byte slice, most significant byte
  first, and \<open>BytesToHash\<close> reads a slice back.
\<close>

section \<open>Machine types\<close>

type_synonym u64 = "64 word"
type_synonym byte = "8 word"
type_synonym bytes = "8 word list"
type_synonym hash = "256 word"
type_synonym address = "160 word"

named_theorems step_simps \<open>unfolding rules of the state-and-error steps\<close>
named_theorems u64_simps \<open>from words to their values\<close>

subsection \<open>int64 and uint64 conversions\<close>

definition int64 :: "u64 \<Rightarrow> int" where
  "int64 w = sint w"

definition uint64 :: "int \<Rightarrow> u64" where
  "uint64 i = word_of_int i"

text \<open>The values a block number takes in every sane run: it fits an \<open>int64\<close>.\<close>

definition fits_int64 :: "u64 \<Rightarrow> bool" where
  "fits_int64 w \<longleftrightarrow> w < 0x8000000000000000"

lemma uint64_int64 [simp]: "uint64 (int64 w) = w"
  by (simp add: uint64_def int64_def)

lemma int64_inject [simp]: "int64 a = int64 b \<longleftrightarrow> a = b"
  by (metis uint64_int64)

lemma fits_int64_nat: "fits_int64 w \<longleftrightarrow> unat w < 2 ^ 63"
  by (simp add: fits_int64_def word_less_nat_alt)

lemma int64_eq_uint: "fits_int64 w \<Longrightarrow> int64 w = uint w"
proof -
  assume "fits_int64 w"
  then have "uint w < 2 ^ 63" and "0 \<le> uint w"
    by (simp_all add: fits_int64_def word_less_alt)
  then have "signed_take_bit 63 (uint w) = uint w"
    by (subst signed_take_bit_int_eq_self_iff)
      (auto intro: order_trans [OF _ uint_ge_0])
  then show ?thesis
    by (simp add: int64_def sint_uint)
qed

lemma int64_unat: "fits_int64 w \<Longrightarrow> int64 w = int (unat w)"
  by (simp add: int64_eq_uint)

lemma int64_le_iff: "fits_int64 a \<Longrightarrow> fits_int64 b \<Longrightarrow> int64 a \<le> int64 b \<longleftrightarrow> a \<le> b"
  by (simp add: int64_eq_uint word_le_def)

lemma int64_less_iff: "fits_int64 a \<Longrightarrow> fits_int64 b \<Longrightarrow> int64 a < int64 b \<longleftrightarrow> a < b"
  by (simp add: int64_eq_uint word_less_def)

lemma int64_nonneg: "fits_int64 a \<Longrightarrow> 0 \<le> int64 a"
  by (simp add: int64_eq_uint)

lemma fits_int64_mono: "a \<le> b \<Longrightarrow> fits_int64 b \<Longrightarrow> fits_int64 a"
  by (auto simp: fits_int64_def)

lemma int64_uint64: "0 \<le> i \<Longrightarrow> i < 2 ^ 63 \<Longrightarrow> int64 (uint64 i) = i"
  by (simp add: int64_def uint64_def sint_sbintrunc' signed_take_bit_int_eq_self_iff)

lemma fits_uint64: "0 \<le> i \<Longrightarrow> i < 2 ^ 63 \<Longrightarrow> fits_int64 (uint64 i)"
  by (simp add: fits_int64_def uint64_def word_less_alt uint_word_of_int)

lemma unat_less_u64: "unat (n :: u64) < 2 ^ 64"
  using unsigned_less [of n] by simp

lemma unat_suc: "n < m \<Longrightarrow> unat (n + 1 :: u64) = Suc (unat n)"
  by unat_arith

subsection \<open>Fixed-size byte arrays\<close>

primrec bytes_be :: "nat \<Rightarrow> 'a::len word \<Rightarrow> bytes" where
  "bytes_be 0 w = []"
| "bytes_be (Suc n) w = bytes_be n (drop_bit 8 w) @ [ucast w]"

definition of_bytes :: "bytes \<Rightarrow> 'a::len word" where
  "of_bytes bs = foldl (\<lambda>acc b. or (push_bit 8 acc) (ucast b)) 0 bs"

definition hash_bytes :: "hash \<Rightarrow> bytes" where
  "hash_bytes h = bytes_be 32 h"

definition BytesToHash :: "bytes \<Rightarrow> hash" where
  "BytesToHash bs = of_bytes bs"

definition address_bytes :: "address \<Rightarrow> bytes" where
  "address_bytes a = bytes_be 20 a"

definition BytesToAddress :: "bytes \<Rightarrow> address" where
  "BytesToAddress bs = of_bytes bs"

lemma length_bytes_be [simp]: "length (bytes_be n w) = n"
  by (induction n arbitrary: w) auto

lemma of_bytes_snoc:
  "(of_bytes (bs @ [b]) :: 'a::len word) = or (push_bit 8 (of_bytes bs)) (ucast b)"
  by (simp add: of_bytes_def)

lemma of_bytes_be: "of_bytes (bytes_be n w) = take_bit (8 * n) (w :: 'a::len word)"
proof (induction n arbitrary: w)
  case 0
  then show ?case by (simp add: of_bytes_def)
next
  case (Suc n)
  show ?case
    by (rule bit_eqI)
      (auto simp: of_bytes_snoc Suc bit_simps exp_eq_0_imp_not_bit dest: bit_imp_le_length)
qed

lemma BytesToHash_hash_bytes [simp]: "BytesToHash (hash_bytes h) = h"
  by (simp add: BytesToHash_def hash_bytes_def of_bytes_be take_bit_word_eq_self)

lemma BytesToAddress_address_bytes [simp]: "BytesToAddress (address_bytes a) = a"
  by (simp add: BytesToAddress_def address_bytes_def of_bytes_be take_bit_word_eq_self)

lemma hash_bytes_inject [simp]: "hash_bytes a = hash_bytes b \<longleftrightarrow> a = b"
  by (metis BytesToHash_hash_bytes)

lemma address_bytes_inject [simp]: "address_bytes a = address_bytes b \<longleftrightarrow> a = b"
  by (metis BytesToAddress_address_bytes)

lemma length_hash_bytes [simp]: "length (hash_bytes h) = 32"
  by (simp add: hash_bytes_def)

lemma length_address_bytes [simp]: "length (address_bytes a) = 20"
  by (simp add: address_bytes_def)

section \<open>Steps: state and errors\<close>

text \<open>
  A Go function that may fail and that changes state is a step: from a state to the
  error (\<open>Inl\<close>) or the value (\<open>Inr\<close>) it returns, together with the state it leaves.
  The state after an error is kept, as Go keeps it: nothing is undone unless the code
  undoes it. \<open>andThen m f\<close> is Go's \<open>x, err := m(); if err != nil { return err }; f(x)\<close>.
\<close>

type_synonym ('s, 'e, 'a) step = "'s \<Rightarrow> ('e + 'a) \<times> 's"

definition ret :: "'a \<Rightarrow> ('s, 'e, 'a) step" where
  "ret x = (\<lambda>s. (Inr x, s))"

definition throw :: "'e \<Rightarrow> ('s, 'e, 'a) step" where
  "throw e = (\<lambda>s. (Inl e, s))"

definition andThen :: "('s, 'e, 'a) step \<Rightarrow> ('a \<Rightarrow> ('s, 'e, 'b) step) \<Rightarrow> ('s, 'e, 'b) step" where
  "andThen m f = (\<lambda>s. case m s of (r, s') \<Rightarrow> (case r of Inl e \<Rightarrow> (Inl e, s') | Inr x \<Rightarrow> f x s'))"

definition gets :: "('s \<Rightarrow> 'a) \<Rightarrow> ('s, 'e, 'a) step" where
  "gets f = (\<lambda>s. (Inr (f s), s))"

definition modify :: "('s \<Rightarrow> 's) \<Rightarrow> ('s, 'e, unit) step" where
  "modify f = (\<lambda>s. (Inr (), f s))"

text \<open>\<open>onErr g m\<close>: the errors of \<open>m\<close> wrapped, as \<open>fmt.Errorf("...: %w", err)\<close> does.\<close>

definition onErr :: "('e \<Rightarrow> 'f) \<Rightarrow> ('s, 'e, 'a) step \<Rightarrow> ('s, 'f, 'a) step" where
  "onErr g m = (\<lambda>s. case m s of (r, s') \<Rightarrow> (case r of Inl e \<Rightarrow> Inl (g e) | Inr x \<Rightarrow> Inr x, s'))"

text \<open>\<open>zoom\<close> runs a step of a component on the part of the state that is the component's.\<close>

definition zoom :: "('s \<Rightarrow> 'c) \<Rightarrow> ('c \<Rightarrow> 's \<Rightarrow> 's) \<Rightarrow> ('c, 'e, 'a) step \<Rightarrow> ('s, 'e, 'a) step" where
  "zoom view put m = (\<lambda>s. case m (view s) of (r, c) \<Rightarrow> (r, put c s))"

lemma andThen_cong [fundef_cong]:
  assumes "m s = m' s'" and "\<And>x t. m' s' = (Inr x, t) \<Longrightarrow> f x t = f' x t" and "s = s'"
  shows "andThen m f s = andThen m' f' s'"
  using assms by (auto simp: andThen_def split: prod.splits sum.splits)

lemma ret_eq [step_simps]: "ret x s = (r, t) \<longleftrightarrow> r = Inr x \<and> t = s"
  by (auto simp: ret_def)

lemma throw_eq [step_simps]: "throw e s = (r, t) \<longleftrightarrow> r = Inl e \<and> t = s"
  by (auto simp: throw_def)

lemma gets_eq [step_simps]: "gets f s = (r, t) \<longleftrightarrow> r = Inr (f s) \<and> t = s"
  by (auto simp: gets_def)

lemma modify_eq [step_simps]: "modify f s = (r, t) \<longleftrightarrow> r = Inr () \<and> t = f s"
  by (auto simp: modify_def)

lemma andThen_Inr [step_simps]:
  "andThen m f s = (Inr y, t) \<longleftrightarrow> (\<exists>x s'. m s = (Inr x, s') \<and> f x s' = (Inr y, t))"
  by (auto simp: andThen_def split: prod.splits sum.splits)

lemma andThen_Inl [step_simps]:
  "andThen m f s = (Inl e, t) \<longleftrightarrow>
    m s = (Inl e, t) \<or> (\<exists>x s'. m s = (Inr x, s') \<and> f x s' = (Inl e, t))"
  by (auto simp: andThen_def split: prod.splits sum.splits)

lemma onErr_Inr [step_simps]: "onErr g m s = (Inr x, t) \<longleftrightarrow> m s = (Inr x, t)"
  by (auto simp: onErr_def split: prod.splits sum.splits)

lemma onErr_Inl [step_simps]: "onErr g m s = (Inl e, t) \<longleftrightarrow> (\<exists>e'. m s = (Inl e', t) \<and> e = g e')"
  by (auto simp: onErr_def split: prod.splits sum.splits)

lemma zoom_eq [step_simps]:
  "zoom view put m s = (r, t) \<longleftrightarrow> (\<exists>c. m (view s) = (r, c) \<and> t = put c s)"
  by (auto simp: zoom_def split: prod.splits)

text \<open>
  \<open>triple P m Q E\<close>: from a state with \<open>P\<close>, \<open>m\<close> ends either in a value and a state
  with \<open>Q\<close>, or in an error and a state with \<open>E\<close>. The rules compose along \<open>andThen\<close>.
\<close>

definition triple :: "('s \<Rightarrow> bool) \<Rightarrow> ('s, 'e, 'a) step \<Rightarrow> ('a \<Rightarrow> 's \<Rightarrow> bool) \<Rightarrow> ('e \<Rightarrow> 's \<Rightarrow> bool) \<Rightarrow> bool" where
  "triple P m Q E \<longleftrightarrow> (\<forall>s r t. P s \<longrightarrow> m s = (r, t) \<longrightarrow> (case r of Inl e \<Rightarrow> E e t | Inr x \<Rightarrow> Q x t))"

named_theorems triple_rules \<open>rules of the triples\<close>

lemma tripleI:
  assumes "\<And>s x t. P s \<Longrightarrow> m s = (Inr x, t) \<Longrightarrow> Q x t"
    and "\<And>s e t. P s \<Longrightarrow> m s = (Inl e, t) \<Longrightarrow> E e t"
  shows "triple P m Q E"
  using assms by (auto simp: triple_def split: sum.splits)

lemma triple_value: "triple P m Q E \<Longrightarrow> P s \<Longrightarrow> m s = (Inr x, t) \<Longrightarrow> Q x t"
  by (fastforce simp: triple_def)

lemma triple_error: "triple P m Q E \<Longrightarrow> P s \<Longrightarrow> m s = (Inl e, t) \<Longrightarrow> E e t"
  by (fastforce simp: triple_def)

lemma triple_ret [triple_rules]: "(\<And>s. P s \<Longrightarrow> Q x s) \<Longrightarrow> triple P (ret x) Q E"
  by (auto simp: triple_def ret_def)

lemma triple_throw [triple_rules]: "(\<And>s. P s \<Longrightarrow> E e s) \<Longrightarrow> triple P (throw e) Q E"
  by (auto simp: triple_def throw_def)

lemma triple_gets [triple_rules]: "(\<And>s. P s \<Longrightarrow> Q (f s) s) \<Longrightarrow> triple P (gets f) Q E"
  by (auto simp: triple_def gets_def)

lemma triple_modify [triple_rules]: "(\<And>s. P s \<Longrightarrow> Q () (f s)) \<Longrightarrow> triple P (modify f) Q E"
  by (auto simp: triple_def modify_def)

lemma triple_andThen [triple_rules]:
  "triple P m R E \<Longrightarrow> (\<And>x. triple (R x) (f x) Q E) \<Longrightarrow> triple P (andThen m f) Q E"
  unfolding triple_def andThen_def by (fastforce split: prod.splits sum.splits)

lemma triple_onErr [triple_rules]:
  "triple P m Q (\<lambda>e. E (g e)) \<Longrightarrow> triple P (onErr g m) Q E"
  unfolding triple_def onErr_def by (fastforce split: prod.splits sum.splits)

lemma triple_if [triple_rules]:
  "(b \<Longrightarrow> triple P m Q E) \<Longrightarrow> (\<not> b \<Longrightarrow> triple P m' Q E) \<Longrightarrow> triple P (if b then m else m') Q E"
  by simp

lemma triple_conseq:
  "triple P m Q E \<Longrightarrow> (\<And>s. P' s \<Longrightarrow> P s) \<Longrightarrow> (\<And>x s. Q x s \<Longrightarrow> Q' x s) \<Longrightarrow> (\<And>e s. E e s \<Longrightarrow> E' e s)
    \<Longrightarrow> triple P' m Q' E'"
  unfolding triple_def by (fastforce split: sum.splits)

subsection \<open>Loops\<close>

text \<open>
  \<open>for_up dv fuel k i to body\<close> is Go's \<open>for n := i; n <= to; n += k { body(n) }\<close> over
  \<open>uint64\<close>, left at the first error. The counter wraps as Go's does, so with \<open>to\<close>
  within \<open>k\<close> of 2 ^ 64 the loop condition never fails; the fuel then runs out, which is
  the error \<open>dv\<close>. \<open>loop_fuel i to\<close> is enough whenever the counter cannot wrap
  (\<open>triple_for_up\<close>).
\<close>

fun for_up :: "'e \<Rightarrow> nat \<Rightarrow> u64 \<Rightarrow> u64 \<Rightarrow> u64 \<Rightarrow> (u64 \<Rightarrow> ('s, 'e, unit) step) \<Rightarrow> ('s, 'e, unit) step" where
  "for_up dv 0 k i to body = throw dv"
| "for_up dv (Suc fuel) k i to body =
     (if i \<le> to then andThen (body i) (\<lambda>_. for_up dv fuel k (i + k) to body) else ret ())"

definition loop_fuel :: "u64 \<Rightarrow> u64 \<Rightarrow> nat" where
  "loop_fuel i to = unat to - unat i + 2"

fun for_each :: "'a list \<Rightarrow> ('a \<Rightarrow> ('s, 'e, unit) step) \<Rightarrow> ('s, 'e, unit) step" where
  "for_each [] body = ret ()"
| "for_each (x # xs) body = andThen (body x) (\<lambda>_. for_each xs body)"

lemma unat_add_no_wrap: "unat a + unat b < 2 ^ 64 \<Longrightarrow> unat (a + b :: u64) = unat a + unat b"
  by (simp add: unat_word_ariths)

lemma triple_for_up:
  assumes body: "\<And>i. i \<le> to \<Longrightarrow> triple (I i) (body i) (\<lambda>_. I (i + k)) E"
    and k: "0 < k" and nowrap: "unat to + unat k < 2 ^ 64"
    and fuel: "unat to + 1 - unat i < fuel"
  shows "triple (I i) (for_up dv fuel k i to body) (\<lambda>_ s. \<exists>j. to < j \<and> I j s) E"
  using fuel
proof (induction fuel arbitrary: i)
  case 0
  then show ?case by simp
next
  case (Suc fuel)
  show ?case
  proof (cases "i \<le> to")
    case True
    have "unat (i + k) = unat i + unat k"
      using True nowrap by (intro unat_add_no_wrap) (simp add: word_le_nat_alt)
    moreover have "0 < unat k"
      using k by (simp add: unat_gt_0 word_neq_0_conv)
    moreover have "unat i \<le> unat to"
      using True by (simp add: word_le_nat_alt)
    ultimately have "unat to + 1 - unat (i + k) < fuel"
      using Suc.prems by linarith
    from Suc.IH [OF this] body [OF True] True show ?thesis
      by (simp add: triple_andThen)
  next
    case False
    then show ?thesis by (auto intro!: triple_ret simp: not_le)
  qed
qed

text \<open>The invariant rule that needs no bound: running out of fuel is one more error.\<close>

lemma triple_for_up_inv:
  assumes "\<And>i. i \<le> to \<Longrightarrow> triple I (body i) (\<lambda>_. I) E" and "\<And>s. I s \<Longrightarrow> E dv s"
  shows "triple I (for_up dv fuel k i to body) (\<lambda>_. I) E"
proof (induction fuel arbitrary: i)
  case 0
  then show ?case using assms(2) by (simp add: triple_throw)
next
  case (Suc fuel)
  then show ?case
    using assms(1) [of i] by (auto intro!: triple_if triple_andThen triple_ret)
qed

lemma loop_fuel_enough: "unat to + 1 - unat i < loop_fuel i to"
  by (simp add: loop_fuel_def)

lemma triple_for_each:
  assumes "\<And>ys x zs. xs = ys @ x # zs \<Longrightarrow> triple (I ys) (body x) (\<lambda>_. I (ys @ [x])) E"
  shows "triple (I []) (for_each xs body) (\<lambda>_. I xs) E"
proof -
  have "triple (I ys) (for_each zs body) (\<lambda>_. I xs) E" if "xs = ys @ zs" for ys zs
    using that
  proof (induction zs arbitrary: ys)
    case Nil
    then show ?case by (simp add: triple_ret)
  next
    case (Cons z zs)
    have "triple (I ys) (body z) (\<lambda>_. I (ys @ [z])) E"
      using assms Cons.prems by blast
    moreover have "triple (I (ys @ [z])) (for_each zs body) (\<lambda>_. I xs) E"
      using Cons.IH Cons.prems by simp
    ultimately show ?case by (simp add: triple_andThen)
  qed
  from this [of "[]" xs] show ?thesis by simp
qed

section \<open>Text\<close>

subsection \<open>Decimal and hexadecimal numbers\<close>

definition digit :: "nat \<Rightarrow> char" where
  "digit d = ''0123456789abcdef'' ! (d mod 16)"

fun dec :: "nat \<Rightarrow> string" where
  "dec n = (if n < 10 then [digit n] else dec (n div 10) @ [digit (n mod 10)])"

declare dec.simps [simp del]

text \<open>\<open>%d\<close> of a \<open>uint64\<close> and of an \<open>int\<close>, and the zero padding of \<open>%03d\<close>.\<close>

definition show_u64 :: "u64 \<Rightarrow> string" where
  "show_u64 w = dec (unat w)"

definition show_int :: "int \<Rightarrow> string" where
  "show_int i = (if i < 0 then CHR ''-'' # dec (nat (- i)) else dec (nat i))"

definition pad3 :: "string \<Rightarrow> string" where
  "pad3 s = replicate (3 - length s) CHR ''0'' @ s"

definition hex_byte :: "byte \<Rightarrow> string" where
  "hex_byte b = [digit (unat b div 16), digit (unat b mod 16)]"

definition hash_hex :: "hash \<Rightarrow> string" where
  "hash_hex h = ''0x'' @ concat (map hex_byte (hash_bytes h))"

definition digit_value :: "char \<Rightarrow> nat" where
  "digit_value c = (if of_char c < (97 :: nat) then of_char c - 48 else of_char c - 87)"

definition dec_value :: "string \<Rightarrow> nat" where
  "dec_value = foldl (\<lambda>n c. 10 * n + digit_value c) 0"

lemma less_16_cases:
  "d < (16 :: nat) \<Longrightarrow> d = 0 \<or> d = 1 \<or> d = 2 \<or> d = 3 \<or> d = 4 \<or> d = 5 \<or> d = 6 \<or> d = 7 \<or>
    d = 8 \<or> d = 9 \<or> d = 10 \<or> d = 11 \<or> d = 12 \<or> d = 13 \<or> d = 14 \<or> d = 15"
  by presburger

lemma digit_value_digit: "d < 16 \<Longrightarrow> digit_value (digit d) = d"
  by (drule less_16_cases) (auto simp: digit_def digit_value_def)

lemma dec_value_append: "dec_value (xs @ [c]) = 10 * dec_value xs + digit_value c"
  by (simp add: dec_value_def)

lemma dec_value_dec [simp]: "dec_value (dec n) = n"
proof (induction n rule: dec.induct)
  case (1 n)
  show ?case
  proof (cases "n < 10")
    case True
    then show ?thesis
      by (simp add: dec.simps [of n] dec_value_def digit_value_digit)
  next
    case False
    then show ?thesis
      using 1 by (simp add: dec.simps [of n] dec_value_append digit_value_digit)
  qed
qed

lemma dec_inject [simp]: "dec m = dec n \<longleftrightarrow> m = n"
  by (metis dec_value_dec)

lemma dec_value_zeros: "dec_value (replicate k CHR ''0'' @ s) = dec_value s"
  by (induction k) (auto simp: dec_value_def digit_value_def)

lemma pad3_dec_inject [simp]: "pad3 (dec m) = pad3 (dec n) \<longleftrightarrow> m = n"
  by (metis dec_value_dec dec_value_zeros pad3_def)

lemma digit_in: "digit d \<in> set ''0123456789abcdef''"
  unfolding digit_def by (rule nth_mem) simp

lemma set_dec: "set (dec n) \<subseteq> set ''0123456789abcdef''"
proof (induction n rule: dec.induct)
  case (1 n)
  show ?case
  proof (cases "n < 10")
    case True
    then show ?thesis using digit_in [of n] by (simp add: dec.simps [of n])
  next
    case False
    then show ?thesis
      using 1 digit_in [of "n mod 10"] by (simp add: dec.simps [of n])
  qed
qed

lemma dec_not_Nil [simp]: "dec n \<noteq> []"
  by (subst dec.simps) simp

end
