(* ===== verification/Errors.thy ===== *)
theory Errors
  imports Prelude
begin

text \<open>
  Errors as values, and \<open>internal/chain/errors.go\<close>: the classification of provider
  errors that drives pagination.

  \<open>err\<close> is the Go error chain: sentinels (\<open>errors.New\<close> values compared with
  \<open>errors.Is\<close>), typed errors (matched with \<open>errors.As\<close>) and the wrappers that
  \<open>fmt.Errorf\<close> makes with \<open>%w\<close>. \<open>Error\<close> is the message, \<open>Unwrap\<close> one step
  down the chain, \<open>err_chain\<close> the whole chain.
\<close>

section \<open>The error values\<close>

datatype sentinel =
    Canceled | DeadlineExceeded | NotFound
  | ErrCatchupTooLarge | ErrHeadsSilent | ErrReplan
  | ErrCoverageGap | ErrWriterBusy | ErrMaintenance | ErrTooManyResults

datatype errno = ECONNREFUSED | ECONNRESET | ENETUNREACH | EHOSTUNREACH | ETIMEDOUT | OtherErrno nat

text \<open>
  The constructors, with the Go type each stands for: \<open>ErrNew\<close> is \<open>errors.New\<close> or
  \<open>fmt.Errorf\<close> without \<open>%w\<close>; \<open>Wrapf pre e post\<close> is \<open>fmt.Errorf("pre%wpost", e)\<close>;
  \<open>RpcError\<close> is an \<open>rpc.Error\<close> with its code; \<open>UrlError\<close>, \<open>OpError\<close>, \<open>SyscallError\<close>,
  \<open>DNSError\<close> (temporary, timeout) and \<open>NetTimeout\<close> are the transport errors of \<open>net\<close>,
  \<open>net/url\<close> and \<open>os\<close>; \<open>Permanent\<close> is backoff's; \<open>DbError\<close> is what the database
  driver returns. \<open>Diverges\<close> is no Go error: it is the model's value for a loop whose
  \<open>uint64\<close> counter wraps and that Go would go on running.
\<close>

datatype err =
    Sentinel sentinel
  | ErrNew string
  | Wrapf string err string
  | RpcError int string
  | UrlError string err
  | OpError string err
  | SyscallError string err
  | Errno errno string
  | DNSError string bool bool
  | NetTimeout string
  | Permanent err
  | RedactedError string err
  | DbError string
  | SingleBlockOverflowError u64 err
  | DeepReorgError u64
  | DiscontinuityError u64
  | ScopeError string
  | Diverges

fun sentinel_text :: "sentinel \<Rightarrow> string" where
  "sentinel_text Canceled = ''context canceled''"
| "sentinel_text DeadlineExceeded = ''context deadline exceeded''"
| "sentinel_text NotFound = ''not found''"
| "sentinel_text ErrCatchupTooLarge = ''ingestion catch-up exceeds max_catchup_blocks''"
| "sentinel_text ErrHeadsSilent = ''newHeads subscription is silent''"
| "sentinel_text ErrReplan = ''stream position changed; replan from the next head''"
| "sentinel_text ErrCoverageGap = ''write is not contiguous with warehouse coverage''"
| "sentinel_text ErrWriterBusy = ''another writer holds the warehouse (serve ingestion or a backfill stage is running)''"
| "sentinel_text ErrMaintenance = ''warehouse is under maintenance (a backfill is reloading it)''"
| "sentinel_text ErrTooManyResults = ''too many results''"

fun Error :: "err \<Rightarrow> string" where
  "Error (Sentinel s) = sentinel_text s"
| "Error (ErrNew m) = m"
| "Error (Wrapf pre e post) = pre @ Error e @ post"
| "Error (RpcError c m) = m"
| "Error (UrlError m e) = m @ '': '' @ Error e"
| "Error (OpError m e) = m @ '': '' @ Error e"
| "Error (SyscallError m e) = m @ '': '' @ Error e"
| "Error (Errno n m) = m"
| "Error (DNSError m t d) = m"
| "Error (NetTimeout m) = m"
| "Error (Permanent e) = Error e"
| "Error (RedactedError m e) = m"
| "Error (DbError m) = m"
| "Error (SingleBlockOverflowError b e) =
     ''too many results in single block '' @ show_u64 b @ '': '' @ Error e"
| "Error (DeepReorgError h) =
     ''written block '' @ show_u64 h @ '' was replaced by a reorg deeper than the confirmation lag''"
| "Error (DiscontinuityError h) =
     ''block '' @ show_u64 h @ '' does not descend from the block held for '' @ show_u64 (h - 1)"
| "Error (ScopeError r) = ''out of warehouse scope: '' @ r"
| "Error Diverges = ''(the loop does not end)''"

fun Unwrap :: "err \<Rightarrow> err option" where
  "Unwrap (Wrapf pre e post) = Some e"
| "Unwrap (UrlError m e) = Some e"
| "Unwrap (OpError m e) = Some e"
| "Unwrap (SyscallError m e) = Some e"
| "Unwrap (Permanent e) = Some e"
| "Unwrap (RedactedError m e) = Some e"
| "Unwrap (SingleBlockOverflowError b e) = Some e"
| "Unwrap _ = None"

fun err_chain :: "err \<Rightarrow> err list" where
  "err_chain (Wrapf pre e post) = Wrapf pre e post # err_chain e"
| "err_chain (UrlError m e) = UrlError m e # err_chain e"
| "err_chain (OpError m e) = OpError m e # err_chain e"
| "err_chain (SyscallError m e) = SyscallError m e # err_chain e"
| "err_chain (Permanent e) = Permanent e # err_chain e"
| "err_chain (RedactedError m e) = RedactedError m e # err_chain e"
| "err_chain (SingleBlockOverflowError b e) = SingleBlockOverflowError b e # err_chain e"
| "err_chain e = [e]"

lemma err_chain_Unwrap: "err_chain e = e # (case Unwrap e of None \<Rightarrow> [] | Some e' \<Rightarrow> err_chain e')"
  by (cases e) auto

text \<open>\<open>errors.Is\<close> against a sentinel, and \<open>errors.As\<close>: the first match in the chain.\<close>

definition errors_Is :: "err \<Rightarrow> sentinel \<Rightarrow> bool" where
  "errors_Is e s \<longleftrightarrow> Sentinel s \<in> set (err_chain e)"

definition errors_As :: "(err \<Rightarrow> 'a option) \<Rightarrow> err \<Rightarrow> 'a option" where
  "errors_As f e = (case List.map_filter f (err_chain e) of [] \<Rightarrow> None | x # _ \<Rightarrow> Some x)"

section \<open>Classification of provider errors\<close>

definition char_lower :: "char \<Rightarrow> char" where
  "char_lower c =
     (let n = of_char c :: nat in if 65 \<le> n \<and> n \<le> 90 then char_of (n + 32) else c)"

definition ToLower :: "string \<Rightarrow> string" where
  "ToLower = map char_lower"

definition Contains :: "string \<Rightarrow> string \<Rightarrow> bool" where
  "Contains s needle \<longleftrightarrow> sublist needle s"

fun contains_list :: "string \<Rightarrow> string list \<Rightarrow> bool" where
  "contains_list msg [] = False"
| "contains_list msg (needle # needles) = (Contains msg needle \<or> contains_list msg needles)"

definition containsAny :: "err \<Rightarrow> string list \<Rightarrow> bool" where
  "containsAny e needles = contains_list (ToLower (Error e)) needles"

fun rpc_code :: "err \<Rightarrow> int option" where
  "rpc_code (RpcError c m) = Some c"
| "rpc_code (ScopeError r) = Some (-32000)"
| "rpc_code _ = None"

definition isInvalidParams :: "err \<Rightarrow> bool" where
  "isInvalidParams e = (errors_As rpc_code e = Some (-32602))"

definition IsBlockRangeCapError :: "err option \<Rightarrow> bool" where
  "IsBlockRangeCapError eo = (case eo of None \<Rightarrow> False
   | Some e \<Rightarrow>
       if isInvalidParams e \<and> containsAny e [''range'', ''limit''] then True
       else containsAny e
              [''exceeds limit of'', ''block range limit'', ''exceeds max block range'',
               ''block range is too wide'', ''range too large'', ''range is too large'']
            \<or> (containsAny e [''limited to''] \<and> containsAny e [''block range'']))"

definition IsTooManyResultsError :: "err option \<Rightarrow> bool" where
  "IsTooManyResultsError eo = (case eo of None \<Rightarrow> False
   | Some e \<Rightarrow>
       containsAny e
         [''query returned more than'', ''too many results'', ''too many logs'', ''exceeds max results'']
       \<or> IsBlockRangeCapError eo)"

section \<open>Facts about the classification\<close>

lemma contains_list_iff: "contains_list msg ns \<longleftrightarrow> (\<exists>n \<in> set ns. sublist n msg)"
  by (induction ns) (auto simp: Contains_def)

lemma ToLower_append [simp]: "ToLower (a @ b) = ToLower a @ ToLower b"
  by (simp add: ToLower_def)

lemma char_lower_idem [simp]: "char_lower (char_lower c) = char_lower c"
proof -
  have "(of_char (char_of ((of_char c :: nat) + 32) :: char) :: nat) = of_char c + 32"
    if "(of_char c :: nat) \<le> 90"
    using that by simp
  then show ?thesis
    by (auto simp: char_lower_def Let_def)
qed

lemma ToLower_idem [simp]: "ToLower (ToLower s) = ToLower s"
  by (simp add: ToLower_def)

lemma contains_list_infix: "contains_list m ns \<Longrightarrow> contains_list (a @ m @ b) ns"
  by (auto simp: contains_list_iff sublist_append)

lemma containsAny_Wrapf: "containsAny e ns \<Longrightarrow> containsAny (Wrapf pre e post) ns"
  by (simp add: containsAny_def contains_list_infix)

lemma errors_As_Wrapf: "f (Wrapf pre e post) = None \<Longrightarrow> errors_As f (Wrapf pre e post) = errors_As f e"
  by (simp add: errors_As_def)

lemma isInvalidParams_Wrapf [simp]: "isInvalidParams (Wrapf pre e post) = isInvalidParams e"
  by (simp add: isInvalidParams_def errors_As_Wrapf)

lemma IsBlockRangeCapError_Wrapf:
  "IsBlockRangeCapError (Some e) \<Longrightarrow> IsBlockRangeCapError (Some (Wrapf pre e post))"
  by (auto simp: IsBlockRangeCapError_def containsAny_Wrapf split: if_splits)

lemma errors_Is_Wrapf [simp]: "errors_Is (Wrapf pre e post) s = errors_Is e s"
  by (simp add: errors_Is_def)

lemma errors_Is_simps [simp]:
  "errors_Is (Sentinel x) s = (x = s)" "errors_Is (ErrNew m) s = False"
  "errors_Is (ScopeError m) s = False" "errors_Is (DbError m) s = False"
  "errors_Is Diverges s = False" "errors_Is (DiscontinuityError h) s = False"
  "errors_Is (DeepReorgError h) s = False"
  by (auto simp: errors_Is_def)

text \<open>
  A phrase with no character of \<open>m\<close> cannot straddle a nonempty infix \<open>m\<close>: inside
  \<open>a @ m @ b\<close> it lies in \<open>a\<close> or in \<open>b\<close>. This is how a printed number or hash is
  kept from completing a phrase.
\<close>

lemma sublist_around:
  assumes "sublist n (a @ m @ b)" and apart: "set n \<inter> set m = {}" and ne: "m \<noteq> []" "n \<noteq> []"
  shows "sublist n a \<or> sublist n b"
proof -
  have straddle: "x = []" if "n = x @ y" "suffix x m" for x y
    using that apart by (cases x rule: rev_cases) (auto simp: suffix_def)
  have cover: "y = []" if "n = x @ y" "prefix y (m @ b)" for x y
    using that apart ne by (cases y; cases m) auto
  have inside: "\<not> sublist n m"
    using apart ne by (cases n) (auto simp: sublist_def)
  have right: "sublist n b" if "sublist n (m @ b)"
    using that inside straddle
    by (metis append_Nil prefix_imp_sublist sublist_append)
  have left: "sublist n a" if "n = x @ y" "suffix x a" "prefix y (m @ b)" for x y
    using that cover [OF that(1,3)] by (auto dest: suffix_imp_sublist)
  show ?thesis
    using assms(1) right left by (auto simp: sublist_append[of n a "m @ b"])
qed

end
