(* ===== verification/EventSet.thy ===== *)
theory EventSet
  imports Errors
begin

text \<open>
  \<open>internal/eventset/eventset.go\<close>: which logs the warehouse stores (\<open>Keep\<close>), which
  signatures it serves (\<open>IsWarehouseSignature\<close>) and the topic filter ingestion asks the
  provider for (\<open>Topics\<close>).

  \<open>crypto.Keccak256Hash\<close> belongs to go-ethereum: it is the argument \<open>kc\<close>, from the ABI
  text of an event to its hash. The properties that need the nine signatures to differ
  say so (\<open>distinct_signatures\<close>).
\<close>

section \<open>Signatures\<close>

type_synonym keccak = "string \<Rightarrow> hash"

definition Transfer :: "keccak \<Rightarrow> hash" where
  "Transfer kc = kc ''Transfer(address,address,uint256)''"

definition TransferSingle :: "keccak \<Rightarrow> hash" where
  "TransferSingle kc = kc ''TransferSingle(address,address,address,uint256,uint256)''"

definition TransferBatch :: "keccak \<Rightarrow> hash" where
  "TransferBatch kc = kc ''TransferBatch(address,address,address,uint256[],uint256[])''"

definition MetadataUpdate :: "keccak \<Rightarrow> hash" where
  "MetadataUpdate kc = kc ''MetadataUpdate(uint256)''"

definition BatchMetadataUpdate :: "keccak \<Rightarrow> hash" where
  "BatchMetadataUpdate kc = kc ''BatchMetadataUpdate(uint256,uint256)''"

definition URI :: "keccak \<Rightarrow> hash" where
  "URI kc = kc ''URI(string,uint256)''"

definition PunkTransfer :: "keccak \<Rightarrow> hash" where
  "PunkTransfer kc = kc ''PunkTransfer(address,address,uint256)''"

definition PunkAssign :: "keccak \<Rightarrow> hash" where
  "PunkAssign kc = kc ''Assign(address,uint256)''"

definition PunkBought :: "keccak \<Rightarrow> hash" where
  "PunkBought kc = kc ''PunkBought(uint256,uint256,address,address)''"

definition CryptoPunksAddress :: address where
  "CryptoPunksAddress = 0xb47e3cd837ddf8e4c57f05d70ab865de6e193bbb"

text \<open>The two package maps; a later key of a Go map literal overwrites an equal earlier one.\<close>

definition topicCount :: "keccak \<Rightarrow> hash \<Rightarrow> nat option" where
  "topicCount kc =
     [Transfer kc \<mapsto> 4, TransferSingle kc \<mapsto> 4, TransferBatch kc \<mapsto> 4,
      MetadataUpdate kc \<mapsto> 1, BatchMetadataUpdate kc \<mapsto> 1, URI kc \<mapsto> 2]"

definition punkSignatures :: "keccak \<Rightarrow> hash list" where
  "punkSignatures kc = [PunkTransfer kc, PunkAssign kc, PunkBought kc]"

section \<open>Operations\<close>

definition Topics :: "keccak \<Rightarrow> hash list" where
  "Topics kc =
     [Transfer kc, TransferSingle kc, TransferBatch kc, MetadataUpdate kc, BatchMetadataUpdate kc,
      URI kc, PunkTransfer kc, PunkAssign kc, PunkBought kc]"

definition IsWarehouseSignature :: "keccak \<Rightarrow> hash \<Rightarrow> bool" where
  "IsWarehouseSignature kc topic0 =
     (case topicCount kc topic0 of Some _ \<Rightarrow> True | None \<Rightarrow> topic0 \<in> set (punkSignatures kc))"

definition IsCryptoPunksSignature :: "keccak \<Rightarrow> hash \<Rightarrow> bool" where
  "IsCryptoPunksSignature kc topic0 = (topic0 \<in> set (punkSignatures kc))"

text \<open>\<open>hex\<close> is go-ethereum's \<open>Address.Hex\<close> (the checksummed text of an address).\<close>

definition OmittedShapes :: "keccak \<Rightarrow> (address \<Rightarrow> string) \<Rightarrow> hash \<Rightarrow> string" where
  "OmittedShapes kc hex topic0 =
     (if topic0 = Transfer kc then
        ''logs with fewer than 4 topics (ERC-20 Transfer, pre-standard NFT Transfer), except those emitted by CryptoPunks ''
          @ hex CryptoPunksAddress
      else if topic0 = TransferSingle kc \<or> topic0 = TransferBatch kc then
        ''logs with fewer than 4 topics (malformed emitters)''
      else if topic0 = MetadataUpdate kc \<or> topic0 = BatchMetadataUpdate kc then
        ''logs with more than 1 topic (nonstandard emitters with indexed arguments)''
      else if topic0 = URI kc then
        ''logs with a topic count other than 2 (nonstandard emitters)''
      else if topic0 = PunkTransfer kc \<or> topic0 = PunkAssign kc \<or> topic0 = PunkBought kc then
        ''logs emitted by any contract other than CryptoPunks '' @ hex CryptoPunksAddress
      else '''')"

definition Keep :: "keccak \<Rightarrow> hash list \<Rightarrow> address \<Rightarrow> bool" where
  "Keep kc topics address =
     (case topics of [] \<Rightarrow> False
      | topic0 # _ \<Rightarrow>
          if topic0 = Transfer kc \<and> address = CryptoPunksAddress then True
          else (case topicCount kc topic0 of
                  Some want \<Rightarrow> length topics = want
                | None \<Rightarrow>
                    if topic0 \<in> set (punkSignatures kc) then address = CryptoPunksAddress
                    else False))"

section \<open>The rules the code must agree with\<close>

definition distinct_signatures :: "keccak \<Rightarrow> bool" where
  "distinct_signatures kc \<longleftrightarrow> distinct (Topics kc)"

text \<open>
  The \<open>WHERE\<close> clause of the BigQuery extract that fills the backfill
  (\<open>docs/probe_2026-08.md\<close>), on a log with \<open>n\<close> topics of which \<open>t0\<close> is the first
  (\<open>NULL\<close> when there is none, which no arm of the clause accepts).
\<close>

definition extract_where :: "keccak \<Rightarrow> hash option \<Rightarrow> nat \<Rightarrow> address \<Rightarrow> bool" where
  "extract_where kc t0 n address =
     (case t0 of None \<Rightarrow> False | Some t \<Rightarrow>
        (t = Transfer kc \<and> n = 4)
      \<or> (t = Transfer kc \<and> address = CryptoPunksAddress)
      \<or> (t \<in> {TransferSingle kc, TransferBatch kc} \<and> n = 4)
      \<or> (t \<in> {MetadataUpdate kc, BatchMetadataUpdate kc} \<and> n = 1)
      \<or> (t = URI kc \<and> n = 2)
      \<or> (t \<in> {PunkTransfer kc, PunkAssign kc, PunkBought kc} \<and> address = CryptoPunksAddress))"

definition first_topic :: "hash list \<Rightarrow> hash option" where
  "first_topic topics = (case topics of [] \<Rightarrow> None | t # _ \<Rightarrow> Some t)"

text \<open>A concrete event table, from \<open>docs/api_design.md\<close>, for the witnesses.\<close>

definition mainnet_keccak :: keccak where
  "mainnet_keccak s =
    (if s = ''Transfer(address,address,uint256)'' then 0xddf252ad1be2c89b69c2b068fc378daa952ba7f163c4a11628f55a4df523b3ef
     else if s = ''TransferSingle(address,address,address,uint256,uint256)'' then 0xc3d58168c5ae7397731d063d5bbf3d657854427343f4c083240f7aacaa2d0f62
     else if s = ''TransferBatch(address,address,address,uint256[],uint256[])'' then 0x4a39dc06d4c0dbc64b70af90fd698a233a518aa5d07e595d983b8c0526c8f7fb
     else if s = ''MetadataUpdate(uint256)'' then 0xf8e1a15aba9398e019f0b49df1a4fde98ee17ae345cb5f6b5e2c27f5033e8ce7
     else if s = ''BatchMetadataUpdate(uint256,uint256)'' then 0x6bd5c950a8d8df17f772f5af37cb3655737899cbf903264b9795592da439661c
     else if s = ''URI(string,uint256)'' then 0x6bb7ff708619ba0610cba295a58592e0451dee2622938c8755667688daf3529b
     else if s = ''PunkTransfer(address,address,uint256)'' then 0x05af636b70da6819000c49f85b21fa82081c632069bb626f30932034099107d8
     else if s = ''Assign(address,uint256)'' then 0x8a0e37b73a0d9c82e205d4d1a3ff3d0b57ce5f4d7bccf6bac03336dc101cb7ba
     else if s = ''PunkBought(uint256,uint256,address,address)'' then 0x58e5d5a525e3b40bc15abaa38b5882678db1ee68befd2f60bafe3a7fd06db9e3
     else 0)"

lemmas signature_defs =
  Transfer_def TransferSingle_def TransferBatch_def MetadataUpdate_def BatchMetadataUpdate_def
  URI_def PunkTransfer_def PunkAssign_def PunkBought_def

lemma mainnet_distinct: "distinct_signatures mainnet_keccak"
  by (simp add: distinct_signatures_def Topics_def signature_defs mainnet_keccak_def)

lemma mainnet_signatures [simp]:
  "Transfer mainnet_keccak = 0xddf252ad1be2c89b69c2b068fc378daa952ba7f163c4a11628f55a4df523b3ef"
  "TransferSingle mainnet_keccak = 0xc3d58168c5ae7397731d063d5bbf3d657854427343f4c083240f7aacaa2d0f62"
  "TransferBatch mainnet_keccak = 0x4a39dc06d4c0dbc64b70af90fd698a233a518aa5d07e595d983b8c0526c8f7fb"
  "MetadataUpdate mainnet_keccak = 0xf8e1a15aba9398e019f0b49df1a4fde98ee17ae345cb5f6b5e2c27f5033e8ce7"
  "BatchMetadataUpdate mainnet_keccak = 0x6bd5c950a8d8df17f772f5af37cb3655737899cbf903264b9795592da439661c"
  "URI mainnet_keccak = 0x6bb7ff708619ba0610cba295a58592e0451dee2622938c8755667688daf3529b"
  "PunkTransfer mainnet_keccak = 0x05af636b70da6819000c49f85b21fa82081c632069bb626f30932034099107d8"
  "PunkAssign mainnet_keccak = 0x8a0e37b73a0d9c82e205d4d1a3ff3d0b57ce5f4d7bccf6bac03336dc101cb7ba"
  "PunkBought mainnet_keccak = 0x58e5d5a525e3b40bc15abaa38b5882678db1ee68befd2f60bafe3a7fd06db9e3"
  by (simp_all add: signature_defs mainnet_keccak_def)

section \<open>Lemmas\<close>

lemma IsWarehouseSignature_iff_Topics: "IsWarehouseSignature kc t \<longleftrightarrow> t \<in> set (Topics kc)"
  by (auto simp: IsWarehouseSignature_def Topics_def topicCount_def punkSignatures_def
      split: option.splits)

lemma Keep_IsWarehouseSignature: "Keep kc (t # ts) a \<Longrightarrow> IsWarehouseSignature kc t"
  by (auto simp: Keep_def IsWarehouseSignature_iff_Topics Topics_def topicCount_def punkSignatures_def
      split: if_splits option.splits)

section \<open>Properties\<close>

text \<open>
  C33. C1: the two write paths agree on what is stored. \<open>Keep\<close>, which tail ingestion applies to
  every fetched log, accepts exactly the logs the \<open>WHERE\<close> clause of the BigQuery extract
  accepts, for every topic list and emitter, when the nine signatures are distinct hashes.
\<close>

theorem Keep_is_extract:
  assumes "distinct_signatures kc"
  shows "Keep kc topics address = extract_where kc (first_topic topics) (length topics) address"
  using assms
  by (cases topics)
    (auto simp: Keep_def extract_where_def first_topic_def topicCount_def punkSignatures_def
      distinct_signatures_def Topics_def)

theorem Keep_is_extract_witness:
  "distinct_signatures mainnet_keccak \<and>
   Keep mainnet_keccak [Transfer mainnet_keccak, 1, 2] CryptoPunksAddress =
     extract_where mainnet_keccak (Some (Transfer mainnet_keccak)) 3 CryptoPunksAddress"
  using mainnet_distinct
    Keep_is_extract [OF mainnet_distinct, of "[Transfer mainnet_keccak, 1, 2]" CryptoPunksAddress]
  by (simp add: first_topic_def numeral_eq_Suc)

text \<open>
  C2: the filter ingestion sends, the shapes it stores and the signatures the API serves are
  one set. A signature is served exactly when it is in the ingestion filter and exactly when
  the omitted-shapes table has an entry for it; every stored log carries such a signature
  first; and every such signature has a shape that is stored.
\<close>

theorem served_is_fetched:
  "IsWarehouseSignature kc t = (t \<in> set (Topics kc)) \<and>
   IsWarehouseSignature kc t = (OmittedShapes kc hex t \<noteq> '''') \<and>
   IsWarehouseSignature kc t = (\<exists>topics address. Keep kc (t # topics) address)"
proof (intro conjI)
  show "IsWarehouseSignature kc t = (t \<in> set (Topics kc))"
    by (rule IsWarehouseSignature_iff_Topics)
  show "IsWarehouseSignature kc t = (OmittedShapes kc hex t \<noteq> '''')"
    by (auto simp: IsWarehouseSignature_iff_Topics Topics_def OmittedShapes_def)
  have "\<exists>topics address. Keep kc (t # topics) address" if "t \<in> set (Topics kc)"
  proof (cases "topicCount kc t")
    case (Some n)
    then have "0 < n" by (auto simp: topicCount_def split: if_splits)
    then have "Keep kc (t # replicate (n - 1) 0) 0"
      using Some by (auto simp: Keep_def)
    then show ?thesis by blast
  next
    case None
    then have "t \<in> set (punkSignatures kc)"
      using that by (auto simp: Topics_def topicCount_def punkSignatures_def split: if_splits)
    then have "Keep kc [t] CryptoPunksAddress"
      using None by (simp add: Keep_def)
    then show ?thesis by blast
  qed
  then show "IsWarehouseSignature kc t = (\<exists>topics address. Keep kc (t # topics) address)"
    using Keep_IsWarehouseSignature IsWarehouseSignature_iff_Topics by blast
qed

end
