(* ===== verification/Types.thy ===== *)
theory Types
  imports Errors
begin

text \<open>
  The records the components exchange: go-ethereum's \<open>types.Log\<close>, the block head of
  \<open>internal/chain/client.go\<close>, and the block row and coverage interval of
  \<open>internal/logstore/store.go\<close>. A Go \<open>uint\<close> is 64 bits. \<open>logData\<close> is a byte slice that
  may be nil (\<open>None\<close>), a distinction the writer and the reader of rows make.
\<close>

record log =
  logAddress :: address
  logTopics :: "hash list"
  logData :: "bytes option"
  logBlockNumber :: u64
  logTxHash :: hash
  logTxIndex :: u64
  logBlockHash :: hash
  logBlockTimestamp :: u64
  logIndex :: u64
  logRemoved :: bool

record block_head =
  headNumber :: u64
  headHash :: hash
  headParentHash :: hash
  headTimestamp :: u64

record block =
  blkNumber :: u64
  blkHash :: hash
  blkTimestamp :: u64

record coverage =
  covStart :: u64
  covHead :: u64

text \<open>The common order of logs: block number, then index in the block.\<close>

definition log_key :: "log \<Rightarrow> u64 \<times> u64" where
  "log_key l = (logBlockNumber l, logIndex l)"

end
