(* ===== verification/Store.thy ===== *)
theory Store
  imports Types
begin

text \<open>
  \<open>internal/logstore/schema.go\<close> and \<open>store.go\<close>: the PostgreSQL warehouse, its partitions,
  the atomic range writer, rewind and coverage.

  The database is a record of its tables. A statement is a function of the tables; whether
  it reaches the server is decided by \<open>faults\<close>, which may fail any statement, or let it
  take effect and lose the reply. \<open>in_tx\<close> is a transaction: begin, the body, commit; any
  error rolls the tables back. All properties hold for every \<open>faults\<close>.
\<close>

section \<open>Tables\<close>

record block_row =
  b_number :: int
  b_hash :: bytes
  b_ts :: int

record log_row =
  r_block_number :: int
  r_log_index :: int
  r_tx_index :: int
  r_tx_hash :: bytes
  r_address :: bytes
  r_topic0 :: "bytes option"
  r_topic1 :: "bytes option"
  r_topic2 :: "bytes option"
  r_topic3 :: "bytes option"
  r_data :: "bytes option"

record partition_def =
  p_name :: string
  p_from :: int
  p_to :: int

text \<open>
  \<open>backfill_units\<close> maps a unit to the fingerprint and row count it was loaded with;
  \<open>ingest_cursor\<close> is the one row \<open>(coverage_start, block_number)\<close> or no row;
  \<open>indexes\<close> are the names of the existing secondary indexes.
\<close>

record tables =
  eth_blocks :: "block_row list"
  eth_logs :: "log_row list"
  partitions :: "partition_def list"
  ingest_cursor :: "(int \<times> int) option"
  maintenance :: bool
  maintenance_reason :: string
  backfill_units :: "(string \<times> string \<times> int) list"
  indexes :: "string list"

datatype fault = Failed err | ReplyLost err

text \<open>
  The connection pool: the tables, the number of statements sent so far, the fate of each
  statement, and whether another session holds the writer or the maintenance lock.
\<close>

record pg =
  tab :: tables
  tick :: nat
  faults :: "nat \<Rightarrow> fault option"
  writer_locked :: bool
  maintenance_locked :: bool

definition exec :: "(tables \<Rightarrow> err + 'a \<times> tables) \<Rightarrow> (pg, err, 'a) step" where
  "exec f s =
     (let s1 = s\<lparr>tick := Suc (tick s)\<rparr> in
      case faults s (tick s) of
        Some (Failed e) \<Rightarrow> (Inl e, s1)
      | Some (ReplyLost e) \<Rightarrow> (Inl e, (case f (tab s) of Inl e' \<Rightarrow> s1 | Inr (x, t) \<Rightarrow> s1\<lparr>tab := t\<rparr>))
      | None \<Rightarrow> (case f (tab s) of Inl e \<Rightarrow> (Inl e, s1) | Inr (x, t) \<Rightarrow> (Inr x, s1\<lparr>tab := t\<rparr>)))"

definition query :: "(tables \<Rightarrow> 'a) \<Rightarrow> (pg, err, 'a) step" where
  "query f = exec (\<lambda>t. Inr (f t, t))"

definition update :: "(tables \<Rightarrow> tables) \<Rightarrow> (pg, err, unit) step" where
  "update f = exec (\<lambda>t. Inr ((), f t))"

definition commit :: "tables \<Rightarrow> 'a \<Rightarrow> (pg, err, 'a) step" where
  "commit before x s =
     (let s1 = s\<lparr>tick := Suc (tick s)\<rparr> in
      case faults s (tick s) of
        None \<Rightarrow> (Inr x, s1)
      | Some (Failed e) \<Rightarrow> (Inl e, s1\<lparr>tab := before\<rparr>)
      | Some (ReplyLost e) \<Rightarrow> (Inl e, s1))"

definition rollback :: "tables \<Rightarrow> pg \<Rightarrow> pg" where
  "rollback before s = s\<lparr>tab := before\<rparr>"

definition in_tx :: "(pg, err, 'a) step \<Rightarrow> (pg, err, 'a) step" where
  "in_tx body s =
     (case exec (\<lambda>t. Inr ((), t)) s of
        (Inl e, s1) \<Rightarrow> (Inl e, s1)
      | (Inr _, s1) \<Rightarrow>
          (case body s1 of
             (Inl e, s2) \<Rightarrow> (Inl e, rollback (tab s) s2)
           | (Inr x, s2) \<Rightarrow> commit (tab s) x s2))"

section \<open>Partitions\<close>

definition PartitionBlocks :: u64 where
  "PartitionBlocks = 1000000"

definition PartitionName :: "u64 \<Rightarrow> string" where
  "PartitionName n = ''eth_logs_p'' @ pad3 (show_u64 (n div PartitionBlocks))"

text \<open>\<open>CREATE TABLE IF NOT EXISTS name PARTITION OF eth_logs FOR VALUES FROM (lo) TO (hi)\<close>.\<close>

definition PartitionDDL :: "u64 \<Rightarrow> partition_def" where
  "PartitionDDL n =
     (let lo = n div PartitionBlocks * PartitionBlocks
      in \<lparr>p_name = PartitionName n, p_from = uint lo, p_to = uint (lo + PartitionBlocks)\<rparr>)"

definition overlaps :: "partition_def \<Rightarrow> partition_def \<Rightarrow> bool" where
  "overlaps p q \<longleftrightarrow> p_from p < p_to q \<and> p_from q < p_to p"

definition create_partition :: "partition_def \<Rightarrow> tables \<Rightarrow> err + unit \<times> tables" where
  "create_partition p t =
     (if p_name p \<in> p_name ` set (partitions t) then Inr ((), t)
      else if p_to p \<le> p_from p \<or> 2 ^ 63 \<le> p_to p \<or> (\<exists>q \<in> set (partitions t). overlaps p q)
      then Inl (DbError ''cannot create partition'')
      else Inr ((), t\<lparr>partitions := partitions t @ [p]\<rparr>))"

text \<open>The body of the loop of \<open>ensurePartitions\<close>, and the loop.\<close>

definition ensure_partition :: "u64 \<Rightarrow> (pg, err, unit) step" where
  "ensure_partition lo =
     andThen (onErr (\<lambda>e. Wrapf (''probe partition '' @ PartitionName lo @ '': '') e '''')
               (query (\<lambda>t. PartitionName lo \<in> p_name ` set (partitions t)))) (\<lambda>exists.
     if exists then ret ()
     else onErr (\<lambda>e. Wrapf (''create partition '' @ PartitionName lo @ '': '') e '''')
            (exec (create_partition (PartitionDDL lo))))"

definition ensurePartitions :: "u64 \<Rightarrow> u64 \<Rightarrow> (pg, err, unit) step" where
  "ensurePartitions from to =
     (let lo = from div PartitionBlocks * PartitionBlocks in
      for_up Diverges (loop_fuel lo to) PartitionBlocks lo to ensure_partition)"

section \<open>Rows\<close>

definition BlockRow :: "block \<Rightarrow> block_row" where
  "BlockRow b = \<lparr>b_number = int64 (blkNumber b), b_hash = hash_bytes (blkHash b), b_ts = int64 (blkTimestamp b)\<rparr>"

text \<open>\<open>int32(x)\<close> of a \<open>uint\<close>, and the topic in position \<open>i\<close> or NULL.\<close>

definition int32 :: "u64 \<Rightarrow> int" where
  "int32 w = sint (ucast w :: 32 word)"

definition topic_at :: "log \<Rightarrow> nat \<Rightarrow> bytes option" where
  "topic_at l i = (if i < length (logTopics l) then Some (hash_bytes (logTopics l ! i)) else None)"

definition LogRow :: "log \<Rightarrow> log_row" where
  "LogRow l =
     (let data = (case logData l of None \<Rightarrow> Some [] | Some d \<Rightarrow> Some d)
      in \<lparr>r_block_number = int64 (logBlockNumber l), r_log_index = int32 (logIndex l),
          r_tx_index = int32 (logTxIndex l), r_tx_hash = hash_bytes (logTxHash l),
          r_address = address_bytes (logAddress l),
          r_topic0 = topic_at l 0, r_topic1 = topic_at l 1, r_topic2 = topic_at l 2,
          r_topic3 = topic_at l 3, r_data = data\<rparr>)"

definition row_key :: "log_row \<Rightarrow> int \<times> int" where
  "row_key r = (r_block_number r, r_log_index r)"

definition routed :: "tables \<Rightarrow> log_row \<Rightarrow> bool" where
  "routed t r \<longleftrightarrow> (\<exists>p \<in> set (partitions t). p_from p \<le> r_block_number r \<and> r_block_number r < p_to p)"

text \<open>\<open>COPY\<close> into the two tables: primary keys, NOT NULL columns and partition routing.\<close>

definition copy_block_rows :: "block_row list \<Rightarrow> tables \<Rightarrow> err + unit \<times> tables" where
  "copy_block_rows rows t =
     (if distinct (map b_number (eth_blocks t @ rows))
      then Inr ((), t\<lparr>eth_blocks := eth_blocks t @ rows\<rparr>)
      else Inl (DbError ''duplicate key value violates unique constraint eth_blocks_pkey''))"

definition copy_log_rows :: "log_row list \<Rightarrow> tables \<Rightarrow> err + unit \<times> tables" where
  "copy_log_rows rows t =
     (if \<exists>r \<in> set rows. \<not> routed t r
      then Inl (DbError ''no partition of relation eth_logs found for row'')
      else if \<exists>r \<in> set rows. r_topic0 r = None \<or> r_data r = None
      then Inl (DbError ''null value violates not-null constraint'')
      else if \<not> distinct (map row_key (eth_logs t @ rows))
      then Inl (DbError ''duplicate key value violates unique constraint eth_logs_pkey'')
      else Inr ((), t\<lparr>eth_logs := eth_logs t @ rows\<rparr>))"

definition copyBlocks :: "block list \<Rightarrow> (pg, err, unit) step" where
  "copyBlocks blocks =
     onErr (\<lambda>e. Wrapf (''copy '' @ dec (length blocks) @ '' blocks: '') e '''')
       (exec (copy_block_rows (map BlockRow blocks)))"

definition copyLogs :: "log list \<Rightarrow> (pg, err, unit) step" where
  "copyLogs logs =
     (if logs = [] then ret ()
      else onErr (\<lambda>e. Wrapf (''copy '' @ dec (length logs) @ '' logs: '') e '''')
             (exec (copy_log_rows (map LogRow logs))))"

section \<open>Coverage\<close>

text \<open>The cursor row as the code reads it; no row is \<open>ok = false\<close>.\<close>

definition coverage_of :: "tables \<Rightarrow> coverage option" where
  "coverage_of t =
     (case ingest_cursor t of
        None \<Rightarrow> None
      | Some (start, head) \<Rightarrow> Some \<lparr>covStart = uint64 start, covHead = uint64 head\<rparr>)"

definition readCoverage :: "(pg, err, coverage option) step" where
  "readCoverage = onErr (\<lambda>e. Wrapf ''read cursor: '' e '''') (query coverage_of)"

text \<open>\<open>Coverage\<close> and \<open>Cursor\<close> of the store are this read, outside a transaction.\<close>

definition Cursor :: "(pg, err, u64 option) step" where
  "Cursor = andThen readCoverage (\<lambda>cov. ret (map_option covHead cov))"

text \<open>The upsert of the cursor row, with the table's \<open>CHECK (coverage_start <= block_number)\<close>.\<close>

definition upsert_cursor :: "int \<Rightarrow> int \<Rightarrow> tables \<Rightarrow> err + unit \<times> tables" where
  "upsert_cursor start head t =
     (if start \<le> head then Inr ((), t\<lparr>ingest_cursor := Some (start, head)\<rparr>)
      else Inl (DbError ''new row violates check constraint''))"

definition setCoverage :: "coverage \<Rightarrow> (pg, err, unit) step" where
  "setCoverage cov =
     onErr (\<lambda>e. Wrapf (''set coverage '' @ show_u64 (covStart cov) @ ''-'' @ show_u64 (covHead cov) @ '': '') e '''')
       (exec (upsert_cursor (int64 (covStart cov)) (int64 (covHead cov))))"

definition SetCoverage :: "coverage \<Rightarrow> (pg, err, unit) step" where
  "SetCoverage cov = in_tx (andThen readCoverage (\<lambda>existing.
     case existing of
       Some ex \<Rightarrow>
         if covStart cov > covHead ex + 1 \<or> covHead cov + 1 < covStart ex
         then throw (Wrapf '''' (Sentinel ErrCoverageGap)
                (('': verified interval '' @ show_u64 (covStart cov) @ ''-'' @ show_u64 (covHead cov)) @
                 '' vs existing coverage '' @ show_u64 (covStart ex) @ ''-'' @ show_u64 (covHead ex)))
         else setCoverage \<lparr>covStart = min (covStart cov) (covStart ex), covHead = max (covHead cov) (covHead ex)\<rparr>
     | None \<Rightarrow> setCoverage cov))"

section \<open>Writing a range\<close>

definition hash_of_block :: "block list \<Rightarrow> u64 \<Rightarrow> hash option" where
  "hash_of_block blocks = map_of (rev (map (\<lambda>b. (blkNumber b, blkHash b)) blocks))"

fun logsMatch :: "(u64 \<Rightarrow> hash option) \<Rightarrow> log list \<Rightarrow> err option" where
  "logsMatch byNumber [] = None"
| "logsMatch byNumber (l # ls) =
     (if logBlockHash l = 0 then
        Some (ErrNew (''log at block '' @ show_u64 (logBlockNumber l) @ '' index '' @ show_u64 (logIndex l)
          @ '' carries no block hash; unverifiable logs are not stored''))
      else (case byNumber (logBlockNumber l) of
        None \<Rightarrow> Some (ErrNew (''log at block '' @ show_u64 (logBlockNumber l) @ '' has no block row in the batch''))
      | Some h \<Rightarrow>
          if h \<noteq> logBlockHash l
          then Some (ErrNew (''log at block '' @ show_u64 (logBlockNumber l) @ '' carries block hash ''
                 @ hash_hex (logBlockHash l) @ '' but the block row is '' @ hash_hex h))
          else logsMatch byNumber ls))"

definition logsMatchBlocks :: "log list \<Rightarrow> block list \<Rightarrow> err option" where
  "logsMatchBlocks logs blocks = logsMatch (hash_of_block blocks) logs"

definition delete_logs_between :: "int \<Rightarrow> int \<Rightarrow> tables \<Rightarrow> tables" where
  "delete_logs_between lo hi t =
     t\<lparr>eth_logs := filter (\<lambda>r. \<not> (lo \<le> r_block_number r \<and> r_block_number r \<le> hi)) (eth_logs t)\<rparr>"

definition delete_blocks_between :: "int \<Rightarrow> int \<Rightarrow> tables \<Rightarrow> tables" where
  "delete_blocks_between lo hi t =
     t\<lparr>eth_blocks := filter (\<lambda>b. \<not> (lo \<le> b_number b \<and> b_number b \<le> hi)) (eth_blocks t)\<rparr>"

definition range_text :: "u64 \<Rightarrow> u64 \<Rightarrow> string" where
  "range_text from to = show_u64 from @ ''-'' @ show_u64 to"

definition extended_coverage :: "coverage option \<Rightarrow> u64 \<Rightarrow> u64 \<Rightarrow> coverage" where
  "extended_coverage cov from to =
     (let c = (case cov of None \<Rightarrow> \<lparr>covStart = from, covHead = to\<rparr> | Some c \<Rightarrow> c)
      in \<lparr>covStart = min (covStart c) from, covHead = max (covHead c) to\<rparr>)"

definition write_range_body :: "u64 \<Rightarrow> u64 \<Rightarrow> block list \<Rightarrow> log list \<Rightarrow> (pg, err, unit) step" where
  "write_range_body from to blocks logs =
     andThen readCoverage (\<lambda>cov.
     if (case cov of Some c \<Rightarrow> from > covHead c + 1 \<or> to + 1 < covStart c | None \<Rightarrow> False)
     then throw (Wrapf '''' (Sentinel ErrCoverageGap)
            ('': range '' @ range_text from to @ '' vs coverage '' @
             (case cov of Some c \<Rightarrow> range_text (covStart c) (covHead c) | None \<Rightarrow> '''') @
             '' (rewind, or unset ethereum.start_block)''))
     else
     andThen (ensurePartitions from to) (\<lambda>_.
     andThen (onErr (\<lambda>e. Wrapf (''clear logs '' @ range_text from to @ '': '') e '''')
               (update (delete_logs_between (int64 from) (int64 to)))) (\<lambda>_.
     andThen (onErr (\<lambda>e. Wrapf (''clear blocks '' @ range_text from to @ '': '') e '''')
               (update (delete_blocks_between (int64 from) (int64 to)))) (\<lambda>_.
     andThen (copyBlocks blocks) (\<lambda>_.
     andThen (copyLogs logs) (\<lambda>_.
     setCoverage (extended_coverage cov from to)))))))"

definition WriteRange :: "u64 \<Rightarrow> u64 \<Rightarrow> block list \<Rightarrow> log list \<Rightarrow> (pg, err, unit) step" where
  "WriteRange from to blocks logs =
     (if (of_nat (length blocks) :: u64) \<noteq> to - from + 1
      then throw (ErrNew (''write range '' @ range_text from to @ '': got '' @ dec (length blocks)
             @ '' block rows, want '' @ show_u64 (to - from + 1)))
      else (case logsMatchBlocks logs blocks of
        Some e \<Rightarrow> throw (Wrapf (''write range '' @ range_text from to @ '': '') e '''')
      | None \<Rightarrow> in_tx (write_range_body from to blocks logs)))"

section \<open>Rewind\<close>

definition delete_logs_above :: "int \<Rightarrow> tables \<Rightarrow> tables" where
  "delete_logs_above n t = t\<lparr>eth_logs := filter (\<lambda>r. \<not> (n < r_block_number r)) (eth_logs t)\<rparr>"

definition delete_blocks_above :: "int \<Rightarrow> tables \<Rightarrow> tables" where
  "delete_blocks_above n t = t\<lparr>eth_blocks := filter (\<lambda>b. \<not> (n < b_number b)) (eth_blocks t)\<rparr>"

definition Rewind :: "u64 \<Rightarrow> (pg, err, unit) step" where
  "Rewind to = in_tx (andThen readCoverage (\<lambda>cov.
     case cov of
       None \<Rightarrow> throw (ErrNew (''rewind to '' @ show_u64 to @ '': cursor is not above it (nothing to rewind)''))
     | Some c \<Rightarrow>
         if covHead c \<le> to
         then throw (ErrNew (''rewind to '' @ show_u64 to @ '': cursor is not above it (nothing to rewind)''))
         else if to < covStart c
         then throw (Wrapf '''' (Sentinel ErrCoverageGap)
                ('': rewind to '' @ show_u64 to @ '' is below the coverage start '' @ show_u64 (covStart c)))
         else
         andThen (onErr (\<lambda>e. Wrapf (''delete logs above '' @ show_u64 to @ '': '') e '''')
                   (update (delete_logs_above (int64 to)))) (\<lambda>_.
         andThen (onErr (\<lambda>e. Wrapf (''delete blocks above '' @ show_u64 to @ '': '') e '''')
                   (update (delete_blocks_above (int64 to)))) (\<lambda>_.
         setCoverage \<lparr>covStart = covStart c, covHead = to\<rparr>))))"

section \<open>Maintenance flag and stored hashes\<close>

definition show_bool :: "bool \<Rightarrow> string" where
  "show_bool b = (if b then ''true'' else ''false'')"

definition SetMaintenance :: "bool \<Rightarrow> string \<Rightarrow> (pg, err, unit) step" where
  "SetMaintenance on reason =
     onErr (\<lambda>e. Wrapf (''set maintenance='' @ show_bool on @ '': '') e '''')
       (update (\<lambda>t. t\<lparr>maintenance := on, maintenance_reason := reason\<rparr>))"

definition Maintenance :: "(pg, err, bool \<times> string) step" where
  "Maintenance =
     onErr (\<lambda>e. Wrapf ''read maintenance flag: '' e '''')
       (query (\<lambda>t. (maintenance t, maintenance_reason t)))"

definition StoredBlockHash :: "u64 \<Rightarrow> (pg, err, hash option) step" where
  "StoredBlockHash n =
     onErr (\<lambda>e. Wrapf (''stored block hash '' @ show_u64 n @ '': '') e '''')
       (query (\<lambda>t. map_option (\<lambda>b. BytesToHash (b_hash b)) (find (\<lambda>b. b_number b = int64 n) (eth_blocks t))))"

end
