(* ===== verification/StoreFacts.thy ===== *)
theory StoreFacts
  imports Store
begin

text \<open>
  What the operations of the store guarantee. \<open>warehouse_ok\<close> is the invariant of the tables:
  unique keys, rows that decode, every row in a partition, and a block row for every height
  of the published coverage. It is kept by every write under every fault, and each write is
  all or nothing.
\<close>

section \<open>Statements and transactions\<close>

definition healthy :: "pg \<Rightarrow> bool" where
  "healthy s \<longleftrightarrow> faults s = (\<lambda>_. None)"

lemma triple_exec:
  assumes "\<And>t x t'. P t \<Longrightarrow> f t = Inr (x, t') \<Longrightarrow> Q x t'"
  shows "triple (\<lambda>s. P (tab s)) (exec f) (\<lambda>x s. Q x (tab s)) (\<lambda>_ _. True)"
  using assms
  by (auto simp: triple_def exec_def Let_def split: sum.splits option.splits fault.splits)

lemma triple_exec_ok:
  assumes "\<And>t. P t \<Longrightarrow> \<exists>x t'. f t = Inr (x, t') \<and> Q x t'"
  shows "triple (\<lambda>s. P (tab s)) (exec f) (\<lambda>x s. Q x (tab s)) (\<lambda>_ s. \<not> healthy s)"
  using assms
  by (fastforce simp: triple_def exec_def Let_def healthy_def
      split: sum.splits option.splits fault.splits)

lemma triple_query:
  assumes "\<And>t. P t \<Longrightarrow> Q (f t) t"
  shows "triple (\<lambda>s. P (tab s)) (query f) (\<lambda>x s. Q x (tab s)) (\<lambda>_ s. \<not> healthy s)"
  unfolding query_def by (rule triple_exec_ok) (use assms in auto)

lemma triple_update:
  assumes "\<And>t. P t \<Longrightarrow> Q () (f t)"
  shows "triple (\<lambda>s. P (tab s)) (update f) (\<lambda>x s. Q x (tab s)) (\<lambda>_ s. \<not> healthy s)"
  unfolding update_def by (rule triple_exec_ok) (use assms in auto)

text \<open>A transaction: on an error the tables are as before, or as committed when only the reply was lost.\<close>

lemma in_tx_cases:
  assumes "in_tx body s = (r, t)"
  obtains (failed) e where "r = Inl e" "tab t = tab s"
  | (finished) s1 x s2 where "tab s1 = tab s" "body s1 = (Inr x, s2)" "tab t = tab s2" "r = Inr x \<or> (\<exists>e. r = Inl e)"
proof -
  obtain b s1 where opened: "exec (\<lambda>t. Inr ((), t)) s = (b, s1)" by fastforce
  then have s1: "tab s1 = tab s"
    by (auto simp: exec_def Let_def split: option.splits fault.splits)
  obtain r2 s2 where body: "body s1 = (r2, s2)" by fastforce
  show ?thesis
  proof (cases b)
    case (Inl e)
    then show ?thesis using assms opened s1 failed by (auto simp: in_tx_def)
  next
    case (Inr u)
    show ?thesis
    proof (cases r2)
      case (Inl e)
      then show ?thesis
        using assms opened body \<open>b = Inr u\<close> failed by (auto simp: in_tx_def rollback_def)
    next
      case (Inr x)
      then have "commit (tab s) x s2 = (r, t)"
        using assms opened body \<open>b = Inr u\<close> by (simp add: in_tx_def)
      then show ?thesis
        using s1 body Inr failed finished
        by (auto simp: commit_def Let_def split: option.splits fault.splits)
    qed
  qed
qed

lemma triple_in_tx:
  assumes "triple (\<lambda>s. P (tab s)) body (\<lambda>x s. Q x (tab s)) (\<lambda>_ _. True)"
  shows "triple (\<lambda>s. P (tab s)) (in_tx body) (\<lambda>x s. Q x (tab s)) (\<lambda>_ s. P (tab s) \<or> (\<exists>x. Q x (tab s)))"
proof (rule tripleI)
  fix s x t assume P: "P (tab s)" and run: "in_tx body s = (Inr x, t)"
  from run show "Q x (tab t)"
  proof (rule in_tx_cases)
    fix s1 y s2
    assume "tab s1 = tab s" "body s1 = (Inr y, s2)" "tab t = tab s2" "Inr x = Inr y \<or> (\<exists>e. Inr x = Inl e)"
    then show ?thesis using P triple_value [OF assms, of s1 x s2] by simp
  qed simp
next
  fix s e t assume P: "P (tab s)" and run: "in_tx body s = (Inl e, t)"
  from run show "P (tab t) \<or> (\<exists>x. Q x (tab t))"
  proof (rule in_tx_cases)
    fix s1 y s2
    assume "tab s1 = tab s" "body s1 = (Inr y, s2)" "tab t = tab s2"
    then show ?thesis using P triple_value [OF assms, of s1 y s2] by auto
  qed (use P in simp)
qed

lemma triple_in_tx_ok:
  assumes "triple (\<lambda>s. P (tab s)) body (\<lambda>x s. Q x (tab s)) (\<lambda>_ s. \<not> healthy s)"
    and frame: "\<And>s r t. body s = (r, t) \<Longrightarrow> faults t = faults s"
    and "P (tab s)" and "healthy s"
  shows "\<exists>x t. in_tx body s = (Inr x, t) \<and> Q x (tab t)"
proof -
  let ?s1 = "s\<lparr>tick := Suc (tick s)\<rparr>"
  obtain r s2 where body: "body ?s1 = (r, s2)" by fastforce
  then have h: "faults s2 = (\<lambda>_. None)"
    using frame [OF body] assms(4) by (simp add: healthy_def)
  have "P (tab ?s1)" using assms(3) by simp
  then obtain x where "r = Inr x" and "Q x (tab s2)"
    using body h triple_value [OF assms(1), of ?s1] triple_error [OF assms(1), of ?s1]
    by (cases r) (auto simp: healthy_def)
  then show ?thesis
    using body h assms(4) by (auto simp: in_tx_def exec_def commit_def healthy_def Let_def)
qed

text \<open>The tables a failed transaction leaves are exactly the old ones or exactly the committed ones.\<close>

lemma in_tx_atomic:
  assumes "in_tx body s = (r, t)"
    and "triple (\<lambda>u. tab u = tab s) body (\<lambda>x u. Q x (tab u)) (\<lambda>_ _. True)"
  shows "case r of Inr x \<Rightarrow> Q x (tab t) | Inl e \<Rightarrow> tab t = tab s \<or> (\<exists>x. Q x (tab t))"
  using triple_in_tx [where P = "\<lambda>u. u = tab s", OF assms(2)] assms(1)
  by (auto simp: triple_def split: sum.splits)

text \<open>No step of the store changes the fault schedule or the locks.\<close>

definition framed :: "(pg, err, 'a) step \<Rightarrow> bool" where
  "framed m \<longleftrightarrow> (\<forall>s r t. m s = (r, t) \<longrightarrow>
     faults t = faults s \<and> writer_locked t = writer_locked s \<and> maintenance_locked t = maintenance_locked s)"

named_theorems framed_rules \<open>steps that leave faults and locks alone\<close>

lemma framed_faults: "framed m \<Longrightarrow> m s = (r, t) \<Longrightarrow> faults t = faults s"
  by (auto simp: framed_def)

lemma framed_ret [framed_rules]: "framed (ret x)" and framed_throw [framed_rules]: "framed (throw e)"
  by (simp_all add: framed_def step_simps)

lemma framed_andThen [framed_rules]:
  "framed m \<Longrightarrow> (\<And>x. framed (f x)) \<Longrightarrow> framed (andThen m f)"
  unfolding framed_def andThen_def by (fastforce split: prod.splits sum.splits)

lemma framed_onErr [framed_rules]: "framed m \<Longrightarrow> framed (onErr g m)"
  unfolding framed_def onErr_def by (fastforce split: prod.splits sum.splits)

lemma framed_exec [framed_rules]: "framed (exec f)"
  by (auto simp: framed_def exec_def Let_def split: option.splits fault.splits sum.splits)

lemma framed_query [framed_rules]: "framed (query f)" and framed_update [framed_rules]: "framed (update g)"
  by (simp_all add: query_def update_def framed_exec)

lemma framed_if [framed_rules]: "framed m \<Longrightarrow> framed m' \<Longrightarrow> framed (if b then m else m')"
  by simp

lemma framed_option [framed_rules]:
  "framed m \<Longrightarrow> (\<And>x. framed (f x)) \<Longrightarrow> framed (case z of None \<Rightarrow> m | Some x \<Rightarrow> f x)"
  by (cases z) auto

lemma framed_for_up [framed_rules]: "(\<And>i. framed (body i)) \<Longrightarrow> framed (for_up dv fuel k i to body)"
  by (induction fuel arbitrary: i) (auto intro!: framed_rules)

lemma framed_bracket:
  fixes m :: "(pg, err, 'a) step"
  assumes "framed m"
  shows "framed (\<lambda>s. case exec (\<lambda>t. Inr ((), t)) s of
        (Inl e, s1) \<Rightarrow> (Inl (f e), s1)
      | (Inr _, s1) \<Rightarrow>
          (case m s1 of
             (Inl e, s2) \<Rightarrow> (Inl e, rollback (tab s) s2)
           | (Inr x, s2) \<Rightarrow> commit (tab s) x s2))" (is "framed ?tx")
  unfolding framed_def
proof (intro allI impI)
  fix s r t assume run: "?tx s = (r, t)"
  obtain o1 s1 where opened: "exec (\<lambda>t. Inr ((), t)) s = (o1, s1)" by fastforce
  obtain r2 s2 where body: "m s1 = (r2, s2)" by fastforce
  have f1: "faults s1 = faults s \<and> writer_locked s1 = writer_locked s \<and> maintenance_locked s1 = maintenance_locked s"
    using framed_exec opened unfolding framed_def by blast
  have f2: "faults s2 = faults s1 \<and> writer_locked s2 = writer_locked s1 \<and> maintenance_locked s2 = maintenance_locked s1"
    using assms body unfolding framed_def by blast
  show "faults t = faults s \<and> writer_locked t = writer_locked s \<and> maintenance_locked t = maintenance_locked s"
  proof (cases o1)
    case (Inl e)
    then show ?thesis using run opened f1 by auto
  next
    case (Inr u)
    then show ?thesis
      using run opened body f1 f2
      by (cases r2) (auto simp: rollback_def commit_def Let_def split: option.splits fault.splits)
  qed
qed

lemma framed_in_tx [framed_rules]: "framed m \<Longrightarrow> framed (in_tx m)"
  using framed_bracket [where m = m and f = "\<lambda>e. e"] by (simp add: in_tx_def [abs_def])

lemma framed_ensurePartitions [framed_rules]: "framed (ensurePartitions from to)"
  by (auto simp: ensurePartitions_def ensure_partition_def Let_def intro!: framed_rules)

lemma framed_readCoverage [framed_rules]: "framed readCoverage"
  and framed_setCoverage [framed_rules]: "framed (setCoverage c)"
  and framed_copyBlocks [framed_rules]: "framed (copyBlocks blocks)"
  and framed_copyLogs [framed_rules]: "framed (copyLogs logs)"
  and framed_StoredBlockHash [framed_rules]: "framed (StoredBlockHash n)"
  and framed_SetMaintenance [framed_rules]: "framed (SetMaintenance b why)"
  by (auto simp: readCoverage_def setCoverage_def copyBlocks_def copyLogs_def StoredBlockHash_def
      SetMaintenance_def intro!: framed_rules)

lemma framed_write_range_body [framed_rules]: "framed (write_range_body from to blocks logs)"
  by (auto simp: write_range_body_def intro!: framed_rules)

section \<open>Partitions\<close>

abbreviation pblocks :: nat where
  "pblocks \<equiv> 1000000"

definition bucket :: "u64 \<Rightarrow> nat" where
  "bucket n = unat n div pblocks"

text \<open>The heights the model's partitions are made for; mainnet is at 2.6e7.\<close>

definition plausible :: "u64 \<Rightarrow> bool" where
  "plausible n \<longleftrightarrow> n < 0x4000000000000000"

lemma plausible_nat: "plausible n \<longleftrightarrow> unat n < 2 ^ 62"
  by (simp add: plausible_def word_less_nat_alt)

lemma plausible_fits: "plausible n \<Longrightarrow> fits_int64 n"
  by (simp add: plausible_nat fits_int64_nat)

lemma plausible_mono: "m \<le> n \<Longrightarrow> plausible n \<Longrightarrow> plausible m"
  by (auto simp: plausible_def)

lemma unat_PartitionBlocks [simp]: "unat PartitionBlocks = pblocks"
  by (simp add: PartitionBlocks_def)

lemma PartitionBlocks_pos [simp]: "0 < PartitionBlocks"
  by (simp add: PartitionBlocks_def)

lemma unat_bucket: "unat (n div PartitionBlocks) = bucket n"
  by (simp add: bucket_def unat_div PartitionBlocks_def)

lemma bucket_bounds: "bucket n * pblocks \<le> unat n" "unat n < bucket n * pblocks + pblocks"
  by (simp_all add: bucket_def)

lemma unat_bucket_start: "unat (n div PartitionBlocks * PartitionBlocks) = bucket n * pblocks"
proof -
  have "bucket n * pblocks < 2 ^ 64"
    using bucket_bounds(1) [of n] unat_less_u64 [of n] by simp
  moreover have "unat (n div PartitionBlocks * PartitionBlocks) =
    (unat (n div PartitionBlocks) * unat PartitionBlocks) mod 2 ^ 64"
    by (subst unat_word_ariths(2)) simp
  ultimately show ?thesis
    by (simp only: unat_bucket unat_PartitionBlocks mod_less)
qed

lemma PartitionDDL_plausible:
  assumes "plausible n"
  shows "PartitionDDL n =
    \<lparr>p_name = PartitionName n, p_from = int (bucket n * pblocks), p_to = int (bucket n * pblocks + pblocks)\<rparr>"
proof -
  let ?lo = "n div PartitionBlocks * PartitionBlocks"
  have "bucket n * pblocks + pblocks < 2 ^ 64"
    using bucket_bounds(1) [of n] assms by (simp add: plausible_nat)
  then have "unat (?lo + PartitionBlocks) = bucket n * pblocks + pblocks"
    by (subst unat_add_no_wrap) (simp_all add: unat_bucket_start)
  then show ?thesis
    by (simp add: PartitionDDL_def Let_def unat_bucket_start uint_nat del: of_nat_unat)
qed

lemma PartitionName_eq_iff: "PartitionName m = PartitionName n \<longleftrightarrow> bucket m = bucket n"
  by (simp add: PartitionName_def show_u64_def unat_bucket)

text \<open>
  \<open>partitions_ok\<close>: every partition is one of the million-block ranges, under its own name.
  Then a new partition never overlaps an old one, so \<open>ensurePartitions\<close> cannot be refused.
\<close>

definition partitions_ok :: "partition_def list \<Rightarrow> bool" where
  "partitions_ok ps \<longleftrightarrow> (\<forall>p \<in> set ps. \<exists>n. plausible n \<and> p = PartitionDDL n)"

definition has_partition :: "partition_def list \<Rightarrow> u64 \<Rightarrow> bool" where
  "has_partition ps n \<longleftrightarrow> PartitionName n \<in> p_name ` set ps"

lemma PartitionDDL_overlap:
  assumes "plausible m" "plausible n" "overlaps (PartitionDDL m) (PartitionDDL n)"
  shows "PartitionName m = PartitionName n"
proof -
  have "bucket m * pblocks < bucket n * pblocks + pblocks" "bucket n * pblocks < bucket m * pblocks + pblocks"
    using assms by (auto simp: overlaps_def PartitionDDL_plausible)
  then have "bucket m = bucket n" by linarith
  then show ?thesis by (simp add: PartitionName_eq_iff)
qed

lemma create_partition_ok:
  assumes "partitions_ok (partitions t)" and "plausible n"
  shows "\<exists>ps. create_partition (PartitionDDL n) t = Inr ((), t\<lparr>partitions := ps\<rparr>) \<and>
    partitions_ok ps \<and> set ps = insert (PartitionDDL n) (set (partitions t)) \<or>
    create_partition (PartitionDDL n) t = Inr ((), t) \<and> has_partition (partitions t) n"
proof (cases "has_partition (partitions t) n")
  case True
  then show ?thesis
    by (simp add: create_partition_def has_partition_def PartitionDDL_plausible [OF assms(2)])
next
  case False
  have "\<not> overlaps (PartitionDDL n) q" if q: "q \<in> set (partitions t)" for q
  proof
    assume "overlaps (PartitionDDL n) q"
    moreover obtain m where "plausible m" "q = PartitionDDL m"
      using q assms(1) by (meson partitions_ok_def)
    ultimately have "PartitionName n = p_name q"
      using PartitionDDL_overlap [OF assms(2)] by (auto simp: PartitionDDL_plausible)
    with q False show False by (auto simp: has_partition_def)
  qed
  moreover have "bucket n * pblocks + pblocks < 2 ^ 63"
    using bucket_bounds(1) [of n] assms(2) by (simp add: plausible_nat)
  then have "p_from (PartitionDDL n) < p_to (PartitionDDL n) \<and> p_to (PartitionDDL n) < 2 ^ 63"
    by (simp add: PartitionDDL_plausible [OF assms(2)])
  ultimately have "create_partition (PartitionDDL n) t = Inr ((), t\<lparr>partitions := partitions t @ [PartitionDDL n]\<rparr>)"
    using False by (auto simp: create_partition_def has_partition_def PartitionDDL_plausible [OF assms(2)])
  moreover have "partitions_ok (partitions t @ [PartitionDDL n])"
    using assms by (auto simp: partitions_ok_def)
  ultimately show ?thesis by auto
qed

lemma has_partition_routes:
  assumes "partitions_ok ps" "has_partition ps n" "plausible n"
  shows "\<exists>p \<in> set ps. p_from p \<le> int64 n \<and> int64 n < p_to p"
proof -
  obtain p m where p: "p \<in> set ps" "p_name p = PartitionName n" "plausible m" "p = PartitionDDL m"
    using assms(1,2) by (auto simp: has_partition_def partitions_ok_def)
  then have "bucket m = bucket n"
    by (simp add: PartitionDDL_plausible PartitionName_eq_iff)
  then have "p_from p = int (bucket n * pblocks)" "p_to p = int (bucket n * pblocks + pblocks)"
    using p(3,4) by (simp_all add: PartitionDDL_plausible)
  moreover have "int64 n = int (unat n)"
    using plausible_fits [OF assms(3)] by (rule int64_unat)
  ultimately have "p_from p \<le> int64 n \<and> int64 n < p_to p"
    using bucket_bounds [of n] by (simp only: of_nat_le_iff of_nat_less_iff)
  then show ?thesis using p(1) by blast
qed

lemma has_partition_mono: "has_partition ps n \<Longrightarrow> set ps \<subseteq> set qs \<Longrightarrow> has_partition qs n"
  by (auto simp: has_partition_def)

lemma has_partition_bucket: "has_partition ps m \<Longrightarrow> bucket m = bucket n \<Longrightarrow> has_partition ps n"
  using PartitionName_eq_iff [of m n] by (simp add: has_partition_def)

text \<open>The loop invariant of \<open>ensurePartitions\<close>: every million below the counter is done.\<close>

definition parts_done :: "tables \<Rightarrow> u64 \<Rightarrow> u64 \<Rightarrow> u64 \<Rightarrow> tables \<Rightarrow> bool" where
  "parts_done t0 from to i t \<longleftrightarrow>
     (\<exists>ps. t = t0\<lparr>partitions := ps\<rparr> \<and> partitions_ok ps \<and> set (partitions t0) \<subseteq> set ps \<and>
        unat i = bucket i * pblocks \<and>
        (\<forall>n. from \<le> n \<and> n \<le> to \<and> bucket n * pblocks < unat i \<longrightarrow> has_partition ps n))"

lemma parts_done_step:
  assumes I: "parts_done t0 from to i t" and ok: "partitions_ok (partitions t)"
    and "has_partition (partitions t') i" "partitions_ok (partitions t')"
    and t': "t' = t\<lparr>partitions := partitions t'\<rparr>" "set (partitions t) \<subseteq> set (partitions t')"
    and i: "i \<le> to" "plausible to"
  shows "parts_done t0 from to (i + PartitionBlocks) t'"
proof -
  have "unat i < 2 ^ 62"
    using i plausible_mono plausible_nat by blast
  then have next_i: "unat (i + PartitionBlocks) = unat i + pblocks"
    by (subst unat_add_no_wrap) simp_all
  have i_mult: "unat i = bucket i * pblocks"
    using I by (auto simp: parts_done_def)
  have "bucket (i + PartitionBlocks) = bucket i + 1"
    unfolding bucket_def next_i by simp
  then have mult: "unat (i + PartitionBlocks) = bucket (i + PartitionBlocks) * pblocks"
    using next_i i_mult by simp
  have "has_partition (partitions t') n"
    if n: "from \<le> n" "n \<le> to" "bucket n * pblocks < unat (i + PartitionBlocks)" for n
  proof (cases "bucket n = bucket i")
    case True
    then show ?thesis using assms(3) has_partition_bucket by metis
  next
    case False
    have "bucket n * pblocks < (bucket i + 1) * pblocks"
      using n(3) next_i i_mult by simp
    then have "bucket n * pblocks < unat i"
      using False i_mult by simp
    then show ?thesis
      using I n(1,2) t' has_partition_mono by (auto simp: parts_done_def)
  qed
  moreover have "t' = t0\<lparr>partitions := partitions t'\<rparr>"
    using t'(1) I by (auto simp: parts_done_def)
  moreover have "set (partitions t0) \<subseteq> set (partitions t')"
    using I t'(2) unfolding parts_done_def by fastforce
  ultimately show ?thesis
    using assms(4) mult unfolding parts_done_def by (intro exI [of _ "partitions t'"]) simp
qed

lemma ensure_partition_step:
  assumes i: "i \<le> to" and to: "plausible to"
  shows "triple (\<lambda>s. parts_done t0 from to i (tab s)) (ensure_partition i)
    (\<lambda>_ s. parts_done t0 from to (i + PartitionBlocks) (tab s)) (\<lambda>_ s. \<not> healthy s)"
proof -
  have pl: "plausible i" using i to by (rule plausible_mono)
  have pok: "partitions_ok (partitions t)" if "parts_done t0 from to i t" for t
    using that by (auto simp: parts_done_def)
  have here: "parts_done t0 from to (i + PartitionBlocks) t"
    if "parts_done t0 from to i t" "has_partition (partitions t) i" for t
    using parts_done_step [OF that(1) pok [OF that(1)] that(2)] pok [OF that(1)] i to by simp
  have made: "\<exists>x t'. create_partition (PartitionDDL i) t = Inr (x, t') \<and>
      parts_done t0 from to (i + PartitionBlocks) t'"
    if I: "parts_done t0 from to i t" for t
    using create_partition_ok [OF pok [OF I] pl]
  proof (elim exE disjE conjE)
    fix ps
    assume "create_partition (PartitionDDL i) t = Inr ((), t\<lparr>partitions := ps\<rparr>)" "partitions_ok ps"
      "set ps = insert (PartitionDDL i) (set (partitions t))"
    moreover from this have "has_partition ps i"
      by (simp add: has_partition_def PartitionDDL_plausible [OF pl])
    ultimately show ?thesis
      using parts_done_step [OF I pok [OF I], of "t\<lparr>partitions := ps\<rparr>"] i to by auto
  qed (use here [OF I] in auto)
  show ?thesis
    unfolding ensure_partition_def
    by (intro triple_andThen [where R = "\<lambda>ex s. parts_done t0 from to i (tab s) \<and> (ex \<longrightarrow> has_partition (partitions (tab s)) i)"]
        triple_if triple_onErr triple_query triple_ret
        triple_conseq [OF triple_exec_ok [where P = "parts_done t0 from to i", OF made]])
      (auto simp: here has_partition_def)
qed

lemma parts_done_start:
  assumes "partitions_ok (partitions t0)"
  shows "parts_done t0 from to (from div PartitionBlocks * PartitionBlocks) t0"
proof -
  let ?lo = "from div PartitionBlocks * PartitionBlocks"
  have "bucket ?lo = bucket from" by (simp add: bucket_def [of ?lo] unat_bucket_start)
  moreover have False if n: "from \<le> n" "bucket n * pblocks < bucket from * pblocks" for n
  proof -
    have "bucket from \<le> bucket n"
      using n(1) by (simp add: bucket_def div_le_mono word_le_nat_alt)
    with n(2) show False by simp
  qed
  ultimately show ?thesis
    using assms unat_bucket_start unfolding parts_done_def by (intro exI [of _ "partitions t0"]) auto
qed

definition parts_ready :: "tables \<Rightarrow> u64 \<Rightarrow> u64 \<Rightarrow> tables \<Rightarrow> bool" where
  "parts_ready t0 from to t \<longleftrightarrow>
     (\<exists>ps. t = t0\<lparr>partitions := ps\<rparr> \<and> partitions_ok ps \<and> set (partitions t0) \<subseteq> set ps \<and>
        (\<forall>n. from \<le> n \<and> n \<le> to \<longrightarrow> has_partition ps n))"

lemma parts_done_end:
  assumes "to < j" and "parts_done t0 from to j t"
  shows "parts_ready t0 from to t"
proof -
  have "bucket n * pblocks < unat j" if "n \<le> to" for n
  proof -
    have "unat n \<le> unat to" "unat to < unat j"
      using that \<open>to < j\<close> by (simp_all add: word_le_nat_alt word_less_nat_alt)
    with bucket_bounds(1) [of n] show ?thesis by linarith
  qed
  with assms(2) show ?thesis by (auto simp: parts_done_def parts_ready_def)
qed

lemma ensurePartitions_ok:
  assumes ok: "partitions_ok (partitions t0)" and to: "plausible to"
  shows "triple (\<lambda>s. tab s = t0) (ensurePartitions from to)
    (\<lambda>_ s. parts_ready t0 from to (tab s)) (\<lambda>_ s. \<not> healthy s)"
proof -
  let ?lo = "from div PartitionBlocks * PartitionBlocks"
  let ?I = "\<lambda>i s. parts_done t0 from to i (tab s)"
  have "triple (?I ?lo) (for_up Diverges (loop_fuel ?lo to) PartitionBlocks ?lo to ensure_partition)
      (\<lambda>_ s. \<exists>j. to < j \<and> ?I j s) (\<lambda>_ s. \<not> healthy s)"
    by (rule triple_for_up)
      (use to ensure_partition_step [OF _ to] in \<open>auto simp: plausible_nat loop_fuel_def\<close>)
  then show ?thesis
    unfolding ensurePartitions_def Let_def
    by (rule triple_conseq) (use parts_done_start [OF ok] parts_done_end in auto)
qed

section \<open>The invariant of the warehouse\<close>

text \<open>
  A log the tables can hold: one to four topics (the EVM emits no more; a log without
  topics is never kept) and indices that fit the \<open>integer\<close> columns.
\<close>

definition wf_log :: "log \<Rightarrow> bool" where
  "wf_log l \<longleftrightarrow> logTopics l \<noteq> [] \<and> length (logTopics l) \<le> 4 \<and> unat (logIndex l) < 2 ^ 31 \<and>
     unat (logTxIndex l) < 2 ^ 31 \<and> fits_int64 (logBlockNumber l)"

definition stored_log :: "log_row \<Rightarrow> bool" where
  "stored_log r \<longleftrightarrow> (\<exists>l. wf_log l \<and> r = LogRow l)"

definition stored_block :: "block_row \<Rightarrow> bool" where
  "stored_block b \<longleftrightarrow> (\<exists>k. fits_int64 (blkNumber k) \<and> b = BlockRow k)"

definition covered :: "tables \<Rightarrow> int \<Rightarrow> int \<Rightarrow> bool" where
  "covered t a h \<longleftrightarrow> {a..h} \<subseteq> b_number ` set (eth_blocks t)"

definition warehouse_ok :: "tables \<Rightarrow> bool" where
  "warehouse_ok t \<longleftrightarrow>
     distinct (map b_number (eth_blocks t)) \<and> distinct (map row_key (eth_logs t)) \<and>
     (\<forall>b \<in> set (eth_blocks t). stored_block b) \<and> (\<forall>r \<in> set (eth_logs t). stored_log r \<and> routed t r) \<and>
     partitions_ok (partitions t) \<and>
     (case ingest_cursor t of None \<Rightarrow> True
      | Some (a, h) \<Rightarrow> 0 \<le> a \<and> a \<le> h \<and> h < 2 ^ 63 \<and> covered t a h)"

text \<open>What a write needs: the heights of the range and no others, once each, and storable logs.\<close>

definition batch_ok :: "u64 \<Rightarrow> u64 \<Rightarrow> block list \<Rightarrow> log list \<Rightarrow> bool" where
  "batch_ok from to blocks logs \<longleftrightarrow>
     from \<le> to \<and> plausible to \<and> distinct (map blkNumber blocks) \<and> set (map blkNumber blocks) = {from..to} \<and>
     distinct (map log_key logs) \<and> (\<forall>l \<in> set logs. wf_log l) \<and> logsMatchBlocks logs blocks = None"

definition touches :: "coverage option \<Rightarrow> u64 \<Rightarrow> u64 \<Rightarrow> bool" where
  "touches cov from to \<longleftrightarrow> (case cov of Some c \<Rightarrow> \<not> (from > covHead c + 1 \<or> to + 1 < covStart c) | None \<Rightarrow> True)"

definition write_effect :: "u64 \<Rightarrow> u64 \<Rightarrow> block list \<Rightarrow> log list \<Rightarrow> tables \<Rightarrow> tables" where
  "write_effect from to blocks logs t =
     (let c = extended_coverage (coverage_of t) from to in
      t\<lparr>eth_logs := eth_logs (delete_logs_between (int64 from) (int64 to) t) @ map LogRow logs,
        eth_blocks := eth_blocks (delete_blocks_between (int64 from) (int64 to) t) @ map BlockRow blocks,
        ingest_cursor := Some (int64 (covStart c), int64 (covHead c))\<rparr>)"

definition write_committed :: "u64 \<Rightarrow> u64 \<Rightarrow> block list \<Rightarrow> log list \<Rightarrow> tables \<Rightarrow> tables \<Rightarrow> bool" where
  "write_committed from to blocks logs t0 t \<longleftrightarrow>
     touches (coverage_of t0) from to \<and>
     t\<lparr>partitions := partitions t0\<rparr> = write_effect from to blocks logs t0 \<and>
     set (partitions t0) \<subseteq> set (partitions t) \<and>
     set (partitions t) \<subseteq> set (partitions t0) \<union> PartitionDDL ` {..to} \<and>
     distinct (map b_number (eth_blocks t)) \<and>
     (logs = [] \<or> distinct (map row_key (eth_logs t))) \<and>
     (\<forall>l \<in> set logs. routed t (LogRow l) \<and> logTopics l \<noteq> []) \<and>
     (case ingest_cursor t of None \<Rightarrow> False | Some (a, h) \<Rightarrow> a \<le> h)"

section \<open>Rows\<close>

lemma int32_small: "unat w < 2 ^ 31 \<Longrightarrow> int32 w = int (unat w)"
proof -
  assume w: "unat w < 2 ^ 31"
  then have "unat (ucast w :: 32 word) = unat w"
    by (simp add: unsigned_ucast_eq take_bit_nat_eq_self)
  then have "uint (ucast w :: 32 word) = int (unat w)"
    by (simp add: uint_nat del: of_nat_unat)
  moreover have "signed_take_bit 31 (int (unat w)) = int (unat w)"
    using w by (intro signed_take_bit_int_eq_self) (simp_all del: of_nat_unat)
  ultimately show ?thesis
    by (simp add: int32_def sint_uint)
qed

lemma LogRow_simps [simp]:
  "r_block_number (LogRow l) = int64 (logBlockNumber l)" "r_log_index (LogRow l) = int32 (logIndex l)"
  "r_topic0 (LogRow l) = topic_at l 0" "r_data (LogRow l) \<noteq> None"
  by (auto simp: LogRow_def Let_def split: option.splits)

lemma BlockRow_simps [simp]:
  "b_number (BlockRow b) = int64 (blkNumber b)" "b_hash (BlockRow b) = hash_bytes (blkHash b)"
  by (simp_all add: BlockRow_def)

lemma row_key_LogRow: "wf_log l \<Longrightarrow> row_key (LogRow l) = (int64 (logBlockNumber l), int (unat (logIndex l)))"
  by (simp add: row_key_def wf_log_def int32_small del: of_nat_unat)

section \<open>What one write does\<close>



lemma triple_conj: "triple P m Q E \<Longrightarrow> triple P m Q' E' \<Longrightarrow> triple P m (\<lambda>x s. Q x s \<and> Q' x s) (\<lambda>e s. E e s \<and> E' e s)"
  unfolding triple_def by (fastforce split: sum.splits)

lemma triple_exec_or:
  assumes "\<And>t x t'. P t \<Longrightarrow> f t = Inr (x, t') \<Longrightarrow> Q x t'"
    and "\<And>t e. P t \<Longrightarrow> f t = Inl e \<Longrightarrow> \<not> H"
  shows "triple (\<lambda>s. P (tab s)) (exec f) (\<lambda>x s. Q x (tab s)) (\<lambda>_ s. H \<longrightarrow> \<not> healthy s)"
  unfolding triple_def exec_def Let_def healthy_def
  using assms by (fastforce split: sum.splits option.splits fault.splits)

text \<open>Only partitions are added, each one a million-block range of the heights up to \<open>to\<close>.\<close>

definition parts_grown :: "tables \<Rightarrow> u64 \<Rightarrow> tables \<Rightarrow> bool" where
  "parts_grown t0 to t \<longleftrightarrow> (\<exists>ps. t = t0\<lparr>partitions := ps\<rparr> \<and> set (partitions t0) \<subseteq> set ps \<and>
     set ps \<subseteq> set (partitions t0) \<union> PartitionDDL ` {..to})"

lemma parts_grown_refl: "parts_grown t to t"
  unfolding parts_grown_def by (intro exI [of _ "partitions t"]) simp

lemma create_partition_grows:
  "create_partition (PartitionDDL i) t = Inr (x, t') \<Longrightarrow> i \<le> to \<Longrightarrow> parts_grown t0 to t \<Longrightarrow> parts_grown t0 to t'"
  by (fastforce simp: create_partition_def parts_grown_def split: if_splits)

lemma ensurePartitions_grows:
  "triple (\<lambda>s. parts_grown t0 to (tab s)) (ensurePartitions from to) (\<lambda>_ s. parts_grown t0 to (tab s)) (\<lambda>_ _. True)"
proof -
  have "triple (\<lambda>s. parts_grown t0 to (tab s)) (ensure_partition i) (\<lambda>_ s. parts_grown t0 to (tab s)) (\<lambda>_ _. True)"
    if "i \<le> to" for i
    unfolding ensure_partition_def query_def
    by (intro triple_andThen [where R = "\<lambda>_ s. parts_grown t0 to (tab s)"] triple_if triple_onErr triple_ret triple_exec)
      (auto intro: create_partition_grows that)
  then show ?thesis
    unfolding ensurePartitions_def Let_def by (intro triple_for_up_inv) auto
qed

lemma ensurePartitions_both:
  assumes "H \<Longrightarrow> partitions_ok (partitions t0) \<and> plausible to"
  shows "triple (\<lambda>s. tab s = t0) (ensurePartitions from to)
    (\<lambda>_ s. parts_grown t0 to (tab s) \<and> (H \<longrightarrow> parts_ready t0 from to (tab s))) (\<lambda>_ s. H \<longrightarrow> \<not> healthy s)"
proof (cases H)
  case True
  have "triple (\<lambda>s. tab s = t0) (ensurePartitions from to) (\<lambda>_ s. parts_grown t0 to (tab s)) (\<lambda>_ _. True)"
    by (rule triple_conseq [OF ensurePartitions_grows [of t0 to "from"]]) (auto simp: parts_grown_refl)
  moreover have "triple (\<lambda>s. tab s = t0) (ensurePartitions from to)
      (\<lambda>_ s. parts_ready t0 from to (tab s)) (\<lambda>_ s. \<not> healthy s)"
    using True assms by (intro ensurePartitions_ok) auto
  ultimately show ?thesis
    using True by (auto dest: triple_conj)
next
  case False
  with parts_grown_refl [of t0 to] show ?thesis
    by (intro triple_conseq [OF ensurePartitions_grows [of t0 to "from"]]) auto
qed

text \<open>The tables after the two deletes, and the facts that let the copies and the cursor through.\<close>

definition cleared :: "u64 \<Rightarrow> u64 \<Rightarrow> tables \<Rightarrow> tables" where
  "cleared from to t = delete_blocks_between (int64 from) (int64 to) (delete_logs_between (int64 from) (int64 to) t)"

lemma cleared_simps [simp]:
  "partitions (cleared from to t) = partitions t"
  "ingest_cursor (cleared from to t) = ingest_cursor t"
  "b \<in> set (eth_blocks (cleared from to t)) \<longleftrightarrow>
     b \<in> set (eth_blocks t) \<and> \<not> (int64 from \<le> b_number b \<and> b_number b \<le> int64 to)"
  "r \<in> set (eth_logs (cleared from to t)) \<longleftrightarrow>
     r \<in> set (eth_logs t) \<and> \<not> (int64 from \<le> r_block_number r \<and> r_block_number r \<le> int64 to)"
  by (auto simp: cleared_def delete_blocks_between_def delete_logs_between_def)

lemma cleared_distinct:
  "distinct (map b_number (eth_blocks t)) \<Longrightarrow> distinct (map b_number (eth_blocks (cleared from to t)))"
  "distinct (map row_key (eth_logs t)) \<Longrightarrow> distinct (map row_key (eth_logs (cleared from to t)))"
  by (auto simp: cleared_def delete_blocks_between_def delete_logs_between_def distinct_map_filter)

lemma batch_heights:
  assumes "batch_ok from to blocks logs" and "b \<in> set blocks"
  shows "from \<le> blkNumber b \<and> blkNumber b \<le> to \<and> int64 from \<le> int64 (blkNumber b) \<and> int64 (blkNumber b) \<le> int64 to"
proof -
  have "from \<le> blkNumber b" "blkNumber b \<le> to"
    using assms by (auto simp: batch_ok_def)
  moreover have "fits_int64 to"
    using assms(1) by (simp add: batch_ok_def plausible_fits)
  ultimately show ?thesis
    using fits_int64_mono int64_le_iff by (metis order_trans)
qed

lemma logsMatch_known:
  "logsMatch known logs = None \<longleftrightarrow>
     (\<forall>l \<in> set logs. logBlockHash l \<noteq> 0 \<and> known (logBlockNumber l) = Some (logBlockHash l))"
  by (induction logs) (auto split: option.splits)

lemma hash_of_block_Some: "hash_of_block blocks n = Some h \<Longrightarrow> \<exists>b \<in> set blocks. blkNumber b = n \<and> blkHash b = h"
  unfolding hash_of_block_def by (drule map_of_SomeD) auto

lemma batch_log_block:
  assumes "logsMatchBlocks logs blocks = None" and "l \<in> set logs"
  shows "\<exists>b \<in> set blocks. blkNumber b = logBlockNumber l \<and> blkHash b = logBlockHash l"
  using assms hash_of_block_Some by (simp add: logsMatchBlocks_def logsMatch_known)

lemma new_blocks_distinct:
  assumes "warehouse_ok t" and b: "batch_ok from to blocks logs"
  shows "distinct (map b_number (eth_blocks (cleared from to t) @ map BlockRow blocks))"
proof -
  have "distinct (map (\<lambda>b. int64 (blkNumber b)) blocks)"
    using b by (auto simp: batch_ok_def distinct_map inj_on_def)
  moreover have "\<not> (\<exists>r \<in> set (eth_blocks (cleared from to t)). \<exists>b \<in> set blocks. b_number r = int64 (blkNumber b))"
    using batch_heights [OF b] by auto
  ultimately show ?thesis
    using assms(1) cleared_distinct(1) [of t "from" to] by (auto simp: warehouse_ok_def comp_def)
qed

lemma new_logs_distinct:
  assumes "warehouse_ok t" and b: "batch_ok from to blocks logs"
  shows "distinct (map row_key (eth_logs (cleared from to t) @ map LogRow logs))"
proof -
  have wf: "wf_log l" if "l \<in> set logs" for l using b that by (simp add: batch_ok_def)
  have within: "int64 from \<le> int64 (logBlockNumber l) \<and> int64 (logBlockNumber l) \<le> int64 to" if "l \<in> set logs" for l
    using batch_log_block [of logs blocks l] batch_heights [OF b] b that by (force simp: batch_ok_def)
  have "inj_on (\<lambda>l. row_key (LogRow l)) (set logs)"
    using b by (auto simp: inj_on_def row_key_LogRow wf batch_ok_def distinct_map log_key_def simp flip: word_uint_eq_iff)
  then have "distinct (map (\<lambda>l. row_key (LogRow l)) logs)"
    using b by (auto simp: batch_ok_def distinct_map)
  moreover have "row_key r \<noteq> row_key (LogRow l)"
    if "r \<in> set (eth_logs (cleared from to t))" "l \<in> set logs" for r l
    using that within [of l] by (auto simp: row_key_def)
  ultimately show ?thesis
    using assms(1) cleared_distinct(2) [of t "from" to] by (force simp: warehouse_ok_def comp_def)
qed

lemma copy_log_rows_Inr:
  "copy_log_rows (map LogRow logs) t = Inr (x, t') \<Longrightarrow>
     distinct (map row_key (eth_logs t')) \<and> t' = t\<lparr>eth_logs := eth_logs t @ map LogRow logs\<rparr> \<and>
     (\<forall>l \<in> set logs. routed t' (LogRow l) \<and> r_topic0 (LogRow l) \<noteq> None)"
  by (auto simp: copy_log_rows_def routed_def split: if_splits)

lemma cleared_partitions [simp]: "cleared from to (t\<lparr>partitions := ps\<rparr>) = (cleared from to t)\<lparr>partitions := ps\<rparr>"
  by (simp add: cleared_def delete_blocks_between_def delete_logs_between_def)

lemma new_logs_storable:
  assumes b: "batch_ok from to blocks logs" and parts: "parts_ready t0 from to t"
    and "partitions t' = partitions t" and l: "l \<in> set logs"
  shows "routed t' (LogRow l) \<and> r_topic0 (LogRow l) \<noteq> None"
proof -
  obtain k where "k \<in> set blocks" "blkNumber k = logBlockNumber l"
    using batch_log_block [of logs blocks l] b l by (auto simp: batch_ok_def)
  then have n: "from \<le> logBlockNumber l" "logBlockNumber l \<le> to"
    using batch_heights [OF b, of k] by simp_all
  moreover have "plausible (logBlockNumber l)"
    using n b plausible_mono by (auto simp: batch_ok_def)
  ultimately have "\<exists>p \<in> set (partitions t). p_from p \<le> int64 (logBlockNumber l) \<and> int64 (logBlockNumber l) < p_to p"
    using parts has_partition_routes by (fastforce simp: parts_ready_def)
  moreover have "logTopics l \<noteq> []"
    using b l by (simp add: batch_ok_def wf_log_def)
  ultimately show ?thesis
    using assms(3) by (auto simp: routed_def topic_at_def)
qed

text \<open>A batch the warehouse takes: well formed, and touching the published interval.\<close>

definition write_ready :: "u64 \<Rightarrow> u64 \<Rightarrow> block list \<Rightarrow> log list \<Rightarrow> tables \<Rightarrow> bool" where
  "write_ready from to blocks logs t0 \<longleftrightarrow>
     warehouse_ok t0 \<and> batch_ok from to blocks logs \<and> touches (coverage_of t0) from to"

lemma copy_log_rows_accepts:
  assumes "write_ready from to blocks logs t0" and "parts_ready t0 from to t1"
    and t: "t = cleared from to t1\<lparr>eth_blocks := bs\<rparr>"
  shows "copy_log_rows (map LogRow logs) t \<noteq> Inl e"
proof -
  have b: "batch_ok from to blocks logs" and ok: "warehouse_ok t0"
    using assms(1) by (simp_all add: write_ready_def)
  have "\<forall>l \<in> set logs. routed t (LogRow l) \<and> r_topic0 (LogRow l) \<noteq> None"
    using new_logs_storable [OF b assms(2), of t] t by simp
  moreover have "eth_logs t = eth_logs (cleared from to t0)"
    using assms(2) t by (auto simp: parts_ready_def)
  with new_logs_distinct [OF ok b] have "distinct (map row_key (eth_logs t @ map LogRow logs))"
    by simp
  ultimately show ?thesis
    by (auto simp: copy_log_rows_def simp del: map_append)
qed

lemma coverage_of_Some:
  assumes "warehouse_ok t" "coverage_of t = Some c"
  shows "fits_int64 (covHead c)" "covStart c \<le> covHead c" "ingest_cursor t = Some (int64 (covStart c), int64 (covHead c))"
proof -
  obtain a h where "ingest_cursor t = Some (a, h)" "c = \<lparr>covStart = uint64 a, covHead = uint64 h\<rparr>"
    using assms(2) by (auto simp: coverage_of_def split: option.splits)
  moreover from this have "0 \<le> a" "a \<le> h" "h < 2 ^ 63"
    using assms(1) by (auto simp: warehouse_ok_def)
  moreover from this have "int64 (uint64 a) = a" "int64 (uint64 h) = h"
    by (simp_all add: int64_uint64)
  moreover from calculation have "fits_int64 (uint64 a)" "fits_int64 (uint64 h)"
    by (simp_all add: fits_uint64)
  ultimately show "fits_int64 (covHead c)" "covStart c \<le> covHead c"
    "ingest_cursor t = Some (int64 (covStart c), int64 (covHead c))"
    by (simp_all flip: int64_le_iff)
qed

lemma extended_coverage_ordered:
  assumes "warehouse_ok t" "from \<le> to" "plausible to"
  shows "int64 (covStart (extended_coverage (coverage_of t) from to)) \<le>
    int64 (covHead (extended_coverage (coverage_of t) from to))"
proof -
  let ?c = "extended_coverage (coverage_of t) from to"
  have "fits_int64 (covHead ?c) \<and> covStart ?c \<le> covHead ?c"
  proof (cases "coverage_of t")
    case None
    then show ?thesis using assms plausible_fits by (simp add: extended_coverage_def)
  next
    case (Some c)
    then show ?thesis
      using assms coverage_of_Some [OF assms(1) Some] plausible_fits
      by (auto simp: extended_coverage_def max_def min_def)
  qed
  then show ?thesis
    using fits_int64_mono int64_le_iff by metis
qed

lemma write_range_body_triple:
  fixes "from" to blocks logs t0
  defines "H \<equiv> write_ready from to blocks logs t0"
    and "c \<equiv> extended_coverage (coverage_of t0) from to"
  shows "triple (\<lambda>s. tab s = t0) (write_range_body from to blocks logs)
    (\<lambda>_ s. write_committed from to blocks logs t0 (tab s)) (\<lambda>_ s. H \<longrightarrow> \<not> healthy s)"
proof -
  let ?P1 = "\<lambda>t. touches (coverage_of t0) from to \<and> parts_grown t0 to t \<and> (H \<longrightarrow> parts_ready t0 from to t)"
  let ?del = "delete_logs_between (int64 from) (int64 to)"
  let ?P2 = "\<lambda>t. \<exists>t1. ?P1 t1 \<and> t = ?del t1"
  let ?P3 = "\<lambda>t. \<exists>t1. ?P1 t1 \<and> t = cleared from to t1"
  let ?P4 = "\<lambda>t. \<exists>t1. ?P3 t1 \<and> distinct (map b_number (eth_blocks t)) \<and>
    t = t1\<lparr>eth_blocks := eth_blocks t1 @ map BlockRow blocks\<rparr>"
  let ?P5 = "\<lambda>t. \<exists>t1. ?P4 t1 \<and> (logs = [] \<or> distinct (map row_key (eth_logs t))) \<and>
    t = t1\<lparr>eth_logs := eth_logs t1 @ map LogRow logs\<rparr> \<and>
    (\<forall>l \<in> set logs. routed t (LogRow l) \<and> r_topic0 (LogRow l) \<noteq> None)"
  have ordered: "H \<Longrightarrow> int64 (covStart c) \<le> int64 (covHead c)"
    unfolding H_def write_ready_def c_def by (rule extended_coverage_ordered) (auto simp: batch_ok_def)
  have ens: "triple (\<lambda>s. tab s = t0 \<and> touches (coverage_of t0) from to) (ensurePartitions from to)
      (\<lambda>_ s. ?P1 (tab s)) (\<lambda>_ s. H \<longrightarrow> \<not> healthy s)"
  proof (cases "touches (coverage_of t0) from to")
    case True
    then show ?thesis
      by (intro triple_conseq [OF ensurePartitions_both [of H t0 to "from"]])
        (auto simp: H_def write_ready_def warehouse_ok_def batch_ok_def)
  qed (simp add: triple_def)
  have blk: "triple (\<lambda>s. ?P3 (tab s)) (copyBlocks blocks) (\<lambda>_ s. ?P4 (tab s)) (\<lambda>_ s. H \<longrightarrow> \<not> healthy s)"
    unfolding copyBlocks_def
  proof (intro triple_onErr triple_exec_or)
    fix t x t' assume "?P3 t" "copy_block_rows (map BlockRow blocks) t = Inr (x, t')"
    then show "?P4 t'" by (auto simp: copy_block_rows_def split: if_splits)
  next
    fix t e assume "?P3 t" "copy_block_rows (map BlockRow blocks) t = Inl e"
    then show "\<not> H"
      using new_blocks_distinct [of t0 "from" to blocks logs]
      by (auto simp: copy_block_rows_def H_def write_ready_def parts_grown_def split: if_splits)
  qed
  have lgs: "triple (\<lambda>s. ?P4 (tab s)) (copyLogs logs) (\<lambda>_ s. ?P5 (tab s)) (\<lambda>_ s. H \<longrightarrow> \<not> healthy s)"
  proof (cases "logs = []")
    case True
    then show ?thesis by (auto simp: copyLogs_def intro!: triple_ret)
  next
    case False
    have "triple (\<lambda>s. ?P4 (tab s)) (exec (copy_log_rows (map LogRow logs))) (\<lambda>_ s. ?P5 (tab s)) (\<lambda>_ s. H \<longrightarrow> \<not> healthy s)"
    proof (rule triple_exec_or)
      fix t x t' assume "?P4 t" "copy_log_rows (map LogRow logs) t = Inr (x, t')"
      then show "?P5 t'"
        using copy_log_rows_Inr [of logs t x t'] by blast
    next
      fix t e assume "?P4 t" "copy_log_rows (map LogRow logs) t = Inl e"
      then show "\<not> H"
        using copy_log_rows_accepts [of "from" to blocks logs t0] unfolding H_def by blast
    qed
    with False show ?thesis by (simp add: copyLogs_def triple_onErr)
  qed
  have fin: "triple (\<lambda>s. ?P5 (tab s)) (setCoverage c)
      (\<lambda>_ s. write_committed from to blocks logs t0 (tab s)) (\<lambda>_ s. H \<longrightarrow> \<not> healthy s)"
    unfolding setCoverage_def
  proof (intro triple_onErr triple_exec_or)
    fix t x t'
    assume "?P5 t" "upsert_cursor (int64 (covStart c)) (int64 (covHead c)) t = Inr (x, t')"
    then show "write_committed from to blocks logs t0 t'"
      by (auto simp: upsert_cursor_def write_committed_def write_effect_def Let_def parts_grown_def cleared_def
          c_def delete_logs_between_def delete_blocks_between_def topic_at_def routed_def split: if_splits)
  qed (use ordered in \<open>auto simp: upsert_cursor_def split: if_splits\<close>)
  have upd: "triple (\<lambda>s. ?P1 (tab s)) (update ?del) (\<lambda>_ s. ?P2 (tab s)) (\<lambda>_ s. H \<longrightarrow> \<not> healthy s)"
    "triple (\<lambda>s. ?P2 (tab s)) (update (delete_blocks_between (int64 from) (int64 to)))
       (\<lambda>_ s. ?P3 (tab s)) (\<lambda>_ s. H \<longrightarrow> \<not> healthy s)"
    unfolding update_def by (rule triple_exec_or; auto simp: cleared_def)+
  have writes: "triple (\<lambda>s. tab s = t0 \<and> touches (coverage_of t0) from to)
      (andThen (ensurePartitions from to) (\<lambda>_.
       andThen (onErr f (update ?del)) (\<lambda>_.
       andThen (onErr g (update (delete_blocks_between (int64 from) (int64 to)))) (\<lambda>_.
       andThen (copyBlocks blocks) (\<lambda>_. andThen (copyLogs logs) (\<lambda>_. setCoverage c))))))
      (\<lambda>_ s. write_committed from to blocks logs t0 (tab s)) (\<lambda>_ s. H \<longrightarrow> \<not> healthy s)" for f g
    by (rule triple_andThen [OF ens] triple_andThen [OF triple_onErr] triple_andThen [OF blk]
        triple_andThen [OF lgs] upd fin)+
  have read: "triple (\<lambda>s. tab s = t0) readCoverage (\<lambda>cov s. cov = coverage_of t0 \<and> tab s = t0)
      (\<lambda>_ s. H \<longrightarrow> \<not> healthy s)"
    unfolding readCoverage_def
    by (rule triple_onErr, rule triple_conseq [OF triple_query
        [where P = "\<lambda>t. t = t0" and f = coverage_of and Q = "\<lambda>x t. x = coverage_of t0 \<and> t = t0"]]) simp_all
  show ?thesis
    unfolding write_range_body_def
  proof (rule triple_andThen [OF read], rule triple_if, goal_cases)
    case (1 cov)
    then show ?case
      by (intro triple_throw) (auto simp: H_def write_ready_def touches_def split: option.splits)
  next
    case (2 cov)
    show ?case
    proof (cases "cov = coverage_of t0")
      case True
      with 2 have "touches (coverage_of t0) from to" by (auto simp: touches_def split: option.splits)
      with True show ?thesis unfolding True c_def [symmetric] by (intro triple_conseq [OF writes]) auto
    qed (simp add: triple_def)
  qed
qed

end
