(* ===== verification/Warehouse.thy ===== *)
theory Warehouse
  imports StoreFacts
begin

text \<open>
  What the warehouse promises: the writer, rewind and coverage operations of \<open>store.go\<close> are
  all or nothing under every fault of the connection, keep the invariant \<open>warehouse_ok\<close>
  and succeed on a healthy connection.
\<close>

section \<open>The writer\<close>

lemma framed_WriteRange [framed_rules]: "framed (WriteRange from to blocks logs)"
  by (auto simp: WriteRange_def intro!: framed_rules)

lemma WriteRange_cases:
  assumes "WriteRange from to blocks logs s = (r, t)"
  obtains (refused) e where "r = Inl e" "t = s"
  | (ran) "in_tx (write_range_body from to blocks logs) s = (r, t)" "logsMatchBlocks logs blocks = None"
      "(of_nat (length blocks) :: u64) = to - from + 1"
  using assms by (auto simp: WriteRange_def throw_def split: if_splits option.splits)

lemma write_range_body_committed:
  "triple (\<lambda>s. tab s = t0) (write_range_body from to blocks logs)
     (\<lambda>_ s. write_committed from to blocks logs t0 (tab s)) (\<lambda>_ _. True)"
  by (rule triple_conseq [OF write_range_body_triple]) auto

definition all_or_nothing :: "(tables \<Rightarrow> bool) \<Rightarrow> pg \<Rightarrow> (err + 'a) \<times> pg \<Rightarrow> bool" where
  "all_or_nothing committed s res \<longleftrightarrow>
     (case res of (Inr _, t) \<Rightarrow> committed (tab t) | (Inl _, t) \<Rightarrow> tab t = tab s \<or> committed (tab t))"

lemma in_tx_all_or_nothing:
  assumes "triple (\<lambda>u. tab u = tab s) body (\<lambda>_ u. Q (tab u)) (\<lambda>_ _. True)"
  shows "all_or_nothing Q s (in_tx body s)"
proof -
  obtain r t where run: "in_tx body s = (r, t)" by fastforce
  from in_tx_atomic [OF run assms] run show ?thesis
    by (auto simp: all_or_nothing_def split: sum.splits)
qed

lemma WriteRange_commits:
  "all_or_nothing (write_committed from to blocks logs (tab s)) s (WriteRange from to blocks logs s)"
proof -
  obtain r t where run: "WriteRange from to blocks logs s = (r, t)" by fastforce
  then show ?thesis
  proof (rule WriteRange_cases)
    assume tx: "in_tx (write_range_body from to blocks logs) s = (r, t)"
    have "all_or_nothing (write_committed from to blocks logs (tab s)) s (in_tx (write_range_body from to blocks logs) s)"
      by (rule in_tx_all_or_nothing, rule write_range_body_committed)
    with run tx show ?thesis by simp
  qed (use run in \<open>simp add: all_or_nothing_def\<close>)
qed

text \<open>
  C8. \<open>WriteRange\<close> is all or nothing whatever the connection does: when it returns no error
  the tables are the committed ones, and when it returns an error they are untouched or (the
  reply to COMMIT was lost) exactly the committed ones. Committed means: the rows of the
  range replaced by the batch, everything outside it kept, the cursor the hull of the old
  coverage and the range, and the range touches the old coverage.
\<close>

theorem WriteRange_all_or_nothing:
  "all_or_nothing (write_committed from to blocks logs (tab s)) s (WriteRange from to blocks logs s)"
  by (rule WriteRange_commits)

lemma WriteRange_tables:
  assumes "WriteRange from to blocks logs s = (r, t)"
  shows "tab t = tab s \<or> write_committed from to blocks logs (tab s) (tab t) \<and> logsMatchBlocks logs blocks = None"
  using assms
proof (rule WriteRange_cases)
  assume tx: "in_tx (write_range_body from to blocks logs) s = (r, t)" and "logsMatchBlocks logs blocks = None"
  with in_tx_atomic [OF tx write_range_body_committed] show ?thesis
    by (auto split: sum.splits)
qed simp

section \<open>The invariant is kept\<close>

text \<open>A batch for a range: the heights of the range and no others, storable logs.\<close>

definition batch_covers :: "u64 \<Rightarrow> u64 \<Rightarrow> block list \<Rightarrow> log list \<Rightarrow> bool" where
  "batch_covers from to blocks logs \<longleftrightarrow>
     from \<le> to \<and> plausible to \<and> set (map blkNumber blocks) = {from..to} \<and> (\<forall>l \<in> set logs. wf_log l)"

lemma int64_interval:
  assumes "from \<le> to" "fits_int64 to"
  shows "int64 ` {from..to} = {int64 from..int64 to}"
proof -
  have f: "fits_int64 n" if "n \<le> to" for n using that assms(2) by (rule fits_int64_mono)
  have "i \<in> int64 ` {from..to}" if i: "int64 from \<le> i" "i \<le> int64 to" for i
  proof -
    have pos: "0 \<le> i" using i int64_nonneg [OF f [OF assms(1)]] by linarith
    have "i < 2 ^ 63" using i int64_unat [OF assms(2)] assms(2) by (simp add: fits_int64_nat del: of_nat_unat)
    with pos have "int64 (uint64 i) = i" "fits_int64 (uint64 i)"
      by (simp_all add: int64_uint64 fits_uint64)
    with i have "from \<le> uint64 i" "uint64 i \<le> to"
      using assms f by (simp_all flip: int64_le_iff)
    with \<open>int64 (uint64 i) = i\<close> show ?thesis by force
  qed
  with f show ?thesis by (auto simp: int64_le_iff assms)
qed

lemma int64_suc: "fits_int64 n \<Longrightarrow> n + 1 \<noteq> 0 \<and> uint (n + 1) = int64 n + 1"
  using unat_add_no_wrap [of n 1] by (auto simp: int64_unat fits_int64_nat uint_nat simp del: of_nat_unat)

lemma touches_int64:
  assumes "touches (Some c) from to" "fits_int64 (covHead c)" "fits_int64 to" "from \<le> to" "covStart c \<le> covHead c"
  shows "int64 from \<le> int64 (covHead c) + 1 \<and> int64 (covStart c) \<le> int64 to + 1"
proof -
  have "uint from \<le> uint (covHead c + 1) \<and> uint (covStart c) \<le> uint (to + 1)"
    using assms(1) by (simp add: touches_def not_less word_le_def)
  moreover have "fits_int64 from" "fits_int64 (covStart c)"
    using assms fits_int64_mono by blast+
  ultimately show ?thesis
    using int64_suc assms(2,3) by (simp add: int64_eq_uint)
qed

lemma covered_extend:
  assumes ok: "warehouse_ok t" and touch: "touches (coverage_of t) from to" and le: "from \<le> to" and pl: "plausible to"
    and c: "c = extended_coverage (coverage_of t) from to"
    and new: "b_number ` set (eth_blocks (cleared from to t)) \<union> int64 ` {from..to} \<subseteq> b_number ` set (eth_blocks t')"
  shows "0 \<le> int64 (covStart c) \<and> int64 (covHead c) < 2 ^ 63 \<and>
    covered t' (int64 (covStart c)) (int64 (covHead c))"
proof -
  have fto: "fits_int64 to" "fits_int64 from" using pl plausible_fits le fits_int64_mono by blast+
  have fresh: "i \<in> b_number ` set (eth_blocks t')" if "int64 from \<le> i" "i \<le> int64 to" for i
    using that new int64_interval [OF le fto(1)] by auto
  show ?thesis
  proof (cases "coverage_of t")
    case None
    then have "c = \<lparr>covStart = from, covHead = to\<rparr>" using c by (simp add: extended_coverage_def)
    then show ?thesis
      using fresh fto by (auto simp: covered_def int64_nonneg int64_unat fits_int64_nat simp del: of_nat_unat)
  next
    case (Some d)
    note d = coverage_of_Some [OF ok Some]
    have fd: "fits_int64 (covStart d)" using d(1,2) fits_int64_mono by blast
    have c_min: "int64 (covStart c) = min (int64 (covStart d)) (int64 from)"
      and c_max: "int64 (covHead c) = max (int64 (covHead d)) (int64 to)"
      using c Some d(1) fd fto by (auto simp: extended_coverage_def min_def max_def int64_le_iff)
    have near: "int64 from \<le> int64 (covHead d) + 1" "int64 (covStart d) \<le> int64 to + 1"
      using touches_int64 [of d "from" to] touch Some d fto le by auto
    have old: "covered t (int64 (covStart d)) (int64 (covHead d))"
      using ok d(3) by (simp add: warehouse_ok_def)
    have "i \<in> b_number ` set (eth_blocks t')" if i: "int64 (covStart c) \<le> i" "i \<le> int64 (covHead c)" for i
    proof (cases "int64 from \<le> i \<and> i \<le> int64 to")
      case False
      then have "int64 (covStart d) \<le> i" "i \<le> int64 (covHead d)"
        using i near c_min c_max by linarith+
      then have "i \<in> b_number ` set (eth_blocks (cleared from to t))"
        using old False unfolding covered_def by (fastforce simp: image_iff)
      then show ?thesis using new by blast
    qed (use fresh in simp)
    moreover have "int64 (covHead d) < 2 ^ 63" "int64 to < 2 ^ 63"
      using d(1) fto(1) by (simp_all add: int64_unat fits_int64_nat del: of_nat_unat)
    ultimately show ?thesis
      using c_min c_max fd fto by (auto simp: covered_def int64_nonneg)
  qed
qed

lemma write_committed_fields:
  assumes "write_committed from to blocks logs t0 t"
  defines "c \<equiv> extended_coverage (coverage_of t0) from to"
  shows "eth_blocks t = eth_blocks (cleared from to t0) @ map BlockRow blocks"
    and "eth_logs t = eth_logs (cleared from to t0) @ map LogRow logs"
    and "ingest_cursor t = Some (int64 (covStart c), int64 (covHead c))"
    and "coverage_of t = Some c"
    and "maintenance t = maintenance t0" "maintenance_reason t = maintenance_reason t0"
proof -
  have eq: "t\<lparr>partitions := partitions t0\<rparr> = write_effect from to blocks logs t0"
    using assms(1) by (simp add: write_committed_def)
  from arg_cong [OF eq, of eth_blocks] show "eth_blocks t = eth_blocks (cleared from to t0) @ map BlockRow blocks"
    by (simp add: write_effect_def Let_def cleared_def delete_blocks_between_def delete_logs_between_def)
  from arg_cong [OF eq, of eth_logs] show "eth_logs t = eth_logs (cleared from to t0) @ map LogRow logs"
    by (simp add: write_effect_def Let_def cleared_def delete_blocks_between_def delete_logs_between_def)
  from arg_cong [OF eq, of ingest_cursor]
  show cur: "ingest_cursor t = Some (int64 (covStart c), int64 (covHead c))"
    by (simp add: write_effect_def Let_def c_def)
  then show "coverage_of t = Some c" by (simp add: coverage_of_def)
  from arg_cong [OF eq, of maintenance] arg_cong [OF eq, of maintenance_reason]
  show "maintenance t = maintenance t0" "maintenance_reason t = maintenance_reason t0"
    by (simp_all add: write_effect_def Let_def)
qed

lemma routed_mono: "routed t r \<Longrightarrow> set (partitions t) \<subseteq> set (partitions t') \<Longrightarrow> routed t' r"
  by (auto simp: routed_def)

lemma partitions_ok_grow:
  assumes "partitions_ok ps" "plausible to" "set qs \<subseteq> set ps \<union> PartitionDDL ` {..to}"
  shows "partitions_ok qs"
  using assms plausible_mono unfolding partitions_ok_def by (auto dest!: subsetD)

lemma write_committed_ok:
  assumes ok: "warehouse_ok t0" and b: "batch_covers from to blocks logs" and w: "write_committed from to blocks logs t0 t"
  shows "warehouse_ok t"
proof -
  let ?c = "extended_coverage (coverage_of t0) from to"
  note f = write_committed_fields [OF w]
  have le: "from \<le> to" and pl: "plausible to" and hts: "blkNumber ` set blocks = {from..to}"
    using b by (simp_all add: batch_covers_def)
  have grow: "set (partitions t0) \<subseteq> set (partitions t)"
    using w by (simp add: write_committed_def)
  have "distinct (map row_key (eth_logs t))"
    using w ok cleared_distinct(2) by (cases "logs = []") (auto simp: write_committed_def f(2) warehouse_ok_def)
  moreover have "stored_block k" if "k \<in> set (eth_blocks t)" for k
  proof -
    have "stored_block (BlockRow x)" if "x \<in> set blocks" for x
      using that hts plausible_fits [OF pl] fits_int64_mono unfolding stored_block_def by fastforce
    then show ?thesis using that ok by (auto simp: f(1) warehouse_ok_def)
  qed
  moreover have "stored_log r \<and> routed t r" if "r \<in> set (eth_logs t)" for r
    using that b w ok routed_mono [OF _ grow]
    by (auto simp: f(2) write_committed_def batch_covers_def warehouse_ok_def stored_log_def)
  moreover have "partitions_ok (partitions t)"
    using partitions_ok_grow [of "partitions t0" to] ok pl w by (simp add: write_committed_def warehouse_ok_def)
  moreover have "b_number ` set (map BlockRow blocks) = int64 ` {from..to}"
    by (simp flip: hts add: image_image)
  then have "0 \<le> int64 (covStart ?c) \<and> int64 (covHead ?c) < 2 ^ 63 \<and> covered t (int64 (covStart ?c)) (int64 (covHead ?c))"
    using w by (intro covered_extend [OF ok _ le pl refl]) (auto simp: f(1) write_committed_def image_Un)
  moreover have "int64 (covStart ?c) \<le> int64 (covHead ?c)"
    using w by (simp add: write_committed_def f(3))
  ultimately show ?thesis
    using w by (simp add: warehouse_ok_def f(3) write_committed_def)
qed

text \<open>
  C12. \<open>WriteRange\<close> keeps the invariant of the warehouse under every fault: a batch with a
  block row for each height of its range leaves the keys unique, every row decodable and in
  a partition, and the published coverage backed by a block row at every height.
\<close>

theorem WriteRange_keeps_warehouse_ok:
  assumes "warehouse_ok (tab s)" and "batch_covers from to blocks logs"
  shows "warehouse_ok (tab (snd (WriteRange from to blocks logs s)))"
proof -
  obtain r t where run: "WriteRange from to blocks logs s = (r, t)" by fastforce
  from WriteRange_tables [OF run] write_committed_ok [OF assms] assms(1) run show ?thesis
    by auto
qed

section \<open>The writer succeeds\<close>

lemma card_heights: "from \<le> to \<Longrightarrow> card {from..to :: u64} = unat to - unat from + 1"
proof -
  assume le: "from \<le> to"
  have "unat ` {from..to} = {unat from..unat to}"
  proof (intro equalityI subsetI)
    fix n assume n: "n \<in> {unat from..unat to}"
    then have "n < 2 ^ 64" using unat_less_u64 [of to] by simp
    then have "unat (of_nat n :: u64) = n" by (simp add: unat_of_nat)
    with n show "n \<in> unat ` {from..to}"
      by (intro image_eqI [of _ _ "of_nat n"]) (auto simp: word_le_nat_alt)
  qed (auto simp: word_le_nat_alt)
  moreover have "inj_on unat {from..to}" by (rule inj_onI) (simp add: word_unat_eq_iff)
  ultimately have "card {from..to} = card {unat from..unat to}"
    using card_image by metis
  then show ?thesis using le by (simp add: word_le_nat_alt)
qed

lemma batch_ok_count:
  assumes "batch_ok from to blocks logs"
  shows "(of_nat (length blocks) :: u64) = to - from + 1"
proof -
  have le: "from \<le> to" using assms by (simp add: batch_ok_def)
  have "length blocks = card (set (map blkNumber blocks))"
    using assms by (metis batch_ok_def distinct_card length_map)
  then have "length blocks = unat (to - from) + 1"
    using assms le card_heights by (simp add: batch_ok_def unat_sub)
  then show ?thesis by simp
qed

text \<open>
  C13. On a healthy connection \<open>WriteRange\<close> returns no error for a well-formed batch that
  touches the coverage, so ingestion is never stuck on a good batch: the partitions it needs
  are created, the copies violate no key, and the batch is committed.
\<close>

theorem WriteRange_succeeds:
  assumes "healthy s" and "write_ready from to blocks logs (tab s)"
  shows "\<exists>t. WriteRange from to blocks logs s = (Inr (), t) \<and> write_committed from to blocks logs (tab s) (tab t)"
proof -
  have b: "batch_ok from to blocks logs" using assms(2) by (simp add: write_ready_def)
  have "\<exists>x t. in_tx (write_range_body from to blocks logs) s = (Inr x, t) \<and>
      write_committed from to blocks logs (tab s) (tab t)"
  proof (rule triple_in_tx_ok [where P = "\<lambda>t. t = tab s"])
    show "triple (\<lambda>u. tab u = tab s) (write_range_body from to blocks logs)
        (\<lambda>_ u. write_committed from to blocks logs (tab s) (tab u)) (\<lambda>_ u. \<not> healthy u)"
      by (rule triple_conseq [OF write_range_body_triple]) (use assms(2) in auto)
  qed (use assms(1) framed_faults [OF framed_write_range_body] in auto)
  then show ?thesis
    using b batch_ok_count [OF b] by (simp add: WriteRange_def batch_ok_def)
qed

section \<open>What a successful write stores\<close>

text \<open>
  C34. After \<open>WriteRange\<close> returns without error every log of the batch is stored next to a
  block row of its height that carries the block hash the log itself carried: a log is never
  served under the metadata of another block.
\<close>

theorem WriteRange_stores_under_own_block:
  assumes "WriteRange from to blocks logs s = (Inr (), t)" and "l \<in> set logs"
  shows "LogRow l \<in> set (eth_logs (tab t)) \<and>
    (\<exists>b \<in> set (eth_blocks (tab t)). b_number b = int64 (logBlockNumber l) \<and> b_hash b = hash_bytes (logBlockHash l)) \<and>
    distinct (map b_number (eth_blocks (tab t)))"
  using assms(1)
proof (rule WriteRange_cases)
  assume tx: "in_tx (write_range_body from to blocks logs) s = (Inr (), t)" and m: "logsMatchBlocks logs blocks = None"
  have w: "write_committed from to blocks logs (tab s) (tab t)"
    using in_tx_atomic [OF tx write_range_body_committed] by simp
  obtain k where "k \<in> set blocks" "blkNumber k = logBlockNumber l" "blkHash k = logBlockHash l"
    using batch_log_block [OF m assms(2)] by blast
  then have "BlockRow k \<in> set (eth_blocks (tab t))" "b_number (BlockRow k) = int64 (logBlockNumber l)"
    "b_hash (BlockRow k) = hash_bytes (logBlockHash l)"
    by (simp_all add: write_committed_fields [OF w])
  moreover have "LogRow l \<in> set (eth_logs (tab t))"
    using assms(2) by (simp add: write_committed_fields [OF w])
  ultimately show ?thesis
    using w unfolding write_committed_def by blast
qed simp

text \<open>
  A batch that does not touch the published coverage is refused with
  \<open>ErrCoverageGap\<close> (on a healthy connection) and leaves the tables as they were: the
  coverage never becomes an interval with a hole.
\<close>

theorem WriteRange_refuses_gap:
  assumes "healthy s" and "coverage_of (tab s) = Some c" and "from > covHead c + 1 \<or> to + 1 < covStart c"
    and "(of_nat (length blocks) :: u64) = to - from + 1" and "logsMatchBlocks logs blocks = None"
  shows "\<exists>e t. WriteRange from to blocks logs s = (Inl e, t) \<and> errors_Is e ErrCoverageGap \<and> tab t = tab s"
  using assms
  by (simp add: WriteRange_def in_tx_def exec_def healthy_def write_range_body_def readCoverage_def query_def
      andThen_def onErr_def throw_def Let_def rollback_def)

lemma write_effect_idem:
  fixes t0 :: tables
  assumes b: "batch_ok from to blocks logs"
  defines "t \<equiv> write_effect from to blocks logs t0"
  shows "write_effect from to blocks logs (t\<lparr>partitions := ps\<rparr>) = t\<lparr>partitions := ps\<rparr>"
proof -
  have "int64 from \<le> int64 (blkNumber k) \<and> int64 (blkNumber k) \<le> int64 to" if "k \<in> set blocks" for k
    using batch_heights [OF b that] by simp
  moreover have "int64 from \<le> int64 (logBlockNumber l) \<and> int64 (logBlockNumber l) \<le> int64 to" if "l \<in> set logs" for l
  proof -
    obtain k where "k \<in> set blocks" "blkNumber k = logBlockNumber l"
      using batch_log_block [of logs blocks l] b \<open>l \<in> set logs\<close> by (auto simp: batch_ok_def)
    with batch_heights [OF b, of k] show ?thesis by simp
  qed
  moreover have "coverage_of (t\<lparr>partitions := ps\<rparr>) = Some (extended_coverage (coverage_of t0) from to)"
    by (simp add: t_def write_effect_def Let_def coverage_of_def)
  moreover have "extended_coverage (Some (extended_coverage cov from to)) from to = extended_coverage cov from to" for cov
    by (simp add: extended_coverage_def Let_def)
  ultimately show ?thesis
    by (simp add: t_def write_effect_def Let_def delete_blocks_between_def delete_logs_between_def filter_empty_conv)
qed

text \<open>
  Replays are idempotent: writing the same batch again (a restart re-fetches the range)
  commits tables that differ from the first write at most in the list of partitions.
\<close>

theorem WriteRange_replay:
  assumes "batch_ok from to blocks logs"
    and "WriteRange from to blocks logs s = (Inr (), t)" and "WriteRange from to blocks logs t = (Inr (), u)"
  shows "tab u = (tab t)\<lparr>partitions := partitions (tab u)\<rparr>"
proof -
  have "write_committed from to blocks logs (tab s) (tab t)" "write_committed from to blocks logs (tab t) (tab u)"
    using WriteRange_commits [of "from" to blocks logs s] WriteRange_commits [of "from" to blocks logs t]
      assms(2,3) by (simp_all add: all_or_nothing_def)
  then have t: "(tab t)\<lparr>partitions := partitions (tab s)\<rparr> = write_effect from to blocks logs (tab s)"
    and u: "(tab u)\<lparr>partitions := partitions (tab t)\<rparr> = write_effect from to blocks logs (tab t)"
    by (simp_all add: write_committed_def)
  have "tab t = (write_effect from to blocks logs (tab s))\<lparr>partitions := partitions (tab t)\<rparr>"
    by (simp flip: t)
  then have "write_effect from to blocks logs (tab t) = tab t"
    using write_effect_idem [OF assms(1)] by metis
  with u have "(tab u)\<lparr>partitions := partitions (tab t)\<rparr> = tab t" by simp
  from arg_cong [OF this, of "\<lambda>x. x\<lparr>partitions := partitions (tab u)\<rparr>"] show ?thesis by simp
qed

section \<open>Rewind\<close>

text \<open>
  What a rewind to \<open>to\<close> leaves, row by row: the log rows and the block rows up to \<open>to\<close>, in their
  order, the cursor with the same start and the head \<open>to\<close>, and every other table as it was.
\<close>

definition rewound :: "u64 \<Rightarrow> tables \<Rightarrow> tables \<Rightarrow> bool" where
  "rewound to t0 t \<longleftrightarrow> (\<exists>c. coverage_of t0 = Some c \<and> covStart c \<le> to \<and> to < covHead c \<and>
     t = t0\<lparr>eth_logs := filter (\<lambda>r. r_block_number r \<le> int64 to) (eth_logs t0),
            eth_blocks := filter (\<lambda>b. b_number b \<le> int64 to) (eth_blocks t0),
            ingest_cursor := Some (int64 (covStart c), int64 to)\<rparr>)"

text \<open>The two statements that delete leave exactly these rows.\<close>

lemma rewound_by_deletes:
  "rewound to t0 t \<longleftrightarrow> (\<exists>c. coverage_of t0 = Some c \<and> covStart c \<le> to \<and> to < covHead c \<and>
     t = (delete_blocks_above (int64 to) (delete_logs_above (int64 to) t0))
           \<lparr>ingest_cursor := Some (int64 (covStart c), int64 to)\<rparr>)"
  by (simp add: rewound_def delete_logs_above_def delete_blocks_above_def not_less)

lemma triple_statement:
  assumes "\<And>x t'. f t0 = Inr (x, t') \<Longrightarrow> Q x t'"
  shows "triple (\<lambda>s. tab s = t0) (onErr g (exec f)) (\<lambda>x s. Q x (tab s)) (\<lambda>_ _. True)"
  by (rule triple_onErr, rule triple_conseq [OF triple_exec [where P = "\<lambda>t. t = t0" and Q = Q]]) (use assms in auto)

lemma readCoverage_triple:
  "triple (\<lambda>s. tab s = t0) readCoverage (\<lambda>cov s. cov = coverage_of t0 \<and> tab s = t0) (\<lambda>_ _. True)"
  unfolding readCoverage_def query_def by (rule triple_statement) auto

lemma update_triple:
  "triple (\<lambda>s. tab s = t0) (onErr g (update f)) (\<lambda>_ s. tab s = f t0) (\<lambda>_ _. True)"
  unfolding update_def by (rule triple_statement) auto

lemma setCoverage_triple:
  "triple (\<lambda>s. tab s = t0) (setCoverage c)
     (\<lambda>_ s. int64 (covStart c) \<le> int64 (covHead c) \<and>
        tab s = t0\<lparr>ingest_cursor := Some (int64 (covStart c), int64 (covHead c))\<rparr>) (\<lambda>_ _. True)"
  unfolding setCoverage_def by (rule triple_statement) (auto simp: upsert_cursor_def split: if_splits)

lemma after_readCoverage:
  assumes "triple (\<lambda>s. tab s = t0) (f (coverage_of t0)) (\<lambda>_ s. Q (tab s)) (\<lambda>_ _. True)"
  shows "triple (\<lambda>s. tab s = t0) (andThen readCoverage f) (\<lambda>_ s. Q (tab s)) (\<lambda>_ _. True)"
proof (rule triple_andThen [OF readCoverage_triple])
  show "triple (\<lambda>s. cov = coverage_of t0 \<and> tab s = t0) (f cov) (\<lambda>_ s. Q (tab s)) (\<lambda>_ _. True)" for cov
    using assms by (cases "cov = coverage_of t0") (simp_all add: triple_def)
qed

lemma Rewind_commits: "all_or_nothing (rewound to (tab s)) s (Rewind to s)"
  unfolding Rewind_def
proof (rule in_tx_all_or_nothing, rule after_readCoverage)
  show "triple (\<lambda>u. tab u = tab s) (case coverage_of (tab s) of
       None \<Rightarrow> throw (ErrNew (''rewind to '' @ show_u64 to @ '': cursor is not above it (nothing to rewind)''))
     | Some c \<Rightarrow>
         if covHead c \<le> to
         then throw (ErrNew (''rewind to '' @ show_u64 to @ '': cursor is not above it (nothing to rewind)''))
         else if to < covStart c
         then throw (Wrapf '''' (Sentinel ErrCoverageGap)
                ('': rewind to '' @ show_u64 to @ '' is below the coverage start '' @ show_u64 (covStart c)))
         else
         andThen (onErr (\<lambda>e. Wrapf (''delete logs above '' @ show_u64 to @ '': '') e '''')
                   (update (delete_logs_above (int64 to)))) (\<lambda>_.
         andThen (onErr (\<lambda>e. Wrapf (''delete blocks above '' @ show_u64 to @ '': '') e '''')
                   (update (delete_blocks_above (int64 to)))) (\<lambda>_.
         setCoverage \<lparr>covStart = covStart c, covHead = to\<rparr>)))
     (\<lambda>_ u. rewound to (tab s) (tab u)) (\<lambda>_ _. True)"
  proof (cases "coverage_of (tab s)")
    case (Some c)
    show ?thesis
      unfolding Some option.case
      by (intro triple_if triple_throw triple_andThen [OF update_triple] triple_conseq [OF setCoverage_triple])
        (auto simp: rewound_by_deletes Some)
  qed (auto intro: triple_throw)
qed

text \<open>
  C35. \<open>Rewind\<close> is all or nothing under every fault. When it commits, the log rows and the block rows
  that are left are exactly those of the heights up to \<open>to\<close>, in their order, the head is lowered to
  \<open>to\<close>, and the coverage start, the partitions, the manifest and the maintenance flag are untouched; it
  never moves the head forward and never below the coverage start.
\<close>

theorem Rewind_all_or_nothing: "all_or_nothing (rewound to (tab s)) s (Rewind to s)"
  by (rule Rewind_commits)

lemma rewound_ok:
  assumes ok: "warehouse_ok t0" and r: "rewound to t0 t"
  shows "warehouse_ok t"
proof -
  obtain c where c: "coverage_of t0 = Some c" "covStart c \<le> to" "to < covHead c"
    and t: "t = (delete_blocks_above (int64 to) (delete_logs_above (int64 to) t0))
           \<lparr>ingest_cursor := Some (int64 (covStart c), int64 to)\<rparr>"
    using r by (auto simp: rewound_by_deletes)
  note d = coverage_of_Some [OF ok c(1)]
  have f: "fits_int64 to" "fits_int64 (covStart c)"
    using c(2,3) d(1) fits_int64_mono less_imp_le by blast+
  have le: "int64 (covStart c) \<le> int64 to" "int64 to \<le> int64 (covHead c)" "0 \<le> int64 (covStart c)" "int64 to < 2 ^ 63"
    using c(2,3) f d(1) by (simp_all add: int64_le_iff int64_nonneg int64_unat fits_int64_nat del: of_nat_unat)
      (simp_all add: word_le_nat_alt word_less_nat_alt)
  have "covered t0 (int64 (covStart c)) (int64 (covHead c))"
    using ok d(3) by (simp add: warehouse_ok_def)
  then have "covered t (int64 (covStart c)) (int64 to)"
    using le unfolding covered_def t by (fastforce simp: delete_blocks_above_def delete_logs_above_def image_iff)
  then show ?thesis
    using ok le by (simp add: warehouse_ok_def t delete_blocks_above_def delete_logs_above_def distinct_map_filter routed_def)
qed

text \<open>
  \<open>Rewind\<close> keeps the invariant of the warehouse, whatever the connection does.
\<close>

theorem Rewind_keeps_warehouse_ok:
  assumes "warehouse_ok (tab s)"
  shows "warehouse_ok (tab (snd (Rewind to s)))"
  using Rewind_commits [of to s] rewound_ok [OF assms] assms
  by (auto simp: all_or_nothing_def split: prod.splits sum.splits)

section \<open>Publishing coverage\<close>

text \<open>\<open>published cov t0 t\<close>: the interval was merged into the cursor, and it touched the old one.\<close>

definition published :: "coverage \<Rightarrow> tables \<Rightarrow> tables \<Rightarrow> bool" where
  "published cov t0 t \<longleftrightarrow> touches (coverage_of t0) (covStart cov) (covHead cov) \<and>
     (let c = extended_coverage (coverage_of t0) (covStart cov) (covHead cov) in
      int64 (covStart c) \<le> int64 (covHead c) \<and>
      t = t0\<lparr>ingest_cursor := Some (int64 (covStart c), int64 (covHead c))\<rparr>)"

lemma SetCoverage_commits: "all_or_nothing (published cov (tab s)) s (SetCoverage cov s)"
  unfolding SetCoverage_def
proof (rule in_tx_all_or_nothing, rule after_readCoverage, cases "coverage_of (tab s)")
  case None
  then show "triple (\<lambda>u. tab u = tab s) (case coverage_of (tab s) of Some ex \<Rightarrow>
         if covStart cov > covHead ex + 1 \<or> covHead cov + 1 < covStart ex
         then throw (Wrapf '''' (Sentinel ErrCoverageGap)
                (('': verified interval '' @ show_u64 (covStart cov) @ ''-'' @ show_u64 (covHead cov)) @
                 '' vs existing coverage '' @ show_u64 (covStart ex) @ ''-'' @ show_u64 (covHead ex)))
         else setCoverage \<lparr>covStart = min (covStart cov) (covStart ex), covHead = max (covHead cov) (covHead ex)\<rparr>
     | None \<Rightarrow> setCoverage cov)
     (\<lambda>_ u. published cov (tab s) (tab u)) (\<lambda>_ _. True)"
    by (auto simp: published_def touches_def extended_coverage_def Let_def intro!: triple_conseq [OF setCoverage_triple])
next
  case (Some ex)
  then show "triple (\<lambda>u. tab u = tab s) (case coverage_of (tab s) of Some ex \<Rightarrow>
         if covStart cov > covHead ex + 1 \<or> covHead cov + 1 < covStart ex
         then throw (Wrapf '''' (Sentinel ErrCoverageGap)
                (('': verified interval '' @ show_u64 (covStart cov) @ ''-'' @ show_u64 (covHead cov)) @
                 '' vs existing coverage '' @ show_u64 (covStart ex) @ ''-'' @ show_u64 (covHead ex)))
         else setCoverage \<lparr>covStart = min (covStart cov) (covStart ex), covHead = max (covHead cov) (covHead ex)\<rparr>
     | None \<Rightarrow> setCoverage cov)
     (\<lambda>_ u. published cov (tab s) (tab u)) (\<lambda>_ _. True)"
    unfolding Some option.case
    by (intro triple_if triple_throw triple_conseq [OF setCoverage_triple])
      (auto simp: published_def touches_def extended_coverage_def Let_def Some min.commute max.commute)
qed

text \<open>
  \<open>SetCoverage\<close> is all or nothing, and when it commits, the cursor is the hull of the
  published interval and the verified one, which touch: publishing never lowers the head the
  tail has reached, never raises the start, and changes no row.
\<close>

theorem SetCoverage_merges: "all_or_nothing (published cov (tab s)) s (SetCoverage cov s)"
  by (rule SetCoverage_commits)

lemma published_ok:
  assumes ok: "warehouse_ok t0" and p: "published cov t0 t" and "plausible (covHead cov)" "covStart cov \<le> covHead cov"
    and held: "covered t0 (int64 (covStart cov)) (int64 (covHead cov))"
  shows "warehouse_ok t"
proof -
  let ?c = "extended_coverage (coverage_of t0) (covStart cov) (covHead cov)"
  have "b_number ` set (eth_blocks (cleared (covStart cov) (covHead cov) t0)) \<union> int64 ` {covStart cov..covHead cov}
      \<subseteq> b_number ` set (eth_blocks t0)"
    using held int64_interval [OF assms(4) plausible_fits [OF assms(3)]] by (auto simp: covered_def)
  then have "0 \<le> int64 (covStart ?c) \<and> int64 (covHead ?c) < 2 ^ 63 \<and> covered t0 (int64 (covStart ?c)) (int64 (covHead ?c))"
    using p by (intro covered_extend [OF ok _ assms(4,3) refl]) (auto simp: published_def)
  then show ?thesis
    using ok p by (simp add: warehouse_ok_def published_def Let_def covered_def routed_def)
qed

text \<open>
  Publishing an interval whose every height has a block row keeps the invariant.
\<close>

theorem SetCoverage_keeps_warehouse_ok:
  assumes "warehouse_ok (tab s)" and "plausible (covHead cov)" and "covStart cov \<le> covHead cov"
    and "covered (tab s) (int64 (covStart cov)) (int64 (covHead cov))"
  shows "warehouse_ok (tab (snd (SetCoverage cov s)))"
  using SetCoverage_commits [of cov s] published_ok [OF assms(1) _ assms(2-4)] assms(1)
  by (auto simp: all_or_nothing_def split: prod.splits sum.splits)

section \<open>A concrete warehouse\<close>

definition fresh_tables :: tables where
  "fresh_tables = \<lparr>eth_blocks = [], eth_logs = [], partitions = [], ingest_cursor = None, maintenance = False,
     maintenance_reason = [], backfill_units = [], indexes = []\<rparr>"

definition connect :: "tables \<Rightarrow> pg" where
  "connect t = \<lparr>tab = t, tick = 0, faults = (\<lambda>_. None), writer_locked = False, maintenance_locked = False\<rparr>"

definition sample_blocks :: "block list" where
  "sample_blocks = [\<lparr>blkNumber = 10, blkHash = 0xa, blkTimestamp = 100\<rparr>, \<lparr>blkNumber = 11, blkHash = 0xb, blkTimestamp = 112\<rparr>]"

definition sample_log :: log where
  "sample_log = \<lparr>logAddress = 0x77, logTopics = [0x1, 0x2], logData = None, logBlockNumber = 11, logTxHash = 0x5,
     logTxIndex = 0, logBlockHash = 0xb, logBlockTimestamp = 0, logIndex = 3, logRemoved = False\<rparr>"

definition sample_written :: pg where
  "sample_written = snd (WriteRange 10 11 sample_blocks [sample_log] (connect fresh_tables))"

lemma connect_simps [simp]: "tab (connect t) = t" "healthy (connect t)"
  by (simp_all add: connect_def healthy_def)

lemma fresh_ok: "warehouse_ok fresh_tables"
  by (simp add: warehouse_ok_def fresh_tables_def partitions_ok_def)

lemma fresh_coverage: "coverage_of fresh_tables = None"
  by (simp add: coverage_of_def fresh_tables_def)

lemma sample_batch: "batch_ok 10 11 sample_blocks [sample_log]" "batch_covers 10 11 sample_blocks [sample_log]"
proof -
  have "({10..11} :: u64 set) = {10, 11}"
    by (auto simp: word_le_nat_alt word_less_nat_alt word_unat_eq_iff)
  then show "batch_ok 10 11 sample_blocks [sample_log]" "batch_covers 10 11 sample_blocks [sample_log]"
    by (simp_all add: batch_ok_def batch_covers_def sample_blocks_def sample_log_def wf_log_def fits_int64_def
        plausible_def logsMatchBlocks_def hash_of_block_def)
qed

lemma sample_run: "WriteRange 10 11 sample_blocks [sample_log] (connect fresh_tables) = (Inr (), sample_written)"
proof -
  have "fst (WriteRange 10 11 sample_blocks [sample_log] (connect fresh_tables)) = Inr ()" by code_simp
  then show ?thesis by (simp add: sample_written_def prod_eq_iff)
qed

theorem WriteRange_keeps_warehouse_ok_witness: "warehouse_ok (tab sample_written)"
  using WriteRange_keeps_warehouse_ok [of "connect fresh_tables" 10 11 sample_blocks "[sample_log]"]
  by (simp add: fresh_ok sample_batch sample_run)

lemma sample_written_ok: "warehouse_ok (tab sample_written)"
  using write_committed_ok [OF fresh_ok sample_batch(2)] WriteRange_tables [OF sample_run] fresh_ok by auto

theorem WriteRange_succeeds_witness:
  "\<exists>t. WriteRange 10 11 sample_blocks [sample_log] (connect fresh_tables) = (Inr (), t) \<and>
     write_committed 10 11 sample_blocks [sample_log] fresh_tables (tab t)"
  using WriteRange_succeeds [of "connect fresh_tables" 10 11 sample_blocks "[sample_log]"]
  by (simp add: write_ready_def fresh_ok sample_batch fresh_coverage touches_def)

theorem WriteRange_stores_under_own_block_witness:
  "LogRow sample_log \<in> set (eth_logs (tab sample_written))"
  using WriteRange_stores_under_own_block [OF sample_run, of sample_log] by simp

lemma sample_coverage: "coverage_of (tab sample_written) = Some \<lparr>covStart = 10, covHead = 11\<rparr>"
  by code_simp

theorem WriteRange_refuses_gap_witness:
  "\<exists>e t. WriteRange 20 20 [\<lparr>blkNumber = 20, blkHash = 0xc, blkTimestamp = 200\<rparr>] [] (connect (tab sample_written)) = (Inl e, t) \<and>
     errors_Is e ErrCoverageGap \<and> tab t = tab sample_written"
  using WriteRange_refuses_gap [of "connect (tab sample_written)" "\<lparr>covStart = 10, covHead = 11\<rparr>" 20 20
      "[\<lparr>blkNumber = 20, blkHash = 0xc, blkTimestamp = 200\<rparr>]" "[]"]
  by (simp add: sample_coverage logsMatchBlocks_def)

definition sample_rewritten :: pg where
  "sample_rewritten = snd (WriteRange 10 11 sample_blocks [sample_log] sample_written)"

theorem WriteRange_replay_witness:
  "tab sample_rewritten = (tab sample_written)\<lparr>partitions := partitions (tab sample_rewritten)\<rparr>"
proof -
  have "fst (WriteRange 10 11 sample_blocks [sample_log] sample_written) = Inr ()" by code_simp
  then have "WriteRange 10 11 sample_blocks [sample_log] sample_written = (Inr (), sample_rewritten)"
    by (simp add: sample_rewritten_def prod_eq_iff)
  from WriteRange_replay [OF sample_batch(1) sample_run this] show ?thesis .
qed

theorem Rewind_keeps_warehouse_ok_witness:
  "coverage_of (tab (snd (Rewind 10 sample_written))) = Some \<lparr>covStart = 10, covHead = 10\<rparr> \<and>
   warehouse_ok (tab (snd (Rewind 10 sample_written)))"
proof
  show "coverage_of (tab (snd (Rewind 10 sample_written))) = Some \<lparr>covStart = 10, covHead = 10\<rparr>" by code_simp
qed (rule Rewind_keeps_warehouse_ok [OF sample_written_ok])

theorem SetCoverage_keeps_warehouse_ok_witness:
  "warehouse_ok (tab (snd (SetCoverage \<lparr>covStart = 10, covHead = 11\<rparr> sample_written)))"
proof -
  have "covered (tab sample_written) 10 11"
    using sample_written_ok sample_coverage coverage_of_Some [OF sample_written_ok sample_coverage]
    by (simp add: warehouse_ok_def int64_def)
  then show ?thesis
    using SetCoverage_keeps_warehouse_ok [OF sample_written_ok, of "\<lparr>covStart = 10, covHead = 11\<rparr>"]
    by (simp add: plausible_def int64_def)
qed

end
