(* ===== verification/Reader.thy ===== *)
theory Reader
  imports Store EventSet
begin

text \<open>
  \<open>internal/logstore/reader.go\<close>: the query \<open>eth_getLogs\<close> becomes, the SQL it is rendered
  to, the execution of that SQL, and the read snapshot.

  The \<open>WHERE\<close> clause is kept as the syntax tree of the fixed fragments \<open>buildFilter\<close> joins
  with AND and OR: a leaf names columns and positional parameters (\<open>$1\<close> is parameter 1) and
  carries no data of the request. \<open>eval_cond\<close> is PostgreSQL's reading of such a clause on a
  joined row; NULL makes a comparison not true, and there is no NOT in the fragments, so
  "not true" is all a row selection needs of three-valued logic.
\<close>

section \<open>Queries and their SQL\<close>

record query_filter =
  FromBlock :: u64
  ToBlock :: u64
  Addresses :: "address list"
  QTopics :: "hash list list"
  ERC1155ID :: "hash option"

datatype arg = IntArg int | BytesArg bytes | BytesListArg "bytes list"

text \<open>
  \<open>BlockBetween i j\<close> is \<open>l.block_number BETWEEN $i AND $j\<close>, \<open>AddressAny i\<close> is
  \<open>l.address = ANY($i::bytea[])\<close>, \<open>TopicAny k i\<close> the same for the column \<open>l.topick\<close>,
  \<open>TopicIs k i\<close> is \<open>l.topick = $i\<close>, \<open>Topic0Lit b\<close> is \<open>l.topic0 = '\xb'::bytea\<close>
  and \<open>Word0Is i\<close> is \<open>substring(l.data from 1 for 32) = $i\<close>.
\<close>

datatype cond =
    BlockBetween nat nat
  | AddressAny nat
  | TopicAny nat nat
  | TopicIs nat nat
  | Topic0Lit bytes
  | Word0Is nat
  | AllOf "cond list"
  | AnyOf "cond list"

record sql =
  sql_where :: "cond list"
  sql_limit :: "int option"

section \<open>buildFilter\<close>

text \<open>The closure \<open>arg\<close>: append the value, return its position.\<close>

definition arg_push :: "arg \<Rightarrow> arg list \<Rightarrow> nat \<times> arg list" where
  "arg_push v args = (length args + 1, args @ [v])"

text \<open>The branch of the loop for topic 0 when a token id is asked for: the three kinds of arms.\<close>

definition transfer_single_arm :: "keccak \<Rightarrow> hash list \<Rightarrow> hash \<Rightarrow> arg list \<Rightarrow> cond list \<times> arg list" where
  "transfer_single_arm kc sub tokenID args =
     (if TransferSingle kc \<in> set sub
      then (let (i, args) = arg_push (BytesArg (hash_bytes tokenID)) args
            in ([AllOf [Topic0Lit (hash_bytes (TransferSingle kc)), Word0Is i]], args))
      else ([], args))"

definition uri_arm :: "keccak \<Rightarrow> hash list \<Rightarrow> hash \<Rightarrow> arg list \<Rightarrow> cond list \<times> arg list" where
  "uri_arm kc sub tokenID args =
     (if \<exists>h \<in> set sub. h \<noteq> TransferSingle kc \<and> h = URI kc
      then (let (i, args) = arg_push (BytesArg (hash_bytes (URI kc))) args;
                (j, args) = arg_push (BytesArg (hash_bytes tokenID)) args
            in ([AllOf [TopicIs 0 i, TopicIs 1 j]], args))
      else ([], args))"

definition others_arm :: "keccak \<Rightarrow> hash list \<Rightarrow> arg list \<Rightarrow> cond list \<times> arg list" where
  "others_arm kc sub args =
     (let others = map hash_bytes (filter (\<lambda>h. h \<noteq> TransferSingle kc \<and> h \<noteq> URI kc) sub)
      in if others \<noteq> [] then (let (i, args) = arg_push (BytesListArg others) args in ([TopicAny 0 i], args))
         else ([], args))"

definition token_arms :: "keccak \<Rightarrow> hash list \<Rightarrow> hash \<Rightarrow> arg list \<Rightarrow> cond list \<times> arg list" where
  "token_arms kc sub tokenID args =
     (let (ts, args) = transfer_single_arm kc sub tokenID args;
          (uri, args) = uri_arm kc sub tokenID args;
          (rest, args) = others_arm kc sub args
      in (ts @ uri @ rest, args))"

fun topic_clauses :: "keccak \<Rightarrow> hash option \<Rightarrow> nat \<Rightarrow> hash list list \<Rightarrow> arg list \<Rightarrow> cond list \<times> arg list" where
  "topic_clauses kc tokenID i [] args = ([], args)"
| "topic_clauses kc tokenID i (sub # subs) args =
     (if sub = [] then topic_clauses kc tokenID (i + 1) subs args
      else if i = 0 \<and> tokenID \<noteq> None then
        (let (arms, args) = token_arms kc sub (the tokenID) args;
             (rest, args) = topic_clauses kc tokenID (i + 1) subs args
         in ((if arms \<noteq> [] then [AnyOf arms] else []) @ rest, args))
      else
        (let (k, args) = arg_push (BytesListArg (map hash_bytes sub)) args;
             (rest, args) = topic_clauses kc tokenID (i + 1) subs args
         in (TopicAny i k # rest, args)))"

text \<open>\<open>n + 1\<close> in Go's \<open>int\<close>: the greatest one wraps to the least.\<close>

definition int_suc :: "int \<Rightarrow> int" where
  "int_suc n = (if n < 2 ^ 63 - 1 then n + 1 else - (2 ^ 63))"

definition buildFilter :: "keccak \<Rightarrow> query_filter \<Rightarrow> int \<Rightarrow> sql \<times> arg list" where
  "buildFilter kc q limit =
     (let (i, args) = arg_push (IntArg (int64 (FromBlock q))) [];
          (j, args) = arg_push (IntArg (int64 (ToBlock q))) args;
          (addr, args) = (if Addresses q \<noteq> []
             then (let (k, args) = arg_push (BytesListArg (map address_bytes (Addresses q))) args in ([AddressAny k], args))
             else ([], args));
          (tops, args) = topic_clauses kc (ERC1155ID q) 0 (QTopics q) args
      in (\<lparr>sql_where = BlockBetween i j # addr @ tops,
           sql_limit = (if limit > 0 then Some (int_suc limit) else None)\<rparr>, args))"

section \<open>Execution of the statement\<close>

definition param :: "arg list \<Rightarrow> nat \<Rightarrow> arg option" where
  "param args i = (if 1 \<le> i \<and> i \<le> length args then Some (args ! (i - 1)) else None)"

definition column :: "nat \<Rightarrow> log_row \<Rightarrow> bytes option" where
  "column k r = (if k = 0 then r_topic0 r else if k = 1 then r_topic1 r else if k = 2 then r_topic2 r
     else if k = 3 then r_topic3 r else None)"

definition is_any :: "bytes option \<Rightarrow> arg option \<Rightarrow> bool" where
  "is_any v a = (case (v, a) of (Some b, Some (BytesListArg bs)) \<Rightarrow> b \<in> set bs | _ \<Rightarrow> False)"

definition is_eq :: "bytes option \<Rightarrow> arg option \<Rightarrow> bool" where
  "is_eq v a = (case (v, a) of (Some b, Some (BytesArg c)) \<Rightarrow> b = c | _ \<Rightarrow> False)"

fun eval_cond :: "arg list \<Rightarrow> log_row \<Rightarrow> cond \<Rightarrow> bool" where
  "eval_cond args r (BlockBetween i j) =
     (case (param args i, param args j) of
        (Some (IntArg lo), Some (IntArg hi)) \<Rightarrow> lo \<le> r_block_number r \<and> r_block_number r \<le> hi
      | _ \<Rightarrow> False)"
| "eval_cond args r (AddressAny i) = is_any (Some (r_address r)) (param args i)"
| "eval_cond args r (TopicAny k i) = is_any (column k r) (param args i)"
| "eval_cond args r (TopicIs k i) = is_eq (column k r) (param args i)"
| "eval_cond args r (Topic0Lit b) = (r_topic0 r = Some b)"
| "eval_cond args r (Word0Is i) = is_eq (map_option (take 32) (r_data r)) (param args i)"
| "eval_cond args r (AllOf cs) = (\<forall>c \<in> set cs. eval_cond args r c)"
| "eval_cond args r (AnyOf cs) = (\<exists>c \<in> set cs. eval_cond args r c)"

text \<open>A reference to a column that does not exist (\<open>topic4\<close> and up) is refused by the parser.\<close>

fun columns_exist :: "cond \<Rightarrow> bool" where
  "columns_exist (TopicAny k i) = (k < 4)"
| "columns_exist (TopicIs k i) = (k < 4)"
| "columns_exist (AllOf cs) = (\<forall>c \<in> set cs. columns_exist c)"
| "columns_exist (AnyOf cs) = (\<forall>c \<in> set cs. columns_exist c)"
| "columns_exist _ = True"

text \<open>\<open>selectLogs\<close>: \<open>eth_logs JOIN eth_blocks ON number = block_number ... ORDER BY ... LIMIT\<close>.\<close>

definition joined :: "tables \<Rightarrow> (log_row \<times> block_row) list" where
  "joined t = concat (map (\<lambda>r. map (Pair r) (filter (\<lambda>b. b_number b = r_block_number r) (eth_blocks t))) (eth_logs t))"

definition select_logs :: "sql \<Rightarrow> arg list \<Rightarrow> tables \<Rightarrow> err + (log_row \<times> block_row) list \<times> tables" where
  "select_logs q args t =
     (if \<exists>c \<in> set (sql_where q). \<not> columns_exist c then Inl (DbError ''column does not exist'')
      else
        let rows = sort_key (\<lambda>(r, b). row_key r)
                     (filter (\<lambda>(r, b). \<forall>c \<in> set (sql_where q). eval_cond args r c) (joined t))
        in (case sql_limit q of
              None \<Rightarrow> Inr (rows, t)
            | Some n \<Rightarrow> if n < 0 then Inl (DbError ''LIMIT must not be negative'') else Inr (take (nat n) rows, t)))"

section \<open>Reading rows back\<close>

fun leading_topics :: "bytes option list \<Rightarrow> hash list" where
  "leading_topics [] = []"
| "leading_topics (None # ts) = []"
| "leading_topics (Some t # ts) = BytesToHash t # leading_topics ts"

definition scanLog :: "log_row \<times> block_row \<Rightarrow> log" where
  "scanLog rb =
     (let (r, b) = rb in
      \<lparr>logAddress = BytesToAddress (r_address r),
       logTopics = leading_topics [r_topic0 r, r_topic1 r, r_topic2 r, r_topic3 r],
       logData = (case r_data r of None \<Rightarrow> Some [] | Some d \<Rightarrow> Some d),
       logBlockNumber = uint64 (r_block_number r),
       logTxHash = BytesToHash (r_tx_hash r),
       logTxIndex = uint64 (r_tx_index r),
       logBlockHash = BytesToHash (b_hash b),
       logBlockTimestamp = uint64 (b_ts b),
       logIndex = uint64 (r_log_index r),
       logRemoved = False\<rparr>)"

text \<open>The loop over the rows: it stops with an error at the first row past the limit.\<close>

fun collect_rows :: "int \<Rightarrow> (log_row \<times> block_row) list \<Rightarrow> log list \<Rightarrow> err + log list" where
  "collect_rows limit [] logs = Inr logs"
| "collect_rows limit (rb # rbs) logs =
     (let logs = logs @ [scanLog rb] in
      if limit > 0 \<and> int (length logs) > limit
      then Inl (Wrapf '''' (Sentinel ErrTooManyResults) ('': more than '' @ show_int limit))
      else collect_rows limit rbs logs)"

definition lift :: "'e + 'a \<Rightarrow> ('s, 'e, 'a) step" where
  "lift r = (case r of Inl e \<Rightarrow> throw e | Inr x \<Rightarrow> ret x)"

text \<open>
  The second statement stands for \<open>rows.Err()\<close>: a connection that fails while the rows
  are read.
\<close>

definition filterLogs :: "keccak \<Rightarrow> query_filter \<Rightarrow> int \<Rightarrow> (pg, err, log list) step" where
  "filterLogs kc q limit =
     (let (sql, args) = buildFilter kc q limit in
      andThen (onErr (\<lambda>e. Wrapf ''query logs: '' e '''') (exec (select_logs sql args))) (\<lambda>rows.
      andThen (lift (collect_rows limit rows [])) (\<lambda>logs.
      andThen (onErr (\<lambda>e. Wrapf ''read logs: '' e '''') (query (\<lambda>_. ()))) (\<lambda>_.
      ret logs))))"

definition blockByHash :: "hash \<Rightarrow> (pg, err, block option) step" where
  "blockByHash h =
     onErr (\<lambda>e. Wrapf ''block by hash: '' e '''')
       (query (\<lambda>t. map_option (\<lambda>b. \<lparr>blkNumber = uint64 (b_number b), blkHash = BytesToHash (b_hash b),
                                   blkTimestamp = uint64 (b_ts b)\<rparr>)
                (find (\<lambda>b. b_hash b = hash_bytes h) (eth_blocks t))))"

section \<open>The read snapshot\<close>

text \<open>
  \<open>Read fn\<close>: one read-only REPEATABLE READ transaction. It takes the shared maintenance
  lock, which fails while a backfill holds it, then looks at the durable flag. The tables
  the body sees are those at the beginning of the transaction.
\<close>

definition admitted :: "(pg, err, bool) step" where
  "admitted =
     andThen (onErr (\<lambda>e. Wrapf ''maintenance check: '' e '''') (query (\<lambda>_. ()))) (\<lambda>_.
     gets (\<lambda>s. \<not> maintenance_locked s))"

definition read_body :: "(pg, err, 'a) step \<Rightarrow> (pg, err, 'a) step" where
  "read_body fn =
     andThen admitted (\<lambda>ok.
     if \<not> ok then throw (Sentinel ErrMaintenance)
     else
     andThen (onErr (\<lambda>e. Wrapf ''maintenance flag: '' e '''') (query maintenance)) (\<lambda>flagged.
     if flagged then throw (Sentinel ErrMaintenance)
     else fn))"

definition Read :: "(pg, err, 'a) step \<Rightarrow> (pg, err, 'a) step" where
  "Read fn s =
     (case exec (\<lambda>t. Inr ((), t)) s of
        (Inl e, s1) \<Rightarrow> (Inl (Wrapf ''begin read snapshot: '' e ''''), s1)
      | (Inr _, s1) \<Rightarrow>
          (case read_body fn s1 of
             (Inl e, s2) \<Rightarrow> (Inl e, rollback (tab s) s2)
           | (Inr x, s2) \<Rightarrow> commit (tab s) x s2))"

end
