(* ===== verification/ReaderFacts.thy ===== *)
theory ReaderFacts
  imports Reader Warehouse
begin

text \<open>
  The reader is correct: the SQL of \<open>buildFilter\<close> selects exactly the stored logs that match
  go-ethereum's filter rules (\<open>log_matches\<close>), rows decode to the logs that were written, and an
  answer is never cut short.
\<close>

section \<open>What a query means\<close>

definition topic_matches :: "hash list \<Rightarrow> nat \<Rightarrow> log \<Rightarrow> bool" where
  "topic_matches sub i l \<longleftrightarrow> sub = [] \<or> i < length (logTopics l) \<and> logTopics l ! i \<in> set sub"

text \<open>The token id of a log: data word 0 of a TransferSingle, topic 1 of a URI, none otherwise.\<close>

definition token_matches :: "keccak \<Rightarrow> hash \<Rightarrow> log \<Rightarrow> bool" where
  "token_matches kc tokenID l =
     (case logTopics l of
        [] \<Rightarrow> False
      | t0 # ts \<Rightarrow>
          if t0 = TransferSingle kc then take 32 (case logData l of None \<Rightarrow> [] | Some d \<Rightarrow> d) = hash_bytes tokenID
          else if t0 = URI kc then (case ts of [] \<Rightarrow> False | t1 # _ \<Rightarrow> t1 = tokenID)
          else True)"

definition log_matches :: "keccak \<Rightarrow> query_filter \<Rightarrow> log \<Rightarrow> bool" where
  "log_matches kc q l \<longleftrightarrow>
     FromBlock q \<le> logBlockNumber l \<and> logBlockNumber l \<le> ToBlock q \<and>
     (Addresses q = [] \<or> logAddress l \<in> set (Addresses q)) \<and>
     (\<forall>i < length (QTopics q). topic_matches (QTopics q ! i) i l) \<and>
     (case ERC1155ID q of None \<Rightarrow> True
      | Some tokenID \<Rightarrow> QTopics q = [] \<or> hd (QTopics q) = [] \<or> token_matches kc tokenID l)"

section \<open>The clauses\<close>

lemma param_append [simp]: "1 \<le> i \<Longrightarrow> i \<le> length args \<Longrightarrow> param (args @ added) i = param args i"
  by (cases i) (simp_all add: param_def nth_append)

lemma param_here [simp]: "param (args @ v # added) (Suc (length args)) = Some v"
  "param (args @ u # v # added) (Suc (Suc (length args))) = Some v"
  by (simp_all add: param_def nth_append)

lemma column_LogRow: "k < 4 \<Longrightarrow> column k (LogRow l) = topic_at l k"
proof -
  assume "k < 4"
  then have "k = 0 \<or> k = 1 \<or> k = 2 \<or> k = 3" by presburger
  then show ?thesis by (auto simp: column_def LogRow_def Let_def)
qed

lemma is_any_topic:
  "is_any (topic_at l k) (Some (BytesListArg (map hash_bytes sub))) \<longleftrightarrow>
     k < length (logTopics l) \<and> logTopics l ! k \<in> set sub"
  by (auto simp: is_any_def topic_at_def)

lemma r_data_LogRow: "r_data (LogRow l) = Some (case logData l of None \<Rightarrow> [] | Some d \<Rightarrow> d)"
  by (simp add: LogRow_def Let_def split: option.splits)

text \<open>
  \<open>extends args cs args' P l\<close>: the clauses \<open>cs\<close> were rendered with parameters appended to
  \<open>args\<close>, name existing columns, and one of them holds of the row of \<open>l\<close> iff \<open>P\<close>.
\<close>

definition extends :: "arg list \<Rightarrow> cond list \<Rightarrow> arg list \<Rightarrow> bool \<Rightarrow> log \<Rightarrow> bool" where
  "extends args cs args' P l \<longleftrightarrow>
     (\<exists>added. args' = args @ added) \<and> (\<forall>c \<in> set cs. columns_exist c) \<and>
     (\<forall>fin. (\<exists>c \<in> set cs. eval_cond (args' @ fin) (LogRow l) c) \<longleftrightarrow> P)"

lemma extends_append:
  "extends args cs args1 P l \<Longrightarrow> extends args1 ds args2 Q l \<Longrightarrow> extends args (cs @ ds) args2 (P \<or> Q) l"
  by (fastforce simp: extends_def)

lemma transfer_single_arm_meaning:
  "transfer_single_arm kc sub tokenID args = (cs, args') \<Longrightarrow>
     extends args cs args' (TransferSingle kc \<in> set sub \<and> topic_at l 0 = Some (hash_bytes (TransferSingle kc)) \<and>
         take 32 (case logData l of None \<Rightarrow> [] | Some d \<Rightarrow> d) = hash_bytes tokenID) l"
  by (auto simp: transfer_single_arm_def extends_def arg_push_def is_eq_def r_data_LogRow split: if_splits)

lemma uri_arm_meaning:
  "uri_arm kc sub tokenID args = (cs, args') \<Longrightarrow>
     extends args cs args' (URI kc \<in> set sub \<and> URI kc \<noteq> TransferSingle kc \<and> topic_at l 0 = Some (hash_bytes (URI kc)) \<and>
         topic_at l 1 = Some (hash_bytes tokenID)) l"
  by (auto simp: uri_arm_def extends_def arg_push_def is_eq_def column_LogRow split: if_splits option.splits)

lemma others_arm_meaning:
  "others_arm kc sub args = (cs, args') \<Longrightarrow>
     extends args cs args' (0 < length (logTopics l) \<and>
         logTopics l ! 0 \<in> set (filter (\<lambda>h. h \<noteq> TransferSingle kc \<and> h \<noteq> URI kc) sub)) l"
  using is_any_topic [of l 0 "filter (\<lambda>h. h \<noteq> TransferSingle kc \<and> h \<noteq> URI kc) sub"]
  by (auto simp: others_arm_def extends_def arg_push_def Let_def column_LogRow filter_empty_conv split: if_splits)

lemma arms_not_empty:
  "sub \<noteq> [] \<Longrightarrow> token_arms kc sub tokenID args = (arms, args') \<Longrightarrow> arms \<noteq> []"
  by (cases sub)
    (auto simp: token_arms_def transfer_single_arm_def uri_arm_def others_arm_def Let_def arg_push_def filter_empty_conv
      split: if_splits)

lemma token_arms_meaning:
  assumes "token_arms kc sub tokenID args = (arms, args')" and "sub \<noteq> []"
  shows "extends args arms args' (topic_matches sub 0 l \<and> token_matches kc tokenID l) l"
proof -
  obtain ts a1 uri a2 rest where r: "transfer_single_arm kc sub tokenID args = (ts, a1)"
    "uri_arm kc sub tokenID a1 = (uri, a2)" "others_arm kc sub a2 = (rest, args')" "arms = ts @ uri @ rest"
    using assms(1) by (auto simp: token_arms_def split: prod.splits)
  have meaning: "topic_matches sub 0 l \<and> token_matches kc tokenID l \<longleftrightarrow>
      (TransferSingle kc \<in> set sub \<and> topic_at l 0 = Some (hash_bytes (TransferSingle kc)) \<and>
         take 32 (case logData l of None \<Rightarrow> [] | Some d \<Rightarrow> d) = hash_bytes tokenID) \<or>
      (URI kc \<in> set sub \<and> URI kc \<noteq> TransferSingle kc \<and> topic_at l 0 = Some (hash_bytes (URI kc)) \<and>
         topic_at l 1 = Some (hash_bytes tokenID)) \<or>
      (0 < length (logTopics l) \<and> logTopics l ! 0 \<in> set (filter (\<lambda>h. h \<noteq> TransferSingle kc \<and> h \<noteq> URI kc) sub))"
    using assms(2)
    by (cases "logTopics l"; cases "tl (logTopics l)") (auto simp: topic_matches_def token_matches_def topic_at_def)
  show ?thesis
    unfolding meaning r(4)
    by (rule extends_append [OF transfer_single_arm_meaning [OF r(1)]
        extends_append [OF uri_arm_meaning [OF r(2)] others_arm_meaning [OF r(3)]]])
qed

lemma topic_clauses_meaning:
  assumes "topic_clauses kc tokenID i subs args = (cs, args')" and "i + length subs \<le> 4"
  shows "\<exists>added. args' = args @ added \<and> (\<forall>c \<in> set cs. columns_exist c) \<and>
    (\<forall>fin. (\<forall>c \<in> set cs. eval_cond (args' @ fin) (LogRow l) c) \<longleftrightarrow>
       (\<forall>k < length subs. topic_matches (subs ! k) (i + k) l) \<and>
       (i \<noteq> 0 \<or> tokenID = None \<or> subs = [] \<or> hd subs = [] \<or> token_matches kc (the tokenID) l))"
  using assms
proof (induction kc tokenID i subs args arbitrary: cs args' rule: topic_clauses.induct)
  case (1 kc tokenID i args)
  then show ?case by simp
next
  case (2 kc tokenID i sub subs args)
  have split_all: "(\<forall>k < length (sub # subs). topic_matches ((sub # subs) ! k) (i + k) l) \<longleftrightarrow>
      topic_matches sub i l \<and> (\<forall>k < length subs. topic_matches (subs ! k) (i + 1 + k) l)"
    by (simp add: All_less_Suc2)
  have short: "i + 1 + length subs \<le> 4" using "2.prems" by simp
  consider (wild) "sub = []" | (token) "sub \<noteq> []" "i = 0 \<and> tokenID \<noteq> None"
    | (plain) "sub \<noteq> []" "\<not> (i = 0 \<and> tokenID \<noteq> None)" by blast
  then show ?case
  proof cases
    case wild
    with 2 show ?thesis unfolding split_all by (auto simp: topic_matches_def)
  next
    case token
    obtain arms args1 where arms: "token_arms kc sub (the tokenID) args = (arms, args1)" by fastforce
    obtain rest args2 where rest: "topic_clauses kc tokenID (i + 1) subs args1 = (rest, args2)" by fastforce
    from token_arms_meaning [OF arms token(1)] arms_not_empty [OF token(1) arms]
    obtain a1 where a1: "args1 = args @ a1" "arms \<noteq> []" "\<forall>c \<in> set arms. columns_exist c"
      and sem1: "\<And>fin. (\<exists>c \<in> set arms. eval_cond (args1 @ fin) (LogRow l) c) \<longleftrightarrow>
        topic_matches sub 0 l \<and> token_matches kc (the tokenID) l"
      unfolding extends_def by blast
    from "2.IH"(2) [OF token arms [symmetric] refl rest short] obtain a2 where a2: "args2 = args1 @ a2"
        "\<forall>c \<in> set rest. columns_exist c"
      and sem2: "\<And>fin. (\<forall>c \<in> set rest. eval_cond (args2 @ fin) (LogRow l) c) \<longleftrightarrow>
        (\<forall>k < length subs. topic_matches (subs ! k) (i + 1 + k) l)" by auto
    have res: "cs = AnyOf arms # rest" "args' = args2"
      using "2.prems"(1) token arms rest a1(2) by auto
    show ?thesis
      unfolding split_all using a1 a2 sem1 [of "a2 @ _"] sem2 token res by auto
  next
    case plain
    let ?args1 = "args @ [BytesListArg (map hash_bytes sub)]"
    obtain rest args2 where rest: "topic_clauses kc tokenID (i + 1) subs ?args1 = (rest, args2)" by fastforce
    from "2.IH"(3) [OF plain refl, unfolded arg_push_def, OF refl rest short] obtain a2 where a2: "args2 = ?args1 @ a2"
        "\<forall>c \<in> set rest. columns_exist c"
      and sem2: "\<And>fin. (\<forall>c \<in> set rest. eval_cond (args2 @ fin) (LogRow l) c) \<longleftrightarrow>
        (\<forall>k < length subs. topic_matches (subs ! k) (i + 1 + k) l)" by auto
    have res: "cs = TopicAny i (length args + 1) # rest" "args' = args2"
      using "2.prems"(1) plain rest by (auto simp: arg_push_def)
    have "i < 4" using short by simp
    then show ?thesis
      unfolding split_all using a2 sem2 plain res
      by (auto simp: is_any_topic column_LogRow topic_matches_def)
  qed
qed

section \<open>Rows read back\<close>

lemma LogRow_columns [simp]:
  "r_topic1 (LogRow l) = topic_at l 1" "r_topic2 (LogRow l) = topic_at l 2" "r_topic3 (LogRow l) = topic_at l 3"
  "r_address (LogRow l) = address_bytes (logAddress l)" "r_tx_hash (LogRow l) = hash_bytes (logTxHash l)"
  "r_tx_index (LogRow l) = int32 (logTxIndex l)" "b_ts (BlockRow b) = int64 (blkTimestamp b)"
  by (simp_all add: LogRow_def BlockRow_def Let_def)

lemma leading_topics_LogRow:
  assumes "length (logTopics l) \<le> 4"
  shows "leading_topics [topic_at l 0, topic_at l 1, topic_at l 2, topic_at l 3] = logTopics l"
proof (cases "logTopics l")
  case (Cons a as)
  with assms show ?thesis
    by (cases as; cases "tl as"; cases "tl (tl as)") (auto simp: topic_at_def)
qed (simp add: topic_at_def)

text \<open>A log as the reader serves it: under the metadata of its block row.\<close>

definition served :: "block \<Rightarrow> log \<Rightarrow> log" where
  "served b l = l\<lparr>logData := Some (case logData l of None \<Rightarrow> [] | Some d \<Rightarrow> d), logBlockHash := blkHash b,
     logBlockTimestamp := blkTimestamp b, logRemoved := False\<rparr>"

lemma int32_back: "unat w < 2 ^ 31 \<Longrightarrow> uint64 (int32 w) = w"
  by (simp add: int32_small uint64_def)

lemma scanLog_LogRow:
  assumes "wf_log l"
  shows "scanLog (LogRow l, BlockRow b) = served b l"
proof -
  have "leading_topics [topic_at l 0, topic_at l 1, topic_at l 2, topic_at l 3] = logTopics l"
    using assms by (intro leading_topics_LogRow) (simp add: wf_log_def)
  moreover have "uint64 (int32 (logIndex l)) = logIndex l" "uint64 (int32 (logTxIndex l)) = logTxIndex l"
    using assms by (simp_all add: wf_log_def int32_back)
  ultimately show ?thesis
    by (simp add: scanLog_def served_def r_data_LogRow del: leading_topics.simps)
qed

lemma log_matches_served [simp]: "log_matches kc q (served b l) = log_matches kc q l"
  by (simp add: log_matches_def served_def topic_matches_def token_matches_def split: option.splits list.splits)

section \<open>The statement\<close>

definition query_ok :: "query_filter \<Rightarrow> bool" where
  "query_ok q \<longleftrightarrow> fits_int64 (FromBlock q) \<and> fits_int64 (ToBlock q) \<and> length (QTopics q) \<le> 4"

lemma block_between:
  "wf_log l \<Longrightarrow> fits_int64 a \<Longrightarrow> fits_int64 b \<Longrightarrow>
     int64 a \<le> int64 (logBlockNumber l) \<and> int64 (logBlockNumber l) \<le> int64 b \<longleftrightarrow>
     a \<le> logBlockNumber l \<and> logBlockNumber l \<le> b"
  by (simp add: wf_log_def int64_le_iff)

text \<open>The clauses before those of the topics.\<close>

definition head_clauses :: "query_filter \<Rightarrow> cond list \<times> arg list" where
  "head_clauses q =
     (if Addresses q \<noteq> []
      then ([BlockBetween 1 2, AddressAny 3],
            [IntArg (int64 (FromBlock q)), IntArg (int64 (ToBlock q)), BytesListArg (map address_bytes (Addresses q))])
      else ([BlockBetween 1 2], [IntArg (int64 (FromBlock q)), IntArg (int64 (ToBlock q))]))"

text \<open>\<open>int_suc\<close> is the addition of 64-bit integers.\<close>

lemma int_suc_wraps:
  assumes "- (2 ^ 63) \<le> n" "n < 2 ^ 63"
  shows "int_suc n = int64 (uint64 (n + 1))"
proof (cases "n < 2 ^ 63 - 1")
  case True
  then have "signed_take_bit 63 (n + 1) = n + 1"
    using assms by (subst signed_take_bit_int_eq_self_iff) simp
  then show ?thesis using True unfolding int64_def uint64_def sint_sbintrunc' by (simp add: int_suc_def)
next
  case False
  then have "n + 1 = 2 ^ 63" using assms by simp
  moreover have "int64 (uint64 (2 ^ 63)) = - (2 ^ 63)" by (simp add: int64_def uint64_def)
  ultimately show ?thesis using False by (simp add: int_suc_def)
qed

lemma buildFilter_parts:
  "buildFilter kc q limit =
     (let (cs, args) = topic_clauses kc (ERC1155ID q) 0 (QTopics q) (snd (head_clauses q))
      in (\<lparr>sql_where = fst (head_clauses q) @ cs, sql_limit = (if limit > 0 then Some (int_suc limit) else None)\<rparr>, args))"
  by (simp add: buildFilter_def head_clauses_def arg_push_def Let_def split: prod.splits)

lemma head_clauses_meaning:
  assumes "query_ok q" and "wf_log l"
  shows "(\<forall>c \<in> set (fst (head_clauses q)). eval_cond (snd (head_clauses q) @ fin) (LogRow l) c) \<longleftrightarrow>
    FromBlock q \<le> logBlockNumber l \<and> logBlockNumber l \<le> ToBlock q \<and>
    (Addresses q = [] \<or> logAddress l \<in> set (Addresses q))"
  using assms block_between [of l "FromBlock q" "ToBlock q"]
  by (auto simp: head_clauses_def query_ok_def param_def is_any_def)

lemma buildFilter_meaning:
  assumes "buildFilter kc q limit = (s, args)" and ok: "query_ok q"
  shows "\<forall>c \<in> set (sql_where s). columns_exist c"
    and "wf_log l \<Longrightarrow> (\<forall>c \<in> set (sql_where s). eval_cond args (LogRow l) c) = log_matches kc q l"
    and "sql_limit s = (if limit > 0 then Some (int_suc limit) else None)"
proof -
  obtain cs where cs: "topic_clauses kc (ERC1155ID q) 0 (QTopics q) (snd (head_clauses q)) = (cs, args)"
    and s: "sql_where s = fst (head_clauses q) @ cs" "sql_limit s = (if limit > 0 then Some (int_suc limit) else None)"
    using assms(1) by (auto simp: buildFilter_parts split: prod.splits)
  have short: "0 + length (QTopics q) \<le> 4" using ok by (simp add: query_ok_def)
  have "\<forall>c \<in> set cs. columns_exist c" using topic_clauses_meaning [OF cs short] by blast
  then show "\<forall>c \<in> set (sql_where s). columns_exist c" by (auto simp: s head_clauses_def)
  show "sql_limit s = (if limit > 0 then Some (int_suc limit) else None)" by (rule s(2))
  assume wf: "wf_log l"
  from topic_clauses_meaning [OF cs short, of l] obtain added where added: "args = snd (head_clauses q) @ added"
    and sem: "(\<forall>c \<in> set cs. eval_cond (args @ []) (LogRow l) c) \<longleftrightarrow>
       (\<forall>k < length (QTopics q). topic_matches (QTopics q ! k) (0 + k) l) \<and>
       (0 \<noteq> (0 :: nat) \<or> ERC1155ID q = None \<or> QTopics q = [] \<or> hd (QTopics q) = [] \<or> token_matches kc (the (ERC1155ID q)) l)"
    by blast
  show "(\<forall>c \<in> set (sql_where s). eval_cond args (LogRow l) c) = log_matches kc q l"
    using sem head_clauses_meaning [OF ok wf, of added]
    by (auto simp: s added log_matches_def ball_Un split: option.splits)
qed

section \<open>What the warehouse holds, as logs\<close>

text \<open>The stored logs in chain order, each under the metadata of its block row.\<close>

definition stored_logs :: "tables \<Rightarrow> log list" where
  "stored_logs t = map scanLog (sort_key (\<lambda>(r, b). row_key r) (joined t))"

lemma joined_rows:
  assumes "warehouse_ok t" and "rb \<in> set (joined t)"
  obtains l k where "rb = (LogRow l, BlockRow k)" "wf_log l" "LogRow l \<in> set (eth_logs t)" "BlockRow k \<in> set (eth_blocks t)"
    "blkNumber k = logBlockNumber l" "scanLog rb = served k l"
proof -
  obtain r b where rb: "rb = (r, b)" "r \<in> set (eth_logs t)" "b \<in> set (eth_blocks t)" "b_number b = r_block_number r"
    using assms(2) by (auto simp: joined_def)
  then have "stored_log r" "stored_block b"
    using assms(1) by (simp_all add: warehouse_ok_def)
  then obtain l k where "r = LogRow l" "wf_log l" "b = BlockRow k"
    by (auto simp: stored_log_def stored_block_def)
  with rb that show thesis by (simp add: scanLog_LogRow)
qed

lemma select_logs_meaning:
  assumes ok: "warehouse_ok t" and q: "query_ok q" and b: "buildFilter kc q limit = (s, args)"
  shows "if 2 ^ 63 - 1 \<le> limit then select_logs s args t = Inl (DbError ''LIMIT must not be negative'')
    else \<exists>rows. select_logs s args t = Inr (rows, t) \<and>
      map scanLog rows = (if limit > 0 then take (nat limit + 1) else id) (filter (log_matches kc q) (stored_logs t))"
proof -
  note m = buildFilter_meaning [OF b q]
  let ?sel = "\<lambda>(r, b :: block_row). \<forall>c \<in> set (sql_where s). eval_cond args r c"
  have "?sel rb = log_matches kc q (scanLog rb)" if rb: "rb \<in> set (joined t)" for rb
    using rb by (rule joined_rows [OF ok]) (simp add: m(2))
  then have "filter ?sel (joined t) = filter (\<lambda>rb. log_matches kc q (scanLog rb)) (joined t)"
    by (rule filter_cong [OF refl])
  then have rows: "map scanLog (sort_key (\<lambda>(r, b). row_key r) (filter ?sel (joined t))) = filter (log_matches kc q) (stored_logs t)"
    by (simp add: stored_logs_def filter_map comp_def filter_sort)
  have "nat (int_suc limit) = nat limit + 1" "\<not> int_suc limit < 0" if "0 < limit" "limit < 2 ^ 63 - 1"
    using that by (simp_all add: int_suc_def nat_add_distrib)
  then show ?thesis
    using m(1,3) rows by (auto simp: select_logs_def int_suc_def simp flip: take_map)
qed

lemma collect_rows_result:
  assumes "limit > 0 \<Longrightarrow> int (length acc) \<le> limit"
  shows "collect_rows limit rows acc =
    (if limit > 0 \<and> int (length acc + length rows) > limit
     then Inl (Wrapf '''' (Sentinel ErrTooManyResults) ('': more than '' @ show_int limit))
     else Inr (acc @ map scanLog rows))"
  using assms by (induction rows arbitrary: acc) (auto simp: Let_def)

text \<open>
  The answer to a query: all matching logs, or the refusal when they exceed the limit. With the
  greatest \<open>int\<close> as the limit the statement itself is refused.
\<close>

definition answer :: "keccak \<Rightarrow> query_filter \<Rightarrow> int \<Rightarrow> tables \<Rightarrow> err + log list" where
  "answer kc q limit t =
     (let logs = filter (log_matches kc q) (stored_logs t) in
      if 2 ^ 63 - 1 \<le> limit then Inl (Wrapf ''query logs: '' (DbError ''LIMIT must not be negative'') '''')
      else if limit > 0 \<and> int (length logs) > limit
      then Inl (Wrapf '''' (Sentinel ErrTooManyResults) ('': more than '' @ show_int limit))
      else Inr logs)"

lemma collect_selected:
  assumes "map scanLog rows = (if limit > 0 then take (nat limit + 1) else id) logs"
  shows "collect_rows limit rows [] =
    (if limit > 0 \<and> int (length logs) > limit
     then Inl (Wrapf '''' (Sentinel ErrTooManyResults) ('': more than '' @ show_int limit)) else Inr logs)"
proof -
  have "length rows = length ((if limit > 0 then take (nat limit + 1) else id) logs)"
    using arg_cong [OF assms, of length] by simp
  then show ?thesis
    using assms by (subst collect_rows_result) (auto split: if_splits)
qed

lemma triple_exec_exact:
  assumes "f t0 = Inr (x0, t0)"
  shows "triple (\<lambda>s. tab s = t0) (exec f) (\<lambda>x s. x = x0 \<and> tab s = t0) (\<lambda>_ s. tab s = t0 \<and> \<not> healthy s)"
  using assms by (auto simp: triple_def exec_def Let_def healthy_def split: option.splits fault.splits)

lemma filterLogs_triple:
  assumes "warehouse_ok t0" and "query_ok q"
  shows "triple (\<lambda>s. tab s = t0) (filterLogs kc q limit)
     (\<lambda>logs s. tab s = t0 \<and> answer kc q limit t0 = Inr logs)
     (\<lambda>e s. tab s = t0 \<and> (healthy s \<longrightarrow> answer kc q limit t0 = Inl e))"
proof -
  obtain s args where b: "buildFilter kc q limit = (s, args)" by fastforce
  note meaning = select_logs_meaning [OF assms b]
  let ?E = "\<lambda>e s. tab s = t0 \<and> (healthy s \<longrightarrow> answer kc q limit t0 = Inl e)"
  show ?thesis
  proof (cases "2 ^ 63 - 1 \<le> limit")
    case True
    then have "select_logs s args t0 = Inl (DbError ''LIMIT must not be negative'')" using meaning by simp
    then have sel: "triple (\<lambda>s. tab s = t0) (onErr (\<lambda>e. Wrapf ''query logs: '' e '''') (exec (select_logs s args))) (\<lambda>_ _. False) ?E"
      using True by (auto simp: triple_def exec_def onErr_def Let_def healthy_def answer_def split: option.splits fault.splits)
    show ?thesis
      unfolding filterLogs_def b Let_def split
      by (rule triple_andThen [OF sel]) (simp add: triple_def)
  next
    case False
    then obtain rows where rows: "select_logs s args t0 = Inr (rows, t0)" "collect_rows limit rows [] = answer kc q limit t0"
      using meaning collect_selected unfolding answer_def Let_def by (metis (no_types, lifting))
    have sel: "triple (\<lambda>s. tab s = t0) (onErr f (exec (select_logs s args))) (\<lambda>xs s. xs = rows \<and> tab s = t0) ?E" for f
      by (rule triple_onErr, rule triple_conseq [OF triple_exec_exact [of "select_logs s args" t0, OF rows(1)]]) auto
    have col: "triple (\<lambda>s. xs = rows \<and> tab s = t0) (lift (collect_rows limit xs []))
        (\<lambda>logs s. tab s = t0 \<and> answer kc q limit t0 = Inr logs) ?E" for xs
      by (auto simp: triple_def lift_def throw_def ret_def rows(2) split: sum.splits)
    have fin: "triple (\<lambda>s. tab s = t0 \<and> A) (onErr f (query (\<lambda>_. ()))) (\<lambda>_ s. tab s = t0 \<and> A) ?E" for A f
      by (auto simp: triple_def query_def exec_def onErr_def Let_def healthy_def split: option.splits fault.splits)
    show ?thesis
      unfolding filterLogs_def b Let_def split
      by (rule triple_andThen [OF sel] triple_andThen [OF col] triple_andThen [OF fin] triple_ret)+ simp
  qed
qed

lemma framed_lift [framed_rules]: "framed (lift r)"
  by (cases r) (auto simp: lift_def framed_ret framed_throw)

lemma framed_filterLogs [framed_rules]: "framed (filterLogs kc q limit)"
  by (auto simp: filterLogs_def Let_def split: prod.splits intro!: framed_rules)

lemma healthy_framed: "framed m \<Longrightarrow> m s = (r, t) \<Longrightarrow> healthy t = healthy s"
  by (simp add: framed_def healthy_def)

text \<open>
  C30. \<open>FilterLogs\<close> is exact and never partial: an answer is the list of all stored logs that
  match the filter under go-ethereum's rules, in chain order, and no longer than the limit;
  on a healthy connection the only refusal is \<open>ErrTooManyResults\<close>, when there are more (with the
  greatest \<open>int\<close> as the limit, the printed \<open>LIMIT\<close> wraps to a negative number and the database refuses
  the statement). The tables are not changed.
\<close>

theorem filterLogs_exact:
  assumes "warehouse_ok (tab s)" and "query_ok q"
  shows "case filterLogs kc q limit s of
      (Inr logs, t) \<Rightarrow> tab t = tab s \<and> logs = filter (log_matches kc q) (stored_logs (tab s)) \<and>
        (0 < limit \<longrightarrow> int (length logs) \<le> limit)
    | (Inl e, t) \<Rightarrow> tab t = tab s \<and>
        (healthy s \<longrightarrow> 2 ^ 63 - 1 \<le> limit \<or> errors_Is e ErrTooManyResults \<and> 0 < limit \<and>
           limit < int (length (filter (log_matches kc q) (stored_logs (tab s)))))"
proof -
  obtain r t where run: "filterLogs kc q limit s = (r, t)" by fastforce
  have h: "healthy t = healthy s" by (rule healthy_framed [OF framed_filterLogs run])
  note tr = filterLogs_triple [OF assms, of kc limit]
  show ?thesis
  proof (cases r)
    case (Inl e)
    then show ?thesis
      using triple_error [OF tr, of s e t] run h by (auto simp: answer_def Let_def split: if_splits)
  next
    case (Inr logs)
    then show ?thesis
      using triple_value [OF tr, of s logs t] run by (auto simp: answer_def Let_def split: if_splits)
  qed
qed

section \<open>The logs are in chain order\<close>

lemma joined_distinct:
  assumes "warehouse_ok t"
  shows "distinct (map (row_key \<circ> fst) (joined t))"
proof -
  have one: "length (filter (\<lambda>b. b_number b = n) (eth_blocks t)) \<le> 1" for n
  proof -
    have "distinct (map b_number (filter (\<lambda>b. b_number b = n) (eth_blocks t)))"
      using assms by (simp add: warehouse_ok_def distinct_map_filter)
    moreover have "set (map b_number (filter (\<lambda>b. b_number b = n) (eth_blocks t))) \<subseteq> {n}" by auto
    ultimately show ?thesis
      using card_mono [of "{n}"] distinct_card by (metis One_nat_def card.empty card_insert_disjoint empty_iff finite.emptyI finite_insert length_map)
  qed
  have "distinct (map (row_key \<circ> fst) (concat (map (\<lambda>r. map (Pair r) (filter (\<lambda>b. b_number b = r_block_number r) (eth_blocks t))) rs)))"
    if "distinct (map row_key rs)" for rs
    using that
  proof (induction rs)
    case (Cons r rs)
    have "distinct (map (row_key \<circ> fst \<circ> Pair r) (filter (\<lambda>b. b_number b = r_block_number r) (eth_blocks t)))"
      using one [of "r_block_number r"] by (cases "filter (\<lambda>b. b_number b = r_block_number r) (eth_blocks t)") (auto simp: neq_Nil_conv Suc_le_eq)
    with Cons show ?case by (auto simp: comp_def image_iff)
  qed simp
  with assms show ?thesis by (simp add: joined_def warehouse_ok_def)
qed

lemma row_key_order:
  assumes "wf_log l" "wf_log l'"
  shows "row_key (LogRow l) < row_key (LogRow l') \<longleftrightarrow> log_key l < log_key l'"
  using assms by (auto simp: row_key_LogRow log_key_def less_prod_def wf_log_def int64_unat word_less_nat_alt
      word_le_nat_alt word_unat_eq_iff simp del: of_nat_unat)

lemma joined_key:
  assumes "warehouse_ok t" and "rb \<in> set (joined t)"
  shows "\<exists>l. row_key (fst rb) = row_key (LogRow l) \<and> wf_log l \<and> log_key (scanLog rb) = log_key l"
  by (rule joined_rows [OF assms]) (auto simp: log_key_def served_def)

lemma stored_logs_sorted:
  assumes "warehouse_ok t"
  shows "sorted_wrt (<) (map log_key (stored_logs t))"
proof -
  let ?key = "row_key \<circ> fst"
  let ?rows = "sort_key ?key (joined t)"
  have "sorted_wrt (<) (map ?key ?rows)"
  proof -
    have "mset (map ?key ?rows) = mset (map ?key (joined t))" by simp
    then have "distinct (map ?key ?rows)"
      using joined_distinct [OF assms] mset_eq_imp_distinct_iff by blast
    then show ?thesis by (simp only: strict_sorted_iff sorted_sort_key simp_thms)
  qed
  moreover have "?key x < ?key y \<longleftrightarrow> log_key (scanLog x) < log_key (scanLog y)"
    if x: "x \<in> set (joined t)" and y: "y \<in> set (joined t)" for x y
  proof -
    obtain l l' where "row_key (fst x) = row_key (LogRow l)" "wf_log l" "log_key (scanLog x) = log_key l"
      "row_key (fst y) = row_key (LogRow l')" "wf_log l'" "log_key (scanLog y) = log_key l'"
      using joined_key [OF assms x] joined_key [OF assms y] by blast
    then show ?thesis by (simp add: row_key_order)
  qed
  ultimately have "sorted_wrt (\<lambda>x y. log_key (scanLog x) < log_key (scanLog y)) ?rows"
    unfolding sorted_wrt_map by (elim sorted_wrt_mono_rel [rotated]) simp
  then show ?thesis
    by (simp add: stored_logs_def sorted_wrt_map comp_def case_prod_unfold)
qed

text \<open>
  The logs the warehouse holds come in strictly increasing order of block number and log
  index, so an answer (a sublist of them) is in chain order and lists no log twice.
\<close>

theorem stored_logs_chain_order:
  assumes "warehouse_ok t"
  shows "sorted_wrt (<) (map log_key (stored_logs t))"
  by (rule stored_logs_sorted [OF assms])

section \<open>What was written is what is read\<close>

lemma set_joined: "set (joined t) = {(r, b). r \<in> set (eth_logs t) \<and> b \<in> set (eth_blocks t) \<and> b_number b = r_block_number r}"
  by (auto simp: joined_def)

lemma batch_covers_block:
  assumes "batch_covers from to blocks logs" and "b \<in> set blocks"
  shows "int64 from \<le> int64 (blkNumber b)" "int64 (blkNumber b) \<le> int64 to"
proof -
  have "from \<le> blkNumber b" "blkNumber b \<le> to" "fits_int64 to"
    using assms plausible_fits by (auto simp: batch_covers_def)
  then show "int64 from \<le> int64 (blkNumber b)" "int64 (blkNumber b) \<le> int64 to"
    using fits_int64_mono int64_le_iff by (metis order_trans)+
qed

lemma joined_written:
  assumes "batch_covers from to blocks logs" and "write_committed from to blocks logs t0 t"
    and "logsMatchBlocks logs blocks = None"
  shows "set (joined t) =
    {(r, b) \<in> set (joined t0). \<not> (int64 from \<le> r_block_number r \<and> r_block_number r \<le> int64 to)} \<union>
    {(LogRow l, BlockRow b) | l b. l \<in> set logs \<and> b \<in> set blocks \<and> blkNumber b = logBlockNumber l}"
proof -
  have new: "int64 from \<le> int64 (logBlockNumber l) \<and> int64 (logBlockNumber l) \<le> int64 to" if "l \<in> set logs" for l
    using batch_log_block [OF assms(3) that] batch_covers_block [OF assms(1)] by metis
  note blk = batch_covers_block [OF assms(1)]
  note f = write_committed_fields [OF assms(2)]
  show ?thesis
    unfolding set_joined f(1,2) by (auto dest: blk new)
qed

text \<open>
  C29. Reading back what was written: after \<open>WriteRange\<close> the warehouse holds exactly the logs
  of the batch, each under its block's hash and timestamp, and every log it held before
  outside the range; nothing else in the range survives, and nothing outside it is touched.
\<close>

theorem WriteRange_read_back:
  assumes ok: "warehouse_ok (tab s)" and b: "batch_covers from to blocks logs"
    and run: "WriteRange from to blocks logs s = (Inr (), t)"
  shows "set (stored_logs (tab t)) =
    {l \<in> set (stored_logs (tab s)). \<not> (from \<le> logBlockNumber l \<and> logBlockNumber l \<le> to)} \<union>
    {served k l | k l. l \<in> set logs \<and> k \<in> set blocks \<and> blkNumber k = logBlockNumber l \<and> blkHash k = logBlockHash l}"
proof -
  have w: "write_committed from to blocks logs (tab s) (tab t)" and m: "logsMatchBlocks logs blocks = None"
    using WriteRange_commits [of "from" to blocks logs s] run by (auto simp: all_or_nothing_def elim: WriteRange_cases)
  have old: "(\<not> (int64 from \<le> r_block_number r \<and> r_block_number r \<le> int64 to)) \<longleftrightarrow>
      \<not> (from \<le> logBlockNumber (scanLog (r, k)) \<and> logBlockNumber (scanLog (r, k)) \<le> to)"
    if "(r, k) \<in> set (joined (tab s))" for r k
  proof (rule joined_rows [OF ok that])
    fix l k'
    assume "(r, k) = (LogRow l, BlockRow k')" "wf_log l" "scanLog (r, k) = served k' l"
    moreover have "fits_int64 from" "fits_int64 to"
      using b plausible_fits fits_int64_mono by (auto simp: batch_covers_def)
    ultimately show ?thesis by (simp add: served_def wf_log_def int64_le_iff)
  qed
  have new: "scanLog (LogRow l, BlockRow k) = served k l" if "l \<in> set logs" for l k
    using b that by (simp add: batch_covers_def scanLog_LogRow)
  have hash: "blkHash k = logBlockHash l" if l: "l \<in> set logs" and k: "k \<in> set blocks" "blkNumber k = logBlockNumber l" for l k
  proof -
    obtain k' where k': "k' \<in> set blocks" "blkNumber k' = logBlockNumber l" "blkHash k' = logBlockHash l"
      using batch_log_block [OF m l] by blast
    have "distinct (map b_number (map BlockRow blocks))"
      using w by (simp add: write_committed_def write_committed_fields(1) [OF w])
    then have "k = k'"
      using k k'(1,2) by (simp add: distinct_map inj_on_def)
    with k'(3) show ?thesis by simp
  qed
  have all: "set (stored_logs x) = scanLog ` set (joined x)" for x
    by (simp add: stored_logs_def)
  show ?thesis
    unfolding all joined_written [OF b w m] image_Un
  proof (intro arg_cong2 [where f = "(\<union>)"])
    show "scanLog ` {(r, b) \<in> set (joined (tab s)). \<not> (int64 from \<le> r_block_number r \<and> r_block_number r \<le> int64 to)} =
        {l \<in> scanLog ` set (joined (tab s)). \<not> (from \<le> logBlockNumber l \<and> logBlockNumber l \<le> to)}"
      using old by (auto simp del: split_paired_All split_paired_Ex)
    show "scanLog ` {(LogRow l, BlockRow b) | l b. l \<in> set logs \<and> b \<in> set blocks \<and> blkNumber b = logBlockNumber l} =
        {served k l | k l. l \<in> set logs \<and> k \<in> set blocks \<and> blkNumber k = logBlockNumber l \<and> blkHash k = logBlockHash l}"
      (is "_ ` ?A = ?B")
    proof (intro equalityI subsetI)
      fix x assume "x \<in> scanLog ` ?A"
      then obtain l k where "l \<in> set logs" "k \<in> set blocks" "blkNumber k = logBlockNumber l" "x = scanLog (LogRow l, BlockRow k)"
        by blast
      moreover from this have "x = served k l" "blkHash k = logBlockHash l" using new hash by simp_all
      ultimately show "x \<in> ?B" by blast
    next
      fix x assume "x \<in> ?B"
      then obtain l k where "l \<in> set logs" "k \<in> set blocks" "blkNumber k = logBlockNumber l" "x = scanLog (LogRow l, BlockRow k)"
        using new by auto
      then show "x \<in> scanLog ` ?A" by blast
    qed
  qed
qed

section \<open>The text of the statement carries no request data\<close>

text \<open>What of a request decides the text: which selectors are present, not their values.\<close>

definition sub_shape :: "keccak \<Rightarrow> hash list \<Rightarrow> bool \<times> bool \<times> bool \<times> bool" where
  "sub_shape kc sub = (sub = [], TransferSingle kc \<in> set sub, \<exists>h \<in> set sub. h \<noteq> TransferSingle kc \<and> h = URI kc,
     \<exists>h \<in> set sub. h \<noteq> TransferSingle kc \<and> h \<noteq> URI kc)"

definition query_shape :: "keccak \<Rightarrow> query_filter \<Rightarrow> bool \<times> bool \<times> (bool \<times> bool \<times> bool \<times> bool) list" where
  "query_shape kc q = (Addresses q = [], ERC1155ID q = None, map (sub_shape kc) (QTopics q))"

definition same_text :: "cond list \<times> arg list \<Rightarrow> cond list \<times> arg list \<Rightarrow> bool" where
  "same_text x y \<longleftrightarrow> fst x = fst y \<and> length (snd x) = length (snd y)"

lemma token_arms_text:
  assumes "sub_shape kc sub = sub_shape kc sub'" and "length args = length args'"
  shows "same_text (token_arms kc sub i args) (token_arms kc sub' i' args')"
proof -
  have others: "map hash_bytes (filter (\<lambda>h. h \<noteq> TransferSingle kc \<and> h \<noteq> URI kc) sub) = [] \<longleftrightarrow>
      \<not> (\<exists>h \<in> set sub. h \<noteq> TransferSingle kc \<and> h \<noteq> URI kc)" for sub
    by (auto simp: filter_empty_conv)
  have ts: "same_text (transfer_single_arm kc sub i args) (transfer_single_arm kc sub' i' args')"
    if "length args = length args'" for args args'
    using that assms(1) by (auto simp: same_text_def transfer_single_arm_def sub_shape_def arg_push_def)
  have uri: "same_text (uri_arm kc sub i args) (uri_arm kc sub' i' args')"
    if "length args = length args'" for args args'
    using that assms(1) unfolding same_text_def uri_arm_def sub_shape_def
    by (simp add: arg_push_def)
  have rest: "same_text (others_arm kc sub args) (others_arm kc sub' args')"
    if "length args = length args'" for args args'
    using that assms(1) unfolding same_text_def others_arm_def sub_shape_def Let_def others
    by (simp add: arg_push_def)
  show ?thesis
    using ts [OF assms(2)] uri rest
    unfolding token_arms_def same_text_def Let_def by (auto split: prod.splits) (metis fst_conv snd_conv)+
qed

lemma topic_clauses_text:
  assumes "map (sub_shape kc) subs = map (sub_shape kc) subs'" and "length args = length args'"
    and "tokenID = None \<longleftrightarrow> tokenID' = None"
  shows "same_text (topic_clauses kc tokenID i subs args) (topic_clauses kc tokenID' i subs' args')"
  using assms(1,2)
proof (induction subs arbitrary: subs' i args args')
  case Nil
  then show ?case by (simp add: same_text_def)
next
  case (Cons sub subs)
  then obtain sub' rest' where s: "subs' = sub' # rest'" "sub_shape kc sub = sub_shape kc sub'"
    "map (sub_shape kc) subs = map (sub_shape kc) rest'" by auto
  have IH: "same_text (topic_clauses kc tokenID (i + 1) subs a) (topic_clauses kc tokenID' (i + 1) rest' a')"
    if "length a = length a'" for a a'
    by (rule Cons.IH [OF s(3) that])
  have empty: "sub = [] \<longleftrightarrow> sub' = []" using s(2) by (simp add: sub_shape_def)
  consider (wild) "sub = []" | (token) "sub \<noteq> []" "i = 0 \<and> tokenID \<noteq> None"
    | (plain) "sub \<noteq> []" "\<not> (i = 0 \<and> tokenID \<noteq> None)" by blast
  then show ?case
  proof cases
    case wild
    then show ?thesis using IH [OF Cons.prems(2)] empty s(1) by simp
  next
    case token
    note arms = token_arms_text [OF s(2) Cons.prems(2), of "the tokenID" "the tokenID'"]
    from arms IH [of "snd (token_arms kc sub (the tokenID) args)" "snd (token_arms kc sub' (the tokenID') args')"]
    show ?thesis
      using token empty s(1) assms(3) by (auto simp: same_text_def case_prod_unfold Let_def)
  next
    case plain
    from IH [of "args @ [BytesListArg (map hash_bytes sub)]" "args' @ [BytesListArg (map hash_bytes sub')]"] Cons.prems(2)
    show ?thesis
      using plain empty s(1) assms(3) by (auto simp: same_text_def arg_push_def case_prod_unfold Let_def)
  qed
qed

text \<open>
  C36. User data never enters the SQL text: two requests with the same selectors present are
  rendered to the same statement, whatever their addresses, topics, token id and block range.
\<close>

theorem buildFilter_text_from_shape:
  assumes "query_shape kc q = query_shape kc q'"
  shows "fst (buildFilter kc q limit) = fst (buildFilter kc q' limit)"
proof -
  have head: "same_text (head_clauses q) (head_clauses q')"
    using assms by (simp add: query_shape_def same_text_def head_clauses_def)
  then have "same_text (topic_clauses kc (ERC1155ID q) 0 (QTopics q) (snd (head_clauses q)))
      (topic_clauses kc (ERC1155ID q') 0 (QTopics q') (snd (head_clauses q')))"
    using assms by (intro topic_clauses_text) (auto simp: query_shape_def same_text_def)
  with head show ?thesis
    by (simp add: buildFilter_parts same_text_def case_prod_unfold Let_def)
qed

section \<open>The sample warehouse, read\<close>

definition sample_query :: query_filter where
  "sample_query = \<lparr>FromBlock = 10, ToBlock = 11, Addresses = [0x77, 0x78], QTopics = [[0x1], [], []], ERC1155ID = None\<rparr>"

lemma sample_query_ok: "query_ok sample_query"
  by (simp add: query_ok_def sample_query_def fits_int64_def)

theorem filterLogs_exact_witness:
  "case filterLogs mainnet_keccak sample_query 10 sample_written of
      (Inr logs, t) \<Rightarrow> tab t = tab sample_written \<and>
        logs = filter (log_matches mainnet_keccak sample_query) (stored_logs (tab sample_written)) \<and>
        (0 < (10 :: int) \<longrightarrow> int (length logs) \<le> 10)
    | (Inl e, t) \<Rightarrow> tab t = tab sample_written \<and>
        (healthy sample_written \<longrightarrow> 2 ^ 63 - 1 \<le> (10 :: int) \<or> errors_Is e ErrTooManyResults \<and> 0 < (10 :: int) \<and>
           10 < int (length (filter (log_matches mainnet_keccak sample_query) (stored_logs (tab sample_written)))))"
  by (rule filterLogs_exact [OF sample_written_ok sample_query_ok])

lemma sample_stored: "stored_logs (tab sample_written) =
    [sample_log\<lparr>logData := Some [], logBlockTimestamp := 112\<rparr>]"
  by code_simp

theorem stored_logs_chain_order_witness: "sorted_wrt (<) (map log_key (stored_logs (tab sample_written)))"
  by (rule stored_logs_chain_order [OF sample_written_ok])

theorem WriteRange_read_back_witness:
  "{sample_log\<lparr>logData := Some [], logBlockTimestamp := 112\<rparr>} =
     {l \<in> set (stored_logs fresh_tables). \<not> (10 \<le> logBlockNumber l \<and> logBlockNumber l \<le> 11)} \<union>
     {served k l | k l. l \<in> set [sample_log] \<and> k \<in> set sample_blocks \<and> blkNumber k = logBlockNumber l \<and> blkHash k = logBlockHash l}"
  using WriteRange_read_back [of "connect fresh_tables" 10 11 sample_blocks "[sample_log]" sample_written]
  by (simp add: fresh_ok sample_batch sample_run sample_stored)

theorem buildFilter_text_from_shape_witness:
  "fst (buildFilter mainnet_keccak sample_query 5) =
   fst (buildFilter mainnet_keccak (sample_query\<lparr>FromBlock := 3, Addresses := [0x1234]\<rparr>) 5)"
  by (rule buildFilter_text_from_shape) (simp add: query_shape_def sample_query_def)

end
