(* ===== verification/Criteria.thy ===== *)
theory Criteria
  imports Errors
begin

text \<open>
  \<open>internal/rpcapi/criteria.go\<close>: the \<open>eth_getLogs\<close> parameter object and its decoding, with the
  error of every malformed shape.

  \<open>json.Unmarshal\<close> into the \<open>input\<close> struct runs the decoders of go-ethereum's
  \<open>common.Hash\<close> and \<open>rpc.BlockNumber\<close>: it is the argument \<open>unmarshal\<close>. \<open>hexutil.Decode\<close> is
  the argument \<open>hexd\<close>. A nil slice and an empty one are the same list: every use of them here
  is through \<open>len\<close>.
\<close>

datatype json = JNull | JString string | JArray "json list" | JOther

record input =
  inBlockHash :: "hash option"
  inFromBlock :: "int option"
  inToBlock :: "int option"
  inAddresses :: json
  inTopics :: "json list"
  inERC1155ID :: "hash option"

text \<open>
  The two bounds are the numbers behind \<open>rpc.BlockNumber\<close>, an \<open>int64\<close>; what needs their range says so
  (\<open>int64_arg\<close>).
\<close>

record FilterCriteria =
  cBlockHash :: "hash option"
  cFromBlock :: "int option"
  cToBlock :: "int option"
  cAddresses :: "address list"
  cTopics :: "hash list list"
  cERC1155ID :: "hash option"

definition maxTopics :: nat where "maxTopics = 4"
definition maxSubTopics :: nat where "maxSubTopics = 1000"

definition errInvalidTopic :: err where
  "errInvalidTopic = ErrNew ''invalid topic(s)''"

definition errExceedMaxTopics :: err where
  "errExceedMaxTopics = ErrNew ''exceed max topics''"

type_synonym hexdecode = "string \<Rightarrow> err + bytes"

definition decodeAddress :: "hexdecode \<Rightarrow> string \<Rightarrow> err + address" where
  "decodeAddress hexd s =
     (case hexd s of Inl e \<Rightarrow> Inl e
      | Inr b \<Rightarrow>
          if length b \<noteq> 20
          then Inl (ErrNew (''hex has invalid length '' @ dec (length b) @ '' after decoding; expected 20 for address''))
          else Inr (BytesToAddress b))"

definition decodeTopic :: "hexdecode \<Rightarrow> string \<Rightarrow> err + hash" where
  "decodeTopic hexd s =
     (case hexd s of Inl e \<Rightarrow> Inl e
      | Inr b \<Rightarrow>
          if length b \<noteq> 32
          then Inl (ErrNew (''hex has invalid length '' @ dec (length b) @ '' after decoding; expected 32 for topic''))
          else Inr (BytesToHash b))"

fun decode_address_list :: "hexdecode \<Rightarrow> nat \<Rightarrow> json list \<Rightarrow> address list \<Rightarrow> err + address list" where
  "decode_address_list hexd i [] acc = Inr acc"
| "decode_address_list hexd i (JString s # js) acc =
     (case decodeAddress hexd s of
        Inl e \<Rightarrow> Inl (Wrapf (''invalid address at index '' @ dec i @ '': '') e '''')
      | Inr a \<Rightarrow> decode_address_list hexd (i + 1) js (acc @ [a]))"
| "decode_address_list hexd i (j # js) acc = Inl (ErrNew (''non-string address at index '' @ dec i))"

definition decodeAddresses :: "hexdecode \<Rightarrow> json \<Rightarrow> err + address list" where
  "decodeAddresses hexd raw =
     (case raw of
        JNull \<Rightarrow> Inr []
      | JArray js \<Rightarrow> decode_address_list hexd 0 js []
      | JString s \<Rightarrow> (case decodeAddress hexd s of Inl e \<Rightarrow> Inl (Wrapf ''invalid address: '' e '''') | Inr a \<Rightarrow> Inr [a])
      | JOther \<Rightarrow> Inl (ErrNew ''invalid addresses in query''))"

fun decode_subtopics :: "hexdecode \<Rightarrow> json list \<Rightarrow> hash list \<Rightarrow> err + hash list" where
  "decode_subtopics hexd [] acc = Inr acc"
| "decode_subtopics hexd (JNull # js) acc = Inr []"
| "decode_subtopics hexd (JString s # js) acc =
     (case decodeTopic hexd s of Inl e \<Rightarrow> Inl e | Inr h \<Rightarrow> decode_subtopics hexd js (acc @ [h]))"
| "decode_subtopics hexd (j # js) acc = Inl errInvalidTopic"

definition decodeTopicPosition :: "hexdecode \<Rightarrow> json \<Rightarrow> err + hash list" where
  "decodeTopicPosition hexd t =
     (case t of
        JNull \<Rightarrow> Inr []
      | JString s \<Rightarrow> (case decodeTopic hexd s of Inl e \<Rightarrow> Inl e | Inr h \<Rightarrow> Inr [h])
      | JArray js \<Rightarrow> if length js > maxSubTopics then Inl errExceedMaxTopics else decode_subtopics hexd js []
      | JOther \<Rightarrow> Inl errInvalidTopic)"

fun decode_positions :: "hexdecode \<Rightarrow> json list \<Rightarrow> err + hash list list" where
  "decode_positions hexd [] = Inr []"
| "decode_positions hexd (t # ts) =
     (case decodeTopicPosition hexd t of
        Inl e \<Rightarrow> Inl e
      | Inr sub \<Rightarrow> (case decode_positions hexd ts of Inl e \<Rightarrow> Inl e | Inr subs \<Rightarrow> Inr (sub # subs)))"

text \<open>\<open>UnmarshalJSON\<close> on fresh criteria; the caller drops the criteria of a failed decoding.\<close>

definition UnmarshalJSON :: "(string \<Rightarrow> err + input) \<Rightarrow> hexdecode \<Rightarrow> string \<Rightarrow> err + FilterCriteria" where
  "UnmarshalJSON unmarshal hexd data =
     (case unmarshal data of
        Inl e \<Rightarrow> Inl e
      | Inr raw \<Rightarrow>
          if inBlockHash raw \<noteq> None \<and> (inFromBlock raw \<noteq> None \<or> inToBlock raw \<noteq> None)
          then Inl (ErrNew ''cannot specify both BlockHash and FromBlock/ToBlock, choose one or the other'')
          else (case decodeAddresses hexd (inAddresses raw) of
            Inl e \<Rightarrow> Inl e
          | Inr addrs \<Rightarrow>
              if length (inTopics raw) > maxTopics then Inl errExceedMaxTopics
              else (case decode_positions hexd (inTopics raw) of
                Inl e \<Rightarrow> Inl e
              | Inr subs \<Rightarrow>
                  Inr \<lparr>cBlockHash = inBlockHash raw,
                       cFromBlock = (if inBlockHash raw = None then inFromBlock raw else None),
                       cToBlock = (if inBlockHash raw = None then inToBlock raw else None),
                       cAddresses = addrs, cTopics = subs, cERC1155ID = inERC1155ID raw\<rparr>)))"

section \<open>What decoding accepts\<close>

lemma decode_positions_length: "decode_positions hexd ts = Inr subs \<Longrightarrow> length subs = length ts"
  by (induction ts arbitrary: subs) (auto split: sum.splits)

lemma decode_address_list_Inr:
  "decode_address_list hexd i js acc = Inr out \<Longrightarrow>
     \<exists>ss as. js = map JString ss \<and> out = acc @ as \<and> map (decodeAddress hexd) ss = map Inr as"
proof (induction hexd i js acc rule: decode_address_list.induct)
  case (2 hexd i s js acc)
  then obtain a where a: "decodeAddress hexd s = Inr a" "decode_address_list hexd (i + 1) js (acc @ [a]) = Inr out"
    by (auto split: sum.splits)
  from "2.IH" [OF this] obtain ss as where "js = map JString ss" "out = (acc @ [a]) @ as"
    "map (decodeAddress hexd) ss = map Inr as" by blast
  with a(1) show ?case by (intro exI [of _ "s # ss"] exI [of _ "a # as"]) simp
qed auto

lemma decode_subtopics_Inr:
  "decode_subtopics hexd js acc = Inr out \<Longrightarrow>
     out = [] \<or> (\<exists>ss hs. js = map JString ss \<and> out = acc @ hs \<and> map (decodeTopic hexd) ss = map Inr hs)"
proof (induction hexd js acc rule: decode_subtopics.induct)
  case (3 hexd s js acc)
  then obtain h where h: "decodeTopic hexd s = Inr h" "decode_subtopics hexd js (acc @ [h]) = Inr out"
    by (auto split: sum.splits)
  from "3.IH" [OF this] show ?case
  proof (elim disjE exE conjE)
    fix ss hs
    assume "js = map JString ss" "out = (acc @ [h]) @ hs" "map (decodeTopic hexd) ss = map Inr hs"
    with h(1) show ?case by (intro disjI2 exI [of _ "s # ss"] exI [of _ "h # hs"]) simp
  qed simp
qed auto

definition criteria_ok :: "FilterCriteria \<Rightarrow> bool" where
  "criteria_ok c \<longleftrightarrow> length (cTopics c) \<le> maxTopics \<and> (\<forall>sub \<in> set (cTopics c). length sub \<le> maxSubTopics) \<and>
     (cBlockHash c = None \<or> cFromBlock c = None \<and> cToBlock c = None)"

lemma decodeTopicPosition_bound:
  assumes "decodeTopicPosition hexd t = Inr sub"
  shows "length sub \<le> maxSubTopics"
proof (cases t)
  case (JArray js)
  with assms have "length js \<le> maxSubTopics" "decode_subtopics hexd js [] = Inr sub"
    by (auto simp: decodeTopicPosition_def split: if_splits)
  with decode_subtopics_Inr [of hexd js "[]" sub] show ?thesis
    by (auto dest: map_eq_imp_length_eq)
qed (use assms in \<open>auto simp: decodeTopicPosition_def maxSubTopics_def split: sum.splits\<close>)

lemma decode_positions_bound:
  "decode_positions hexd ts = Inr subs \<Longrightarrow> \<forall>sub \<in> set subs. length sub \<le> maxSubTopics"
  by (induction ts arbitrary: subs) (auto split: sum.splits dest: decodeTopicPosition_bound)

text \<open>
  What decoding accepts is within the limits of go-ethereum: at most four topic positions
  of at most a thousand hashes, and a block hash excludes a block range.
\<close>

theorem UnmarshalJSON_within_limits:
  "case UnmarshalJSON unmarshal hexd data of Inl e \<Rightarrow> True | Inr c \<Rightarrow> criteria_ok c"
  by (auto simp: UnmarshalJSON_def criteria_ok_def split: sum.splits
      dest: decode_positions_length decode_positions_bound)

definition json_position :: "(hash \<Rightarrow> string) \<Rightarrow> hash list \<Rightarrow> json" where
  "json_position hex sub = (case sub of [] \<Rightarrow> JNull | _ \<Rightarrow> JArray (map (JString \<circ> hex) sub))"

text \<open>
  C40. Decoding loses nothing and adds nothing: from the hexadecimal texts of addresses and topics
  (for a decoder that reads them back) the criteria are those addresses and topics, in order.
\<close>

theorem UnmarshalJSON_reads_back:
  assumes "unmarshal data = Inr \<lparr>inBlockHash = None, inFromBlock = f, inToBlock = t,
      inAddresses = JArray (map (JString \<circ> hexa) addrs), inTopics = map (json_position hext) topics, inERC1155ID = i\<rparr>"
    and "\<And>a. hexd (hexa a) = Inr (address_bytes a)" and "\<And>h. hexd (hext h) = Inr (hash_bytes h)"
    and "length topics \<le> maxTopics" and "\<forall>sub \<in> set topics. length sub \<le> maxSubTopics"
  shows "UnmarshalJSON unmarshal hexd data = Inr \<lparr>cBlockHash = None, cFromBlock = f, cToBlock = t,
      cAddresses = addrs, cTopics = topics, cERC1155ID = i\<rparr>"
proof -
  have addr: "decode_address_list hexd k (map (JString \<circ> hexa) as) acc = Inr (acc @ as)" for k as acc
    by (induction as arbitrary: k acc) (simp_all add: decodeAddress_def assms(2))
  have sub: "decode_subtopics hexd (map (JString \<circ> hext) hs) acc = Inr (acc @ hs)" for hs acc
    by (induction hs arbitrary: acc) (simp_all add: decodeTopic_def assms(3))
  have pos: "decodeTopicPosition hexd (json_position hext sub) = Inr sub" if "length sub \<le> maxSubTopics" for sub
    using that sub [of sub "[]"]
    by (auto simp: decodeTopicPosition_def json_position_def split: list.splits)
  have "decode_positions hexd (map (json_position hext) ts) = Inr ts" if "\<forall>sub \<in> set ts. length sub \<le> maxSubTopics" for ts
    using that by (induction ts) (simp_all add: pos)
  with assms(5) addr [of 0 addrs "[]"] show ?thesis
    using assms(1,4) by (simp add: UnmarshalJSON_def decodeAddresses_def)
qed

text \<open>A concrete decoder for the witness: a text is the characters of the bytes.\<close>

definition raw_hex :: "bytes \<Rightarrow> string" where
  "raw_hex bs = map (\<lambda>b. char_of (unat b)) bs"

definition raw_decode :: hexdecode where
  "raw_decode s = Inr (map (\<lambda>c. of_nat (of_char c)) s)"

lemma raw_decode_hex: "raw_decode (raw_hex bs) = Inr bs"
proof -
  have "(of_nat (of_char (char_of (unat b) :: char)) :: byte) = b" for b :: byte
  proof -
    have "unat b < 256" using unsigned_less [of b] by (simp del: unsigned_less)
    then show ?thesis by simp
  qed
  then show ?thesis by (simp add: raw_decode_def raw_hex_def comp_def)
qed

theorem UnmarshalJSON_reads_back_witness:
  "UnmarshalJSON (\<lambda>_. Inr \<lparr>inBlockHash = None, inFromBlock = Some 5, inToBlock = None,
      inAddresses = JArray (map (JString \<circ> (raw_hex \<circ> address_bytes)) [0x77]),
      inTopics = map (json_position (raw_hex \<circ> hash_bytes)) [[0x1, 0x2], []], inERC1155ID = None\<rparr>)
     raw_decode ''{...}'' =
   Inr \<lparr>cBlockHash = None, cFromBlock = Some 5, cToBlock = None, cAddresses = [0x77], cTopics = [[0x1, 0x2], []],
      cERC1155ID = None\<rparr>"
  by (rule UnmarshalJSON_reads_back [OF refl]) (simp_all add: raw_decode_hex maxTopics_def maxSubTopics_def)

end
