(* ===== verification/RpcApi.thy ===== *)
theory RpcApi
  imports Reader Criteria
begin

text \<open>
  \<open>internal/rpcapi/api.go\<close> and the health page of \<open>server.go\<close>: \<open>eth_getLogs\<close>,
  \<open>eth_blockNumber\<close> and \<open>eth_chainId\<close> over one read snapshot of the warehouse.

  The block tags (\<open>latest\<close>, \<open>pending\<close>, ...) are negative numbers of go-ethereum's \<open>rpc\<close>
  package: the record \<open>block_tags\<close>. The query timeout only cancels a read, which is a fault
  of the connection.
\<close>

record block_tags =
  LatestBlockNumber :: int
  PendingBlockNumber :: int
  SafeBlockNumber :: int
  FinalizedBlockNumber :: int
  EarliestBlockNumber :: int

record api_config =
  ChainID :: u64
  MaxResults :: int

definition errInvalidBlockRange :: err where
  "errInvalidBlockRange = ErrNew ''invalid block range params''"

definition errUnknownBlock :: err where
  "errUnknownBlock = ErrNew ''unknown block''"

definition errPendingLogsUnsupported :: err where
  "errPendingLogsUnsupported = ErrNew ''pending logs are not supported''"

section \<open>Head and health\<close>

definition ChainId :: "api_config \<Rightarrow> u64" where
  "ChainId cfg = ChainID cfg"

definition scopeIfMaintenance :: "err \<Rightarrow> err" where
  "scopeIfMaintenance e =
     (if errors_Is e ErrMaintenance
      then ScopeError ''warehouse is under maintenance (a backfill is reloading it); ask a node''
      else e)"

definition api_coverage :: "(pg, err, coverage) step" where
  "api_coverage =
     onErr scopeIfMaintenance (Read (andThen readCoverage (\<lambda>cov.
       case cov of None \<Rightarrow> throw (ScopeError ''warehouse is empty'') | Some c \<Rightarrow> ret c)))"

definition BlockNumber :: "(pg, err, u64) step" where
  "BlockNumber = andThen api_coverage (\<lambda>c. ret (covHead c))"

text \<open>The health page: the HTTP status and what the JSON body says.\<close>

datatype health_body =
    HealthMaintenance string
  | HealthError string
  | HealthOK u64 u64 bool u64

definition health :: "api_config \<Rightarrow> pg \<Rightarrow> nat \<times> health_body" where
  "health cfg s =
     (case fst (Read readCoverage s) of
        Inl e \<Rightarrow> if errors_Is e ErrMaintenance then (503, HealthMaintenance (Error e)) else (503, HealthError (Error e))
      | Inr None \<Rightarrow> (200, HealthOK 0 0 True (ChainID cfg))
      | Inr (Some c) \<Rightarrow> (200, HealthOK (covHead c) (covStart c) False (ChainID cfg)))"

section \<open>eth_getLogs\<close>

fun check_signatures :: "keccak \<Rightarrow> hash list \<Rightarrow> err option" where
  "check_signatures kc [] = None"
| "check_signatures kc (sig # sigs) =
     (if \<not> IsWarehouseSignature kc sig
      then Some (ScopeError (''topic0 '' @ hash_hex sig @ '' is not a warehouse event signature''))
      else check_signatures kc sigs)"

definition checkTopicScope :: "keccak \<Rightarrow> hash list list \<Rightarrow> err option" where
  "checkTopicScope kc topics =
     (case topics of
        [] \<Rightarrow> Some (ScopeError ''filter must name at least one warehouse event signature in topics[0]'')
      | sub # _ \<Rightarrow>
          if sub = [] then Some (ScopeError ''filter must name at least one warehouse event signature in topics[0]'')
          else check_signatures kc sub)"

definition resolveSpecial :: "block_tags \<Rightarrow> int \<Rightarrow> u64 \<Rightarrow> err + u64" where
  "resolveSpecial tags number head =
     (if number = LatestBlockNumber tags then Inr head
      else if number = SafeBlockNumber tags \<or> number = FinalizedBlockNumber tags
      then Inl (ScopeError ''safe and finalized block tags are not served (the warehouse head is only confirmation_blocks deep); ask a node'')
      else if number = EarliestBlockNumber tags then Inr 0
      else if number < 0 then Inl (ErrNew ''negative block number'')
      else Inr (uint64 number))"

definition query_of :: "FilterCriteria \<Rightarrow> u64 \<Rightarrow> u64 \<Rightarrow> query_filter" where
  "query_of crit from to = \<lparr>FromBlock = from, ToBlock = to, Addresses = cAddresses crit, QTopics = cTopics crit,
     ERC1155ID = cERC1155ID crit\<rparr>"

text \<open>The second component is \<open>empty\<close>.\<close>

definition resolve_numbers :: "block_tags \<Rightarrow> FilterCriteria \<Rightarrow> coverage \<Rightarrow> err + query_filter \<times> bool" where
  "resolve_numbers tags crit cov =
     (let begin_at = (case cFromBlock crit of Some n \<Rightarrow> n | None \<Rightarrow> LatestBlockNumber tags);
          end_at = (case cToBlock crit of Some n \<Rightarrow> n | None \<Rightarrow> LatestBlockNumber tags) in
      if begin_at > 0 \<and> end_at > 0 \<and> begin_at > end_at then Inl errInvalidBlockRange
      else if begin_at = PendingBlockNumber tags \<or> end_at = PendingBlockNumber tags then Inl errPendingLogsUnsupported
      else (case resolveSpecial tags begin_at (covHead cov) of
        Inl e \<Rightarrow> Inl e
      | Inr from \<Rightarrow> (case resolveSpecial tags end_at (covHead cov) of
          Inl e \<Rightarrow> Inl e
        | Inr to \<Rightarrow>
            if from > to then Inr (query_of crit 0 0, True)
            else if from > covHead cov \<or> to > covHead cov
            then Inl (ScopeError (''blocks '' @ show_u64 from @ ''-'' @ show_u64 to @ '' extend above the warehouse head ''
                   @ show_u64 (covHead cov)))
            else if from < covStart cov
            then Inl (ScopeError (''blocks '' @ show_u64 from @ ''-'' @ show_u64 to @ '' extend below the warehouse coverage start ''
                   @ show_u64 (covStart cov)))
            else Inr (query_of crit from to, False))))"

definition resolveRange :: "block_tags \<Rightarrow> FilterCriteria \<Rightarrow> coverage \<Rightarrow> (pg, err, query_filter \<times> bool) step" where
  "resolveRange tags crit cov =
     (case cBlockHash crit of
        Some h \<Rightarrow> andThen (blockByHash h) (\<lambda>found.
          case found of
            None \<Rightarrow> throw errUnknownBlock
          | Some b \<Rightarrow>
              if blkNumber b < covStart cov \<or> blkNumber b > covHead cov
              then throw (ScopeError (''block '' @ show_u64 (blkNumber b) @ '' ('' @ hash_hex (blkHash b)
                     @ '') is outside the warehouse coverage '' @ show_u64 (covStart cov) @ ''-'' @ show_u64 (covHead cov)))
              else ret (query_of crit (blkNumber b) (blkNumber b), False))
      | None \<Rightarrow> lift (resolve_numbers tags crit cov))"

definition get_logs_body :: "keccak \<Rightarrow> block_tags \<Rightarrow> api_config \<Rightarrow> FilterCriteria \<Rightarrow> (pg, err, log list) step" where
  "get_logs_body kc tags cfg crit =
     andThen readCoverage (\<lambda>cov.
     case cov of
       None \<Rightarrow> throw (ScopeError ''warehouse is empty'')
     | Some c \<Rightarrow>
         andThen (resolveRange tags crit c) (\<lambda>(q, inverted).
         if inverted then ret []
         else onErr (\<lambda>e. if errors_Is e ErrTooManyResults
                         then ErrNew (''query returned more than '' @ show_int (MaxResults cfg) @ '' results'') else e)
                (filterLogs kc q (MaxResults cfg))))"

definition GetLogs :: "keccak \<Rightarrow> block_tags \<Rightarrow> api_config \<Rightarrow> FilterCriteria \<Rightarrow> (pg, err, log list) step" where
  "GetLogs kc tags cfg crit =
     (if length (cTopics crit) > maxTopics then throw errExceedMaxTopics
      else (case checkTopicScope kc (cTopics crit) of
        Some e \<Rightarrow> throw e
      | None \<Rightarrow> onErr scopeIfMaintenance (Read (get_logs_body kc tags cfg crit))))"

end
