(* ===== verification/ApiFacts.thy ===== *)
theory ApiFacts
  imports RpcApi ReaderFacts
begin

text \<open>
  The API answers exactly, or refuses: an answer lists every stored log the filter names, its
  block range lies inside the published coverage, and a refusal is one the routing client
  can tell from a range cap.
\<close>

section \<open>The read snapshot\<close>

lemma triple_framed:
  assumes "framed m" and "triple P m Q E"
  shows "triple (\<lambda>s. P s \<and> maintenance_locked s = b) m (\<lambda>x s. Q x s \<and> maintenance_locked s = b)
    (\<lambda>e s. E e s \<and> maintenance_locked s = b)"
  using assms unfolding triple_def framed_def by (fastforce split: sum.splits)

lemma admitted_triple:
  "triple (\<lambda>s. tab s = t0 \<and> maintenance_locked s = b) admitted
     (\<lambda>ok s. (tab s = t0 \<and> maintenance_locked s = b) \<and> (ok \<longleftrightarrow> \<not> b)) (\<lambda>e s. tab s = t0 \<and> \<not> healthy s)"
  by (auto simp: triple_def admitted_def query_def exec_def andThen_def onErr_def gets_def Let_def healthy_def
      split: option.splits fault.splits sum.splits)

lemma flag_triple:
  "triple (\<lambda>s. tab s = t0 \<and> maintenance_locked s = b) (onErr f (query g))
     (\<lambda>x s. (tab s = t0 \<and> maintenance_locked s = b) \<and> x = g t0) (\<lambda>e s. tab s = t0 \<and> \<not> healthy s)"
  by (auto simp: triple_def query_def exec_def onErr_def Let_def healthy_def
      split: option.splits fault.splits sum.splits)

lemma read_body_triple:
  assumes "framed fn"
    and fn: "triple (\<lambda>s. tab s = t0) fn (\<lambda>x s. tab s = t0 \<and> Q x) (\<lambda>e s. tab s = t0 \<and> (healthy s \<longrightarrow> E e))"
  shows "triple (\<lambda>s. tab s = t0 \<and> maintenance_locked s = b) (read_body fn)
    (\<lambda>x s. tab s = t0 \<and> Q x \<and> \<not> maintenance t0 \<and> \<not> b)
    (\<lambda>e s. tab s = t0 \<and> (healthy s \<longrightarrow> E e \<or> e = Sentinel ErrMaintenance \<and> (maintenance t0 \<or> b)))"
proof -
  let ?E = "\<lambda>e s. tab s = t0 \<and> (healthy s \<longrightarrow> E e \<or> e = Sentinel ErrMaintenance \<and> (maintenance t0 \<or> b))"
  have adm: "triple (\<lambda>s. tab s = t0 \<and> maintenance_locked s = b) admitted
     (\<lambda>ok s. (tab s = t0 \<and> maintenance_locked s = b) \<and> (ok \<longleftrightarrow> \<not> b)) ?E"
    by (rule triple_conseq [OF admitted_triple]) auto
  have flag: "triple (\<lambda>s. (tab s = t0 \<and> maintenance_locked s = b) \<and> (ok \<longleftrightarrow> \<not> b)) (onErr f (query maintenance))
     (\<lambda>x s. (tab s = t0 \<and> maintenance_locked s = b) \<and> x = maintenance t0) ?E" for ok f
    by (rule triple_conseq [OF flag_triple]) auto
  have run: "triple (\<lambda>s. (tab s = t0 \<and> maintenance_locked s = b) \<and> flagged = maintenance t0) fn
      (\<lambda>x s. tab s = t0 \<and> Q x \<and> \<not> maintenance t0 \<and> \<not> b) ?E"
    if "\<not> flagged" "\<not> b" for flagged
  proof (cases "maintenance t0")
    case False
    with that show ?thesis by (intro triple_conseq [OF fn]) auto
  qed (use that in \<open>simp add: triple_def\<close>)
  show ?thesis
    unfolding read_body_def
  proof (rule triple_andThen [OF adm], rule triple_if, goal_cases)
    case (1 ok)
    then show ?case by (intro triple_throw) auto
  next
    case (2 ok)
    show ?case
    proof (cases b)
      case False
      then show ?thesis
        by (intro triple_andThen [OF flag] triple_if run triple_throw) auto
    qed (use 2 in \<open>simp add: triple_def\<close>)
  qed
qed

lemma framed_gets [framed_rules]: "framed (gets f)"
  by (simp add: framed_def gets_def)

lemma framed_read_body [framed_rules]: "framed fn \<Longrightarrow> framed (read_body fn)"
  by (auto simp: read_body_def admitted_def intro!: framed_rules)

lemma triple_Read:
  assumes "framed fn"
    and "triple (\<lambda>s. tab s = t0) fn (\<lambda>x s. tab s = t0 \<and> Q x) (\<lambda>e s. tab s = t0 \<and> (healthy s \<longrightarrow> E e))"
  shows "triple (\<lambda>s. tab s = t0 \<and> maintenance_locked s = b) (Read fn)
    (\<lambda>x s. tab s = t0 \<and> Q x \<and> \<not> maintenance t0 \<and> \<not> b)
    (\<lambda>e s. tab s = t0 \<and> (healthy s \<longrightarrow> E e \<or> e = Sentinel ErrMaintenance \<and> (maintenance t0 \<or> b)))"
  unfolding triple_def
proof (intro allI impI)
  fix s r t
  assume P: "tab s = t0 \<and> maintenance_locked s = b" and run: "Read fn s = (r, t)"
  obtain o1 s1 where opened: "exec (\<lambda>t. Inr ((), t)) s = (o1, s1)" by fastforce
  then have s1: "tab s1 = t0 \<and> maintenance_locked s1 = b" and h1: "healthy s1 = healthy s"
    and e1: "o1 = Inr () \<or> \<not> healthy s"
    using P by (auto simp: exec_def Let_def healthy_def split: option.splits fault.splits)
  obtain r2 s2 where body: "read_body fn s1 = (r2, s2)" by fastforce
  have h2: "healthy s2 = healthy s"
    using healthy_framed [OF framed_read_body [OF assms(1)] body] h1 by simp
  note tr = read_body_triple [OF assms, of b]
  show "case r of Inl e \<Rightarrow> tab t = t0 \<and> (healthy t \<longrightarrow> E e \<or> e = Sentinel ErrMaintenance \<and> (maintenance t0 \<or> b))
      | Inr x \<Rightarrow> tab t = t0 \<and> Q x \<and> \<not> maintenance t0 \<and> \<not> b"
  proof (cases o1)
    case (Inl e)
    then show ?thesis using run opened e1 s1 h1 by (auto simp: Read_def healthy_def)
  next
    case (Inr u)
    show ?thesis
    proof (cases r2)
      case (Inl e)
      with triple_error [OF tr s1] body run opened \<open>o1 = Inr u\<close> P show ?thesis
        by (auto simp: Read_def rollback_def healthy_def)
    next
      case (Inr x)
      with triple_value [OF tr s1] body run opened \<open>o1 = Inr u\<close> P show ?thesis
        by (auto simp: Read_def commit_def Let_def healthy_def split: option.splits fault.splits)
    qed
  qed
qed

section \<open>What a request names\<close>

text \<open>go-ethereum's tags are distinct negative numbers (\<open>earliest\<close> was 0 in older releases).\<close>

definition tags_ok :: "block_tags \<Rightarrow> bool" where
  "tags_ok tags \<longleftrightarrow>
     distinct [LatestBlockNumber tags, PendingBlockNumber tags, SafeBlockNumber tags, FinalizedBlockNumber tags,
       EarliestBlockNumber tags] \<and>
     LatestBlockNumber tags < 0 \<and> PendingBlockNumber tags < 0 \<and> SafeBlockNumber tags < 0 \<and>
     FinalizedBlockNumber tags < 0 \<and> EarliestBlockNumber tags \<le> 0"

definition names_block :: "block_tags \<Rightarrow> coverage \<Rightarrow> int option \<Rightarrow> u64 \<Rightarrow> bool" where
  "names_block tags c v n \<longleftrightarrow>
     (case v of None \<Rightarrow> n = covHead c
      | Some i \<Rightarrow> if i = LatestBlockNumber tags then n = covHead c
                  else if i = EarliestBlockNumber tags then n = 0
                  else 0 \<le> i \<and> n = uint64 i)"

definition names_range :: "block_tags \<Rightarrow> FilterCriteria \<Rightarrow> tables \<Rightarrow> coverage \<Rightarrow> u64 \<Rightarrow> u64 \<Rightarrow> bool" where
  "names_range tags crit t c from to \<longleftrightarrow>
     (case cBlockHash crit of
        Some h \<Rightarrow> from = to \<and> (\<exists>b \<in> set (eth_blocks t). b_hash b = hash_bytes h \<and> b_number b = int64 from)
      | None \<Rightarrow> names_block tags c (cFromBlock crit) from \<and> names_block tags c (cToBlock crit) to)"

lemma resolveSpecial_Inr:
  assumes "tags_ok tags" and "resolveSpecial tags (case v of Some i \<Rightarrow> i | None \<Rightarrow> LatestBlockNumber tags) (covHead c) = Inr n"
  shows "names_block tags c v n"
  using assms by (auto simp: resolveSpecial_def names_block_def split: option.splits if_splits)

text \<open>The request as a function of the snapshot.\<close>

definition resolve_pure :: "block_tags \<Rightarrow> FilterCriteria \<Rightarrow> coverage \<Rightarrow> tables \<Rightarrow> err + query_filter \<times> bool" where
  "resolve_pure tags crit c t =
     (case cBlockHash crit of
        Some h \<Rightarrow>
          (case find (\<lambda>b. b_hash b = hash_bytes h) (eth_blocks t) of
             None \<Rightarrow> Inl errUnknownBlock
           | Some b \<Rightarrow>
               let n = uint64 (b_number b) in
               if n < covStart c \<or> n > covHead c
               then Inl (ScopeError (''block '' @ show_u64 n @ '' ('' @ hash_hex (BytesToHash (b_hash b))
                     @ '') is outside the warehouse coverage '' @ show_u64 (covStart c) @ ''-'' @ show_u64 (covHead c)))
               else Inr (query_of crit n n, False))
      | None \<Rightarrow> resolve_numbers tags crit c)"

definition get_logs_pure :: "keccak \<Rightarrow> block_tags \<Rightarrow> api_config \<Rightarrow> FilterCriteria \<Rightarrow> tables \<Rightarrow> err + log list" where
  "get_logs_pure kc tags cfg crit t =
     (case coverage_of t of
        None \<Rightarrow> Inl (ScopeError ''warehouse is empty'')
      | Some c \<Rightarrow>
          (case resolve_pure tags crit c t of
             Inl e \<Rightarrow> Inl e
           | Inr (q, inverted) \<Rightarrow>
               if inverted then Inr []
               else (case answer kc q (MaxResults cfg) t of
                 Inl e \<Rightarrow> Inl (if errors_Is e ErrTooManyResults
                   then ErrNew (''query returned more than '' @ show_int (MaxResults cfg) @ '' results'') else e)
               | Inr logs \<Rightarrow> Inr logs)))"

lemma resolve_numbers_Inr:
  assumes "tags_ok tags" and "resolve_numbers tags crit c = Inr (q, inverted)"
  shows "\<exists>from to. names_block tags c (cFromBlock crit) from \<and> names_block tags c (cToBlock crit) to \<and>
    (if inverted then to < from
     else q = query_of crit from to \<and> covStart c \<le> from \<and> from \<le> to \<and> to \<le> covHead c)"
  using assms(2)
  by (auto simp: resolve_numbers_def Let_def not_less split: if_splits sum.splits
      dest!: resolveSpecial_Inr [OF assms(1)])

lemma stored_block_back:
  assumes "warehouse_ok t" and "b \<in> set (eth_blocks t)"
  shows "int64 (uint64 (b_number b)) = b_number b"
proof -
  obtain k where "b = BlockRow k" using assms by (auto simp: warehouse_ok_def stored_block_def)
  then show ?thesis by simp
qed

lemma resolve_pure_Inr:
  assumes "tags_ok tags" and "warehouse_ok t" and "resolve_pure tags crit c t = Inr (q, inverted)"
  shows "\<exists>from to. names_range tags crit t c from to \<and>
    (if inverted then to < from
     else q = query_of crit from to \<and> covStart c \<le> from \<and> from \<le> to \<and> to \<le> covHead c)"
proof (cases "cBlockHash crit")
  case None
  with assms resolve_numbers_Inr [OF assms(1)] show ?thesis by (simp add: resolve_pure_def names_range_def)
next
  case (Some h)
  then obtain b where b: "find (\<lambda>b. b_hash b = hash_bytes h) (eth_blocks t) = Some b"
    and n: "covStart c \<le> uint64 (b_number b)" "uint64 (b_number b) \<le> covHead c"
    and q: "q = query_of crit (uint64 (b_number b)) (uint64 (b_number b))" "\<not> inverted"
    using assms(3) by (auto simp: resolve_pure_def Let_def not_less split: option.splits if_splits)
  then have "b \<in> set (eth_blocks t)" "b_hash b = hash_bytes h"
    by (auto simp: find_Some_iff)
  then have "names_range tags crit t c (uint64 (b_number b)) (uint64 (b_number b))"
    using Some stored_block_back [OF assms(2)] by (auto simp: names_range_def)
  with n q show ?thesis by auto
qed

lemma resolve_query_ok:
  assumes "tags_ok tags" "warehouse_ok t" "coverage_of t = Some c" "length (cTopics crit) \<le> maxTopics"
    and "resolve_pure tags crit c t = Inr (q, False)"
  shows "query_ok q"
proof -
  obtain f t' where "q = query_of crit f t'" "f \<le> t'" "t' \<le> covHead c"
    using resolve_pure_Inr [OF assms(1,2,5)] by auto
  moreover have "fits_int64 (covHead c)" using coverage_of_Some [OF assms(2,3)] by simp
  ultimately show ?thesis
    using assms(4) fits_int64_mono by (auto simp: query_ok_def query_of_def maxTopics_def)
qed

section \<open>The steps compute the request\<close>

text \<open>
  \<open>computes t0 m v\<close>: from the tables \<open>t0\<close> the step \<open>m\<close> changes nothing, returns a value only if
  it is that of \<open>v\<close>, and on a healthy connection fails only with the error of \<open>v\<close>.
\<close>

definition computes :: "tables \<Rightarrow> (pg, err, 'a) step \<Rightarrow> err + 'a \<Rightarrow> bool" where
  "computes t0 m v \<longleftrightarrow> triple (\<lambda>s. tab s = t0) m (\<lambda>x s. tab s = t0 \<and> v = Inr x)
     (\<lambda>e s. tab s = t0 \<and> (healthy s \<longrightarrow> v = Inl e))"

named_theorems computes_rules \<open>steps that compute a function of the tables\<close>

lemma computes_ret [computes_rules]: "computes t0 (ret x) (Inr x)"
  and computes_throw [computes_rules]: "computes t0 (throw e) (Inl e)"
  by (auto simp: computes_def intro: triple_ret triple_throw)

lemma computes_lift [computes_rules]: "computes t0 (lift v) v"
  by (cases v) (auto simp: lift_def computes_rules)

lemma computes_query [computes_rules]: "computes t0 (onErr f (query g)) (Inr (g t0))"
  by (auto simp: computes_def triple_def query_def exec_def onErr_def Let_def healthy_def split: option.splits fault.splits)

lemma computes_andThen:
  assumes m: "computes t0 m v" and f: "\<And>x. v = Inr x \<Longrightarrow> computes t0 (f x) (w x)"
  shows "computes t0 (andThen m f) (case v of Inl e \<Rightarrow> Inl e | Inr x \<Rightarrow> w x)"
  unfolding computes_def triple_def
proof (intro allI impI)
  fix s r t
  assume t0: "tab s = t0" and run: "andThen m f s = (r, t)"
  obtain r1 s1 where r1: "m s = (r1, s1)" by fastforce
  show "case r of Inl e \<Rightarrow> tab t = t0 \<and> (healthy t \<longrightarrow> (case v of Inl e \<Rightarrow> Inl e | Inr x \<Rightarrow> w x) = Inl e)
      | Inr x \<Rightarrow> tab t = t0 \<and> (case v of Inl e \<Rightarrow> Inl e | Inr x \<Rightarrow> w x) = Inr x"
  proof (cases r1)
    case (Inl e)
    then show ?thesis
      using run r1 triple_error [OF m [unfolded computes_def] t0, of e s1] by (auto simp: andThen_def)
  next
    case (Inr x)
    then have x: "tab s1 = t0" "v = Inr x" "f x s1 = (r, t)"
      using run r1 triple_value [OF m [unfolded computes_def] t0, of x s1] by (auto simp: andThen_def)
    then show ?thesis
      using f [OF x(2)] unfolding computes_def triple_def x(2) sum.case by blast
  qed
qed

lemma computes_onErr:
  "computes t0 m v \<Longrightarrow> computes t0 (onErr f m) (case v of Inl e \<Rightarrow> Inl (f e) | Inr x \<Rightarrow> Inr x)"
  unfolding computes_def by (rule triple_onErr) (auto elim!: triple_conseq)

lemma computes_eq: "computes t0 m v \<Longrightarrow> v = w \<Longrightarrow> computes t0 m w"
  by simp

lemma computes_readCoverage: "computes t0 readCoverage (Inr (coverage_of t0))"
  by (simp add: readCoverage_def computes_query)

lemma computes_filterLogs:
  "warehouse_ok t0 \<Longrightarrow> query_ok q \<Longrightarrow> computes t0 (filterLogs kc q limit) (answer kc q limit t0)"
  unfolding computes_def by (rule filterLogs_triple)

lemma computes_resolveRange: "computes t0 (resolveRange tags crit c) (resolve_pure tags crit c t0)"
proof (cases "cBlockHash crit")
  case None
  then show ?thesis by (simp add: resolveRange_def resolve_pure_def computes_lift)
next
  case (Some h)
  let ?w = "\<lambda>found. case found of None \<Rightarrow> Inl errUnknownBlock
    | Some b \<Rightarrow> if blkNumber b < covStart c \<or> blkNumber b > covHead c
        then Inl (ScopeError (''block '' @ show_u64 (blkNumber b) @ '' ('' @ hash_hex (blkHash b)
               @ '') is outside the warehouse coverage '' @ show_u64 (covStart c) @ ''-'' @ show_u64 (covHead c)))
        else Inr (query_of crit (blkNumber b) (blkNumber b), False)"
  have "computes t0 (resolveRange tags crit c)
      (case Inr (map_option (\<lambda>b. \<lparr>blkNumber = uint64 (b_number b), blkHash = BytesToHash (b_hash b), blkTimestamp = uint64 (b_ts b)\<rparr>)
                (find (\<lambda>b. b_hash b = hash_bytes h) (eth_blocks t0))) of Inl e \<Rightarrow> Inl e | Inr found \<Rightarrow> ?w found)"
    unfolding resolveRange_def Some option.case
  proof (rule computes_andThen)
    fix found :: "block option"
    show "computes t0 (case found of None \<Rightarrow> throw errUnknownBlock
          | Some b \<Rightarrow>
              if blkNumber b < covStart c \<or> blkNumber b > covHead c
              then throw (ScopeError (''block '' @ show_u64 (blkNumber b) @ '' ('' @ hash_hex (blkHash b)
                     @ '') is outside the warehouse coverage '' @ show_u64 (covStart c) @ ''-'' @ show_u64 (covHead c)))
              else ret (query_of crit (blkNumber b) (blkNumber b), False)) (?w found)"
      by (cases found) (simp_all only: option.case computes_rules if_split, simp add: computes_rules)
  qed (unfold blockByHash_def, rule computes_eq [OF computes_query refl])
  then show ?thesis
    by (rule computes_eq) (simp add: resolve_pure_def Some Let_def split: option.split)
qed

lemma computes_get_logs_body:
  assumes "tags_ok tags" "warehouse_ok t0" "length (cTopics crit) \<le> maxTopics"
  shows "computes t0 (get_logs_body kc tags cfg crit) (get_logs_pure kc tags cfg crit t0)"
proof (cases "coverage_of t0")
  case None
  show ?thesis
    unfolding get_logs_body_def
    by (rule computes_eq, rule computes_andThen [OF computes_readCoverage, where w = "\<lambda>_. Inl (ScopeError ''warehouse is empty'')"])
      (auto simp: None get_logs_pure_def computes_throw)
next
  case (Some c)
  let ?cap = "ErrNew (''query returned more than '' @ show_int (MaxResults cfg) @ '' results'')"
  let ?w = "\<lambda>(q, inverted). if inverted then Inr [] else
    (case answer kc q (MaxResults cfg) t0 of Inl e \<Rightarrow> Inl (if errors_Is e ErrTooManyResults then ?cap else e) | Inr logs \<Rightarrow> Inr logs)"
  have run: "computes t0 (if inverted then ret []
         else onErr (\<lambda>e. if errors_Is e ErrTooManyResults then ?cap else e) (filterLogs kc q (MaxResults cfg)))
       (?w (q, inverted))"
    if r: "resolve_pure tags crit c t0 = Inr (q, inverted)" for q inverted
  proof (cases inverted)
    case False
    with r have "query_ok q" using resolve_query_ok [OF assms(1,2) Some assms(3)] by simp
    let ?F = "\<lambda>e. if errors_Is e ErrTooManyResults then ?cap else e"
    have "computes t0 (onErr ?F (filterLogs kc q (MaxResults cfg)))
        (case answer kc q (MaxResults cfg) t0 of Inl e \<Rightarrow> Inl (?F e) | Inr x \<Rightarrow> Inr x)"
      by (rule computes_onErr [OF computes_filterLogs [OF assms(2) \<open>query_ok q\<close>]])
    then show ?thesis
      using False by (simp only: if_False split)
  qed (simp add: computes_ret)
  have "computes t0 (andThen (resolveRange tags crit c) (\<lambda>(q, inverted). if inverted then ret []
         else onErr (\<lambda>e. if errors_Is e ErrTooManyResults then ?cap else e) (filterLogs kc q (MaxResults cfg))))
      (case resolve_pure tags crit c t0 of Inl e \<Rightarrow> Inl e | Inr x \<Rightarrow> ?w x)"
    using run by (intro computes_andThen [OF computes_resolveRange]) auto
  then have "computes t0 (get_logs_body kc tags cfg crit)
      (case Inr (coverage_of t0) of Inl e \<Rightarrow> Inl e
       | Inr cov \<Rightarrow> (case resolve_pure tags crit c t0 of Inl e \<Rightarrow> Inl e | Inr x \<Rightarrow> ?w x))"
    unfolding get_logs_body_def Some by (intro computes_andThen [OF computes_readCoverage [of t0, unfolded Some]]) (erule Inr_inject [THEN subst], simp only: option.case)
  then show ?thesis
    by (simp add: get_logs_pure_def Some)
qed

section \<open>The answer\<close>

lemma framed_get_logs_body [framed_rules]: "framed (get_logs_body kc tags cfg crit)"
  by (auto simp: get_logs_body_def resolveRange_def blockByHash_def split: option.splits prod.splits intro!: framed_rules)

lemma framed_Read [framed_rules]: "framed fn \<Longrightarrow> framed (Read fn)"
  using framed_bracket [OF framed_read_body, where f = "\<lambda>e. Wrapf ''begin read snapshot: '' e ''''"]
  by (simp add: Read_def [abs_def])

lemma framed_GetLogs [framed_rules]: "framed (GetLogs kc tags cfg crit)"
  by (auto simp: GetLogs_def split: option.splits intro!: framed_rules)

definition in_scope :: "keccak \<Rightarrow> FilterCriteria \<Rightarrow> bool" where
  "in_scope kc crit \<longleftrightarrow> length (cTopics crit) \<le> maxTopics \<and> cTopics crit \<noteq> [] \<and> hd (cTopics crit) \<noteq> [] \<and>
     (\<forall>sig \<in> set (hd (cTopics crit)). IsWarehouseSignature kc sig)"

lemma check_signatures_None: "check_signatures kc sigs = None \<longleftrightarrow> (\<forall>sig \<in> set sigs. IsWarehouseSignature kc sig)"
  by (induction sigs) auto

lemma checkTopicScope_None:
  "checkTopicScope kc topics = None \<longleftrightarrow> topics \<noteq> [] \<and> hd topics \<noteq> [] \<and> (\<forall>sig \<in> set (hd topics). IsWarehouseSignature kc sig)"
  by (cases topics) (auto simp: checkTopicScope_def check_signatures_None)

lemma GetLogs_triple:
  assumes "tags_ok tags" "warehouse_ok t0" "in_scope kc crit"
  shows "triple (\<lambda>s. tab s = t0 \<and> maintenance_locked s = b) (GetLogs kc tags cfg crit)
    (\<lambda>logs s. tab s = t0 \<and> get_logs_pure kc tags cfg crit t0 = Inr logs \<and> \<not> maintenance t0 \<and> \<not> b)
    (\<lambda>e s. tab s = t0 \<and> (healthy s \<longrightarrow>
       (\<exists>e'. get_logs_pure kc tags cfg crit t0 = Inl e' \<and> e = scopeIfMaintenance e') \<or>
       e = scopeIfMaintenance (Sentinel ErrMaintenance) \<and> (maintenance t0 \<or> b)))"
proof -
  have "triple (\<lambda>s. tab s = t0 \<and> maintenance_locked s = b) (Read (get_logs_body kc tags cfg crit))
    (\<lambda>logs s. tab s = t0 \<and> get_logs_pure kc tags cfg crit t0 = Inr logs \<and> \<not> maintenance t0 \<and> \<not> b)
    (\<lambda>e s. tab s = t0 \<and> (healthy s \<longrightarrow> get_logs_pure kc tags cfg crit t0 = Inl e \<or>
       e = Sentinel ErrMaintenance \<and> (maintenance t0 \<or> b)))"
    using computes_get_logs_body [OF assms(1,2), of crit kc cfg] assms(3)
    unfolding computes_def in_scope_def by (intro triple_Read framed_get_logs_body) auto
  then have "triple (\<lambda>s. tab s = t0 \<and> maintenance_locked s = b) (onErr scopeIfMaintenance (Read (get_logs_body kc tags cfg crit)))
    (\<lambda>logs s. tab s = t0 \<and> get_logs_pure kc tags cfg crit t0 = Inr logs \<and> \<not> maintenance t0 \<and> \<not> b)
    (\<lambda>e s. tab s = t0 \<and> (healthy s \<longrightarrow>
       (\<exists>e'. get_logs_pure kc tags cfg crit t0 = Inl e' \<and> e = scopeIfMaintenance e') \<or>
       e = scopeIfMaintenance (Sentinel ErrMaintenance) \<and> (maintenance t0 \<or> b)))"
    by (intro triple_onErr) (elim triple_conseq, auto)
  with assms(3) show ?thesis
    by (simp add: GetLogs_def in_scope_def checkTopicScope_None [THEN iffD2])
qed

lemma GetLogs_in_scope:
  assumes "GetLogs kc tags cfg crit s = (Inr logs, t)"
  shows "in_scope kc crit"
  using assms by (auto simp: GetLogs_def in_scope_def throw_def checkTopicScope_None split: if_splits option.splits)

lemma get_logs_pure_Inr:
  assumes "tags_ok tags" "warehouse_ok t" "get_logs_pure kc tags cfg crit t = Inr logs"
  shows "\<exists>c from to. coverage_of t = Some c \<and> names_range tags crit t c from to \<and>
    (if to < from then logs = []
     else covStart c \<le> from \<and> to \<le> covHead c \<and>
       logs = filter (log_matches kc (query_of crit from to)) (stored_logs t) \<and>
       (0 < MaxResults cfg \<longrightarrow> int (length logs) \<le> MaxResults cfg))"
proof -
  obtain c q inverted where c: "coverage_of t = Some c" and r: "resolve_pure tags crit c t = Inr (q, inverted)"
    and a: "if inverted then logs = [] else answer kc q (MaxResults cfg) t = Inr logs"
    using assms(3) by (auto simp: get_logs_pure_def split: option.splits sum.splits if_splits)
  from resolve_pure_Inr [OF assms(1,2) r] obtain f t' where n: "names_range tags crit t c f t'"
    "if inverted then t' < f else q = query_of crit f t' \<and> covStart c \<le> f \<and> f \<le> t' \<and> t' \<le> covHead c" by blast
  have "if t' < f then logs = []
     else covStart c \<le> f \<and> t' \<le> covHead c \<and> logs = filter (log_matches kc (query_of crit f t')) (stored_logs t) \<and>
       (0 < MaxResults cfg \<longrightarrow> int (length logs) \<le> MaxResults cfg)"
    using n(2) a by (cases inverted) (auto simp: answer_def Let_def split: if_splits)
  with c n(1) show ?thesis by blast
qed

lemma GetLogs_answers:
  assumes "tags_ok tags" and "warehouse_ok (tab s)" and run: "GetLogs kc tags cfg crit s = (Inr logs, t)"
  shows "tab t = tab s \<and> in_scope kc crit \<and> \<not> maintenance (tab s) \<and> \<not> maintenance_locked s \<and>
    (\<exists>c from to. coverage_of (tab s) = Some c \<and> names_range tags crit (tab s) c from to \<and>
      (if to < from then logs = []
       else covStart c \<le> from \<and> to \<le> covHead c \<and>
         logs = filter (log_matches kc (query_of crit from to)) (stored_logs (tab s)) \<and>
         (0 < MaxResults cfg \<longrightarrow> int (length logs) \<le> MaxResults cfg)))"
  using GetLogs_in_scope [OF run] get_logs_pure_Inr [OF assms(1,2), where kc = kc and cfg = cfg and crit = crit and logs = logs]
    triple_value [OF GetLogs_triple [OF assms(1,2) GetLogs_in_scope [OF run], where b = "maintenance_locked s" and cfg = cfg], where s = s and x = logs and t = t] run
  by auto

text \<open>
  C5. \<open>eth_getLogs\<close> answers exactly or not at all. When it returns logs, the warehouse is not
  under maintenance, the filter pins topic 0 to warehouse signatures, and the logs are all
  the stored logs that match the filter in the block range it names, in chain order, at most
  \<open>MaxResults\<close> of them, the range lying inside the published coverage (or the range was
  inverted and the answer is empty). It never changes the tables.
\<close>

theorem GetLogs_exact:
  assumes "tags_ok tags" and "warehouse_ok (tab s)" and run: "GetLogs kc tags cfg crit s = (Inr logs, t)"
  shows "tab t = tab s \<and> in_scope kc crit \<and> \<not> maintenance (tab s) \<and> \<not> maintenance_locked s \<and>
    (\<exists>c from to. coverage_of (tab s) = Some c \<and> names_range tags crit (tab s) c from to \<and>
      (if to < from then logs = []
       else covStart c \<le> from \<and> to \<le> covHead c \<and>
         logs = filter (log_matches kc (query_of crit from to)) (stored_logs (tab s)) \<and>
         (0 < MaxResults cfg \<longrightarrow> int (length logs) \<le> MaxResults cfg)))"
  by (rule GetLogs_answers [OF assms])

section \<open>Requests that are served, requests that are refused\<close>

text \<open>The numbers of a decoded request are \<open>int64\<close>.\<close>

definition int64_arg :: "int option \<Rightarrow> bool" where
  "int64_arg v \<longleftrightarrow> (case v of None \<Rightarrow> True | Some i \<Rightarrow> - (2 ^ 63) \<le> i \<and> i < 2 ^ 63)"

lemma names_block_special:
  assumes "tags_ok tags" and "names_block tags c v n"
  shows "resolveSpecial tags (case v of Some i \<Rightarrow> i | None \<Rightarrow> LatestBlockNumber tags) (covHead c) = Inr n"
    and "(case v of Some i \<Rightarrow> i | None \<Rightarrow> LatestBlockNumber tags) \<noteq> PendingBlockNumber tags"
  using assms by (auto simp: names_block_def resolveSpecial_def tags_ok_def split: option.splits if_splits)

lemma positive_arg:
  assumes "tags_ok tags" "names_block tags c v n" "int64_arg v"
    and "0 < (case v of Some i \<Rightarrow> i | None \<Rightarrow> LatestBlockNumber tags)"
  shows "int64 n = (case v of Some i \<Rightarrow> i | None \<Rightarrow> LatestBlockNumber tags) \<and> fits_int64 n"
  using assms by (auto simp: names_block_def tags_ok_def int64_arg_def int64_uint64 fits_uint64 split: option.splits if_splits)

lemma resolve_numbers_eval:
  assumes ok: "tags_ok tags" and f: "names_block tags c (cFromBlock crit) from" and t: "names_block tags c (cToBlock crit) to"
    and "int64_arg (cFromBlock crit)" "int64_arg (cToBlock crit)" and le: "from \<le> to"
  shows "resolve_numbers tags crit c =
    (if to > covHead c
     then Inl (ScopeError (''blocks '' @ show_u64 from @ ''-'' @ show_u64 to @ '' extend above the warehouse head '' @ show_u64 (covHead c)))
     else if from < covStart c
     then Inl (ScopeError (''blocks '' @ show_u64 from @ ''-'' @ show_u64 to @ '' extend below the warehouse coverage start '' @ show_u64 (covStart c)))
     else Inr (query_of crit from to, False))"
proof -
  let ?b = "case cFromBlock crit of Some i \<Rightarrow> i | None \<Rightarrow> LatestBlockNumber tags"
  let ?e = "case cToBlock crit of Some i \<Rightarrow> i | None \<Rightarrow> LatestBlockNumber tags"
  have "\<not> (0 < ?b \<and> 0 < ?e \<and> ?e < ?b)"
  proof
    assume p: "0 < ?b \<and> 0 < ?e \<and> ?e < ?b"
    then have b: "int64 from = ?b \<and> fits_int64 from" and e: "int64 to = ?e \<and> fits_int64 to"
      using positive_arg [OF ok f assms(4)] positive_arg [OF ok t assms(5)] by blast+
    then have "int64 from \<le> int64 to" using le int64_le_iff by blast
    with p b e show False by linarith
  qed
  with names_block_special [OF ok f] names_block_special [OF ok t] le show ?thesis
    by (auto simp: resolve_numbers_def Let_def)
qed

definition quiet :: "pg \<Rightarrow> bool" where
  "quiet s \<longleftrightarrow> healthy s \<and> \<not> maintenance (tab s) \<and> \<not> maintenance_locked s"

lemma GetLogs_quiet:
  assumes "tags_ok tags" "warehouse_ok (tab s)" "in_scope kc crit" "quiet s"
  shows "\<exists>t. GetLogs kc tags cfg crit s =
    ((case get_logs_pure kc tags cfg crit (tab s) of Inl e \<Rightarrow> Inl (scopeIfMaintenance e) | Inr logs \<Rightarrow> Inr logs), t) \<and> tab t = tab s"
proof -
  obtain r t where run: "GetLogs kc tags cfg crit s = (r, t)" by fastforce
  have h: "healthy t" using healthy_framed [OF framed_GetLogs run] assms(4) by (simp add: quiet_def)
  note tr = GetLogs_triple [OF assms(1-3), of False cfg]
  have s: "tab s = tab s \<and> maintenance_locked s = False" using assms(4) by (simp add: quiet_def)
  show ?thesis
  proof (cases r)
    case (Inl e)
    then show ?thesis using triple_error [OF tr s] run h assms(4) by (auto simp: quiet_def)
  next
    case (Inr logs)
    then show ?thesis using triple_value [OF tr s] run by auto
  qed
qed

text \<open>
  C31. A request in scope is served: on a healthy warehouse that is not under maintenance, a
  range of blocks inside the published coverage with no more matches than \<open>MaxResults\<close> (any number
  of them when that is 0) is answered with all its matching logs. (\<open>MaxResults\<close> is not the greatest
  \<open>int\<close>, for which \<open>buildFilter\<close> prints a negative \<open>LIMIT\<close>.)
\<close>

theorem GetLogs_serves:
  assumes "tags_ok tags" and "warehouse_ok (tab s)" and "in_scope kc crit" and "quiet s"
    and "coverage_of (tab s) = Some c" and "cBlockHash crit = None"
    and "int64_arg (cFromBlock crit)" and "int64_arg (cToBlock crit)"
    and "names_range tags crit (tab s) c from to" and "covStart c \<le> from" and "from \<le> to" and "to \<le> covHead c"
    and "0 < MaxResults cfg \<longrightarrow> int (length (filter (log_matches kc (query_of crit from to)) (stored_logs (tab s)))) \<le> MaxResults cfg"
    and "MaxResults cfg < 2 ^ 63 - 1"
  shows "\<exists>t. GetLogs kc tags cfg crit s =
    (Inr (filter (log_matches kc (query_of crit from to)) (stored_logs (tab s))), t) \<and> tab t = tab s"
proof -
  have "resolve_pure tags crit c (tab s) = Inr (query_of crit from to, False)"
    using assms(6,9-12) resolve_numbers_eval [OF assms(1) _ _ assms(7,8,11), of c]
    by (simp add: resolve_pure_def names_range_def not_less [symmetric])
  then have "get_logs_pure kc tags cfg crit (tab s) = Inr (filter (log_matches kc (query_of crit from to)) (stored_logs (tab s)))"
    using assms(5,13,14) by (auto simp: get_logs_pure_def answer_def Let_def)
  with GetLogs_quiet [OF assms(1-4), of cfg] show ?thesis by simp
qed

text \<open>
  C32. A range that leaves the published coverage on either side is refused with a
  \<open>ScopeError\<close>, never answered in part: a hole is never served as "no logs".
\<close>

theorem GetLogs_refuses_outside:
  assumes "tags_ok tags" and "warehouse_ok (tab s)" and "in_scope kc crit" and "quiet s"
    and "coverage_of (tab s) = Some c" and "cBlockHash crit = None"
    and "int64_arg (cFromBlock crit)" and "int64_arg (cToBlock crit)"
    and "names_range tags crit (tab s) c from to" and "from \<le> to" and "from < covStart c \<or> covHead c < to"
  shows "\<exists>m t. GetLogs kc tags cfg crit s = (Inl (ScopeError m), t) \<and> tab t = tab s"
proof -
  obtain m where "resolve_pure tags crit c (tab s) = Inl (ScopeError m)"
    using assms(6,9,11) resolve_numbers_eval [OF assms(1) _ _ assms(7,8,10), of c]
    by (auto simp: resolve_pure_def names_range_def split: if_splits)
  then have "get_logs_pure kc tags cfg crit (tab s) = Inl (ScopeError m)"
    using assms(5) by (simp add: get_logs_pure_def)
  with GetLogs_quiet [OF assms(1-4), of cfg] have "\<exists>t. GetLogs kc tags cfg crit s = (Inl (ScopeError m), t) \<and> tab t = tab s"
    by (simp add: scopeIfMaintenance_def)
  then show ?thesis by blast
qed

text \<open>\<open>eth_blockNumber\<close>: the head of the coverage.\<close>

lemma computes_api_coverage_body:
  "computes t0 (andThen readCoverage (\<lambda>cov. case cov of None \<Rightarrow> throw (ScopeError ''warehouse is empty'') | Some c \<Rightarrow> ret c))
     (case coverage_of t0 of None \<Rightarrow> Inl (ScopeError ''warehouse is empty'') | Some c \<Rightarrow> Inr c)"
proof (rule computes_eq)
  show "computes t0 (andThen readCoverage (\<lambda>cov. case cov of None \<Rightarrow> throw (ScopeError ''warehouse is empty'') | Some c \<Rightarrow> ret c))
     (case Inr (coverage_of t0) of Inl e \<Rightarrow> Inl e
      | Inr cov \<Rightarrow> (case cov of None \<Rightarrow> Inl (ScopeError ''warehouse is empty'') | Some c \<Rightarrow> Inr c))"
  proof (rule computes_andThen [OF computes_readCoverage])
    show "computes t0 (case cov of None \<Rightarrow> throw (ScopeError ''warehouse is empty'') | Some c \<Rightarrow> ret c)
       (case cov of None \<Rightarrow> Inl (ScopeError ''warehouse is empty'') | Some c \<Rightarrow> Inr c)" for cov
      by (cases cov) (simp_all add: computes_rules)
  qed
qed simp

text \<open>
  \<open>eth_blockNumber\<close> reports the head of the published coverage of a warehouse that is not
  under maintenance, and nothing else: not the chain tip, and no number for an empty warehouse.
\<close>

theorem BlockNumber_is_head:
  assumes "BlockNumber s = (Inr n, t)"
  shows "tab t = tab s \<and> \<not> maintenance (tab s) \<and> \<not> maintenance_locked s \<and>
    (\<exists>c. coverage_of (tab s) = Some c \<and> n = covHead c)"
proof -
  let ?body = "andThen readCoverage (\<lambda>cov. case cov of None \<Rightarrow> throw (ScopeError ''warehouse is empty'') | Some c \<Rightarrow> ret c)"
  have fr: "framed ?body" by (intro framed_rules)
  obtain c where run: "Read ?body s = (Inr c, t)" "n = covHead c"
    using assms by (auto simp: BlockNumber_def api_coverage_def step_simps)
  have "triple (\<lambda>u. tab u = tab s \<and> maintenance_locked u = maintenance_locked s) (Read ?body)
      (\<lambda>x u. tab u = tab s \<and> (case coverage_of (tab s) of None \<Rightarrow> Inl (ScopeError ''warehouse is empty'') | Some c \<Rightarrow> Inr c) = Inr x \<and>
         \<not> maintenance (tab s) \<and> \<not> maintenance_locked s)
      (\<lambda>e u. tab u = tab s \<and> (healthy u \<longrightarrow>
         (case coverage_of (tab s) of None \<Rightarrow> Inl (ScopeError ''warehouse is empty'') | Some c \<Rightarrow> Inr c) = Inl e \<or>
         e = Sentinel ErrMaintenance \<and> (maintenance (tab s) \<or> maintenance_locked s)))"
    using computes_api_coverage_body [of "tab s"] unfolding computes_def by (intro triple_Read fr) auto
  from triple_value [OF this _ run(1)] run(2) show ?thesis
    by (auto split: option.splits)
qed

end
