(* ===== verification/ApiErrors.thy ===== *)
theory ApiErrors
  imports ApiFacts
begin

text \<open>
  How the API's refusals look to a client that classifies errors by their text
  (\<open>chain/errors.go\<close> is such a client): a scope error is never taken for a range cap to be
  halved, the result cap always is.
\<close>

section \<open>Phrases and printed values\<close>

text \<open>\<open>weave c0 [(v1, c1), ...]\<close> is a message: constant text with printed values in between.\<close>

fun weave :: "string \<Rightarrow> (string \<times> string) list \<Rightarrow> string" where
  "weave c [] = c"
| "weave c ((v, d) # ps) = c @ v @ weave d ps"

definition hex_chars :: "char set" where
  "hex_chars = set ''0123456789abcdefx''"

definition hexish :: "string \<Rightarrow> bool" where
  "hexish v \<longleftrightarrow> v \<noteq> [] \<and> set v \<subseteq> hex_chars"

lemma hex_digits: "set ''0123456789abcdef'' \<subseteq> hex_chars"
  by (simp add: hex_chars_def)

lemma hexish_show_u64 [simp]: "hexish (show_u64 w)"
  unfolding hexish_def show_u64_def using order.trans [OF set_dec hex_digits] by simp

lemma hexish_hash_hex [simp]: "hexish (hash_hex h)"
proof -
  have "digit d \<in> hex_chars" for d using digit_in hex_digits by blast
  then have "set (concat (map hex_byte bs)) \<subseteq> hex_chars" for bs
    by (induction bs) (simp_all add: hex_byte_def)
  moreover have "CHR ''0'' \<in> hex_chars" "CHR ''x'' \<in> hex_chars" by (simp_all add: hex_chars_def)
  ultimately show ?thesis by (simp add: hexish_def hash_hex_def)
qed

lemma weave_apart:
  assumes "n \<noteq> []" "set n \<inter> hex_chars = {}"
    and "\<not> sublist n c" and "\<forall>(v, d) \<in> set ps. hexish v \<and> \<not> sublist n d"
  shows "\<not> sublist n (weave c ps)"
  using assms(3,4)
proof (induction ps arbitrary: c)
  case (Cons p ps)
  obtain v d where p: "p = (v, d)" by (cases p)
  have v: "v \<noteq> []" "set n \<inter> set v = {}"
    using Cons.prems(2) p assms(2) by (auto simp: hexish_def)
  have "\<not> sublist n (weave d ps)" using Cons p by auto
  with Cons.prems(1) sublist_around [OF _ v(2,1) assms(1), of c "weave d ps"] show ?case
    by (auto simp: p)
qed simp

section \<open>The phrases of the classifier\<close>

definition cap_phrases :: "string list" where
  "cap_phrases =
     [''query returned more than'', ''too many results'', ''too many logs'', ''exceeds max results'',
      ''exceeds limit of'', ''block range limit'', ''exceeds max block range'',
      ''block range is too wide'', ''range too large'', ''range is too large'', ''limited to'']"

text \<open>Each phrase has a core without hexadecimal characters.\<close>

definition cores :: "string list" where
  "cores = [''y r'', ''too m'', ''s m'', ''s limit'', ''k r'', ''too l'', ''limit'']"

lemma phrase_core: "n \<in> set cap_phrases \<Longrightarrow> \<exists>k \<in> set cores. sublist k n"
proof -
  have "list_all (\<lambda>n. list_ex (\<lambda>k. sublist k n) cores) cap_phrases" by code_simp
  then show "n \<in> set cap_phrases \<Longrightarrow> \<exists>k \<in> set cores. sublist k n" by (auto simp: list_all_iff list_ex_iff)
qed

lemma cores_apart: "k \<in> set cores \<Longrightarrow> k \<noteq> [] \<and> set k \<inter> hex_chars = {}"
  by (auto simp: cores_def hex_chars_def)

lemma classified_has_core:
  assumes "IsTooManyResultsError (Some (ScopeError m))"
  shows "\<exists>k \<in> set cores. sublist k (ToLower (Error (ScopeError m)))"
proof -
  have "\<not> isInvalidParams (ScopeError m)" by (simp add: isInvalidParams_def errors_As_def)
  then have "\<exists>n \<in> set cap_phrases. sublist n (ToLower (Error (ScopeError m)))"
    using assms
    by (auto simp: IsTooManyResultsError_def IsBlockRangeCapError_def containsAny_def contains_list_iff cap_phrases_def
        split: if_splits)
  then show ?thesis
    using phrase_core sublist_order.order.trans by blast
qed

section \<open>The texts of the scope errors\<close>

definition scope_text :: "string \<Rightarrow> bool" where
  "scope_text m \<longleftrightarrow> (\<exists>c ps. ToLower (Error (ScopeError m)) = weave c ps \<and>
     (\<forall>k \<in> set cores. \<not> sublist k c) \<and> (\<forall>(v, d) \<in> set ps. hexish v \<and> (\<forall>k \<in> set cores. \<not> sublist k d)))"

lemma scope_text_not_cap: "scope_text m \<Longrightarrow> \<not> IsTooManyResultsError (Some (ScopeError m))"
proof
  assume "scope_text m" and cap: "IsTooManyResultsError (Some (ScopeError m))"
  then obtain c ps where m: "ToLower (Error (ScopeError m)) = weave c ps" "\<forall>k \<in> set cores. \<not> sublist k c"
    "\<forall>(v, d) \<in> set ps. hexish v \<and> (\<forall>k \<in> set cores. \<not> sublist k d)"
    by (auto simp only: scope_text_def)
  from classified_has_core [OF cap] obtain k where k: "k \<in> set cores" "sublist k (weave c ps)"
    unfolding m(1) by blast
  have "\<not> sublist k (weave c ps)"
    by (rule weave_apart) (use cores_apart [OF k(1)] m(2,3) k(1) in auto)
  with k(2) show False by contradiction
qed

lemma ToLower_hexish: "hexish v \<Longrightarrow> ToLower v = v"
proof -
  have "list_all (\<lambda>c. char_lower c = c) ''0123456789abcdefx''" by code_simp
  then show "hexish v \<Longrightarrow> ToLower v = v"
    unfolding hexish_def ToLower_def hex_chars_def by (intro map_idI) (auto simp: list_all_iff)
qed

text \<open>Constant pieces that contain no core, checked by evaluation.\<close>

definition plain :: "string \<Rightarrow> bool" where
  "plain c \<longleftrightarrow> ToLower c = c \<and> list_all (\<lambda>k. \<not> sublist k c) cores"

lemma scope_textI:
  assumes "Error (ScopeError m) = weave c ps" and "plain c" and "\<forall>(v, d) \<in> set ps. hexish v \<and> plain d"
  shows "scope_text m"
proof -
  have "ToLower (weave c ps) = weave c ps" if "plain c" "\<forall>(v, d) \<in> set ps. hexish v \<and> plain d" for c ps
    using that by (induction ps arbitrary: c) (auto simp: plain_def ToLower_hexish)
  with assms show ?thesis
    unfolding scope_text_def by (intro exI [of _ c] exI [of _ ps]) (auto simp: plain_def list_all_iff)
qed

lemma scope_text_constant:
  assumes "plain (''out of warehouse scope: '' @ m)"
  shows "scope_text m"
  by (rule scope_textI [OF _ assms, where ps = "[]"]) simp_all

lemma scope_texts:
  "scope_text ''warehouse is empty''"
  "scope_text ''warehouse is under maintenance (a backfill is reloading it); ask a node''"
  "scope_text ''filter must name at least one warehouse event signature in topics[0]''"
  "scope_text ''safe and finalized block tags are not served (the warehouse head is only confirmation_blocks deep); ask a node''"
  by (rule scope_text_constant, code_simp)+

lemma scope_text_signature: "scope_text (''topic0 '' @ hash_hex h @ '' is not a warehouse event signature'')"
proof (rule scope_textI)
  show "Error (ScopeError (''topic0 '' @ hash_hex h @ '' is not a warehouse event signature'')) =
      weave ''out of warehouse scope: topic0 '' [(hash_hex h, '' is not a warehouse event signature'')]" by simp
  have "plain ''out of warehouse scope: topic0 ''" "plain '' is not a warehouse event signature''" by code_simp+
  then show "plain ''out of warehouse scope: topic0 ''"
    "\<forall>(v, d) \<in> set [(hash_hex h, '' is not a warehouse event signature'')]. hexish v \<and> plain d" by simp_all
qed

lemma scope_text_above: "scope_text (''blocks '' @ show_u64 a @ ''-'' @ show_u64 b @ '' extend above the warehouse head '' @ show_u64 n)"
  and scope_text_below: "scope_text (''blocks '' @ show_u64 a @ ''-'' @ show_u64 b @ '' extend below the warehouse coverage start '' @ show_u64 n)"
  and scope_text_block: "scope_text (''block '' @ show_u64 a @ '' ('' @ hash_hex h @ '') is outside the warehouse coverage '' @ show_u64 b @ ''-'' @ show_u64 n)"
proof -
  have p: "plain ''out of warehouse scope: blocks ''" "plain ''out of warehouse scope: block ''" "plain ''-''"
    "plain '' extend above the warehouse head ''" "plain '' extend below the warehouse coverage start ''"
    "plain '' (''" "plain '') is outside the warehouse coverage ''" "plain ''''" by code_simp+
  show "scope_text (''blocks '' @ show_u64 a @ ''-'' @ show_u64 b @ '' extend above the warehouse head '' @ show_u64 n)"
    by (rule scope_textI [where c = "''out of warehouse scope: blocks ''" and
      ps = "[(show_u64 a, ''-''), (show_u64 b, '' extend above the warehouse head ''), (show_u64 n, '''')]"]) (simp_all add: p)
  show "scope_text (''blocks '' @ show_u64 a @ ''-'' @ show_u64 b @ '' extend below the warehouse coverage start '' @ show_u64 n)"
    by (rule scope_textI [where c = "''out of warehouse scope: blocks ''" and
      ps = "[(show_u64 a, ''-''), (show_u64 b, '' extend below the warehouse coverage start ''), (show_u64 n, '''')]"]) (simp_all add: p)
  show "scope_text (''block '' @ show_u64 a @ '' ('' @ hash_hex h @ '') is outside the warehouse coverage '' @ show_u64 b @ ''-'' @ show_u64 n)"
    by (rule scope_textI [where c = "''out of warehouse scope: block ''" and
      ps = "[(show_u64 a, '' (''), (hash_hex h, '') is outside the warehouse coverage ''), (show_u64 b, ''-''), (show_u64 n, '''')]"])
      (simp_all add: p)
qed

lemma check_signatures_scope:
  "check_signatures kc sigs = Some e \<Longrightarrow> \<exists>m. e = ScopeError m \<and> scope_text m"
proof (induction sigs)
  case (Cons sig sigs)
  then show ?case
    using scope_text_signature [of sig] by (auto split: if_splits)
qed simp

lemma checkTopicScope_scope:
  assumes "checkTopicScope kc topics = Some e"
  shows "\<exists>m. e = ScopeError m \<and> scope_text m"
proof (cases "topics = [] \<or> hd topics = []")
  case True
  then have "e = ScopeError ''filter must name at least one warehouse event signature in topics[0]''"
    using assms unfolding checkTopicScope_def by (cases topics) simp_all
  then show ?thesis using scope_texts(3) by blast
next
  case False
  then have "check_signatures kc (hd topics) = Some e"
    using assms unfolding checkTopicScope_def by (cases topics) simp_all
  then show ?thesis by (rule check_signatures_scope)
qed

lemma resolveSpecial_scope: "resolveSpecial tags i head = Inl (ScopeError m) \<Longrightarrow> scope_text m"
  using scope_texts(4) unfolding resolveSpecial_def by (simp split: if_splits)

lemma resolve_numbers_scope:
  assumes "resolve_numbers tags crit c = Inl (ScopeError m)"
  shows "scope_text m"
proof -
  note special = resolveSpecial_scope and above = scope_text_above and below = scope_text_below
  show ?thesis
    using assms unfolding resolve_numbers_def Let_def
    by (simp only: errInvalidBlockRange_def errPendingLogsUnsupported_def sum.inject sum.distinct err.inject err.distinct
        split: if_splits sum.splits) (use special above below in blast)+
qed

lemma resolve_pure_scope:
  assumes "resolve_pure tags crit c t = Inl (ScopeError m)"
  shows "scope_text m"
proof (cases "cBlockHash crit")
  case None
  with assms resolve_numbers_scope show ?thesis by (simp add: resolve_pure_def)
next
  case (Some h)
  then show ?thesis
    using assms scope_text_block unfolding resolve_pure_def
    by (simp only: option.case Let_def errUnknownBlock_def split: option.splits if_splits) (use scope_text_block in blast)+
qed

lemma get_logs_pure_scope:
  assumes "get_logs_pure kc tags cfg crit t = Inl (ScopeError m)"
  shows "scope_text m"
proof (cases "coverage_of t")
  case None
  with assms scope_texts(1) show ?thesis by (simp add: get_logs_pure_def del: Error.simps)
next
  case (Some c)
  have "resolve_pure tags crit c t = Inl (ScopeError m)"
    using assms Some by (auto simp: get_logs_pure_def answer_def Let_def split: sum.splits if_splits)
  then show ?thesis by (rule resolve_pure_scope)
qed

text \<open>
  A scope error is never taken for a result or range cap: no \<open>ScopeError\<close> that
  \<open>eth_getLogs\<close> returns on a healthy connection matches the phrases by which an indexer's
  pagination decides to halve its window, whatever numbers and hashes it prints.
\<close>

theorem ScopeError_is_no_cap:
  assumes "tags_ok tags" and "warehouse_ok (tab s)" and "healthy s"
    and run: "GetLogs kc tags cfg crit s = (Inl (ScopeError m), t)"
  shows "\<not> IsTooManyResultsError (Some (ScopeError m)) \<and> \<not> IsBlockRangeCapError (Some (ScopeError m))"
proof -
  have h: "healthy t" using healthy_framed [OF framed_GetLogs run] assms(3) by simp
  have maint: "scope_text m'" if "scopeIfMaintenance e = ScopeError m'" "\<And>x. e = ScopeError x \<Longrightarrow> scope_text x" for e m'
    using that scope_texts(2) by (auto simp: scopeIfMaintenance_def simp del: Error.simps split: if_splits)
  have "scope_text m"
  proof (cases "in_scope kc crit")
    case True
    from triple_error [OF GetLogs_triple [OF assms(1,2) True, where b = "maintenance_locked s" and cfg = cfg],
        where s = s and e = "ScopeError m" and t = t] run h
    obtain e where "scopeIfMaintenance e = ScopeError m" "get_logs_pure kc tags cfg crit (tab s) = Inl e \<or> e = Sentinel ErrMaintenance"
      by auto
    then show ?thesis using maint get_logs_pure_scope by (metis err.distinct(31))
  next
    case False
    then have "checkTopicScope kc (cTopics crit) = Some (ScopeError m)"
      using run unfolding GetLogs_def in_scope_def
      by (auto simp: throw_def errExceedMaxTopics_def checkTopicScope_None split: if_splits option.splits)
    from checkTopicScope_scope [OF this] show ?thesis by simp
  qed
  then have "\<not> IsTooManyResultsError (Some (ScopeError m))" by (rule scope_text_not_cap)
  then show ?thesis by (auto simp: IsTooManyResultsError_def)
qed

text \<open>
  The result cap is always recognised: when the matches of a request in scope exceed
  \<open>MaxResults\<close>, \<open>eth_getLogs\<close> fails with an error the classifier takes for too many
  results, so a paginating client halves its window instead of failing.
\<close>

theorem result_cap_is_recognised:
  assumes "tags_ok tags" and "warehouse_ok (tab s)" and "in_scope kc crit" and "quiet s"
    and "coverage_of (tab s) = Some c" and "cBlockHash crit = None"
    and "int64_arg (cFromBlock crit)" and "int64_arg (cToBlock crit)"
    and "names_range tags crit (tab s) c from to" and "covStart c \<le> from" and "from \<le> to" and "to \<le> covHead c"
    and "0 < MaxResults cfg" "MaxResults cfg < 2 ^ 63 - 1"
    and "MaxResults cfg < int (length (filter (log_matches kc (query_of crit from to)) (stored_logs (tab s))))"
  shows "\<exists>e t. GetLogs kc tags cfg crit s = (Inl e, t) \<and> IsTooManyResultsError (Some e)"
proof -
  let ?cap = "ErrNew (''query returned more than '' @ show_int (MaxResults cfg) @ '' results'')"
  have "resolve_pure tags crit c (tab s) = Inr (query_of crit from to, False)"
    using assms(6,9-12) resolve_numbers_eval [OF assms(1) _ _ assms(7,8,11), of c]
    by (simp add: resolve_pure_def names_range_def not_less [symmetric])
  then have "get_logs_pure kc tags cfg crit (tab s) = Inl ?cap"
    using assms(5,13-15) by (simp add: get_logs_pure_def answer_def)
  then have run: "\<exists>t. GetLogs kc tags cfg crit s = (Inl ?cap, t)"
    using GetLogs_quiet [OF assms(1-4), of cfg] by (auto simp: scopeIfMaintenance_def)
  have phrase: "ToLower ''query returned more than '' = ''query returned more than''@ '' ''" by code_simp
  have "sublist ''query returned more than'' (ToLower (Error ?cap))"
    unfolding Error.simps ToLower_append phrase append_assoc by (rule prefix_imp_sublist) simp
  then have "IsTooManyResultsError (Some ?cap)"
    by (simp add: IsTooManyResultsError_def containsAny_def Contains_def del: Error.simps)
  with run show ?thesis by blast
qed

section \<open>A warehouse that serves\<close>

definition go_tags :: block_tags where
  "go_tags = \<lparr>LatestBlockNumber = -2, PendingBlockNumber = -1, SafeBlockNumber = -4, FinalizedBlockNumber = -3,
     EarliestBlockNumber = -5\<rparr>"

definition metadata_log :: "u64 \<Rightarrow> hash \<Rightarrow> log" where
  "metadata_log n h = \<lparr>logAddress = 0x77, logTopics = [MetadataUpdate mainnet_keccak], logData = Some [1, 2], logBlockNumber = n,
     logTxHash = 0x5, logTxIndex = 0, logBlockHash = h, logBlockTimestamp = 0, logIndex = 0, logRemoved = False\<rparr>"

definition serving_pg :: pg where
  "serving_pg = snd (WriteRange 10 11 sample_blocks [metadata_log 10 0xa, metadata_log 11 0xb] (connect fresh_tables))"

definition metadata_request :: FilterCriteria where
  "metadata_request = \<lparr>cBlockHash = None, cFromBlock = Some 10, cToBlock = None, cAddresses = [],
     cTopics = [[MetadataUpdate mainnet_keccak]], cERC1155ID = None\<rparr>"

lemma go_tags_ok: "tags_ok go_tags"
  by (simp add: tags_ok_def go_tags_def)

lemma serving_ok: "warehouse_ok (tab serving_pg)"
proof -
  have "({10..11} :: u64 set) = {10, 11}"
    by (auto simp: word_le_nat_alt word_less_nat_alt word_unat_eq_iff)
  then have "batch_covers 10 11 sample_blocks [metadata_log 10 0xa, metadata_log 11 0xb]"
    by (simp add: batch_covers_def sample_blocks_def metadata_log_def wf_log_def fits_int64_def plausible_def)
  then show ?thesis
    using write_committed_ok [OF fresh_ok] WriteRange_tables [of 10 11 sample_blocks _ "connect fresh_tables"] fresh_ok
    unfolding serving_pg_def by (metis connect_simps(1) prod.collapse)
qed

lemma serving_facts:
  "coverage_of (tab serving_pg) = Some \<lparr>covStart = 10, covHead = 11\<rparr>"
  "maintenance (tab serving_pg) = False" "maintenance_locked serving_pg = False"
  "in_scope mainnet_keccak metadata_request"
  "length (filter (log_matches mainnet_keccak (query_of metadata_request 10 11)) (stored_logs (tab serving_pg))) = 2"
  by code_simp+

lemma serving_healthy: "healthy serving_pg"
proof -
  have "framed (WriteRange 10 11 sample_blocks [metadata_log 10 0xa, metadata_log 11 0xb])" by (intro framed_rules)
  then show ?thesis
    using healthy_framed [of _ "connect fresh_tables" _ serving_pg] unfolding serving_pg_def
    by (metis connect_simps(2) prod.collapse)
qed

lemma serving_quiet: "quiet serving_pg"
  by (simp add: quiet_def serving_healthy serving_facts)

lemma request_range:
  "names_range go_tags metadata_request t \<lparr>covStart = 10, covHead = 11\<rparr> 10 11"
  "cBlockHash metadata_request = None" "int64_arg (cFromBlock metadata_request)" "int64_arg (cToBlock metadata_request)"
  by (simp_all add: names_range_def names_block_def metadata_request_def go_tags_def int64_arg_def uint64_def)

theorem GetLogs_serves_witness:
  "\<exists>t. GetLogs mainnet_keccak go_tags \<lparr>ChainID = 1, MaxResults = 10\<rparr> metadata_request serving_pg =
    (Inr (filter (log_matches mainnet_keccak (query_of metadata_request 10 11)) (stored_logs (tab serving_pg))), t) \<and>
    tab t = tab serving_pg"
  by (rule GetLogs_serves [OF go_tags_ok serving_ok serving_facts(4) serving_quiet serving_facts(1) request_range(2-4,1)])
    (simp_all add: serving_facts(5))

theorem GetLogs_exact_witness:
  "\<exists>logs t. GetLogs mainnet_keccak go_tags \<lparr>ChainID = 1, MaxResults = 10\<rparr> metadata_request serving_pg = (Inr logs, t) \<and>
    tab t = tab serving_pg"
proof -
  have "isl (fst (GetLogs mainnet_keccak go_tags \<lparr>ChainID = 1, MaxResults = 10\<rparr> metadata_request serving_pg)) = False"
    by code_simp
  then obtain logs t where run: "GetLogs mainnet_keccak go_tags \<lparr>ChainID = 1, MaxResults = 10\<rparr> metadata_request serving_pg = (Inr logs, t)"
    by (metis isl_def prod.collapse sum.exhaust_sel sum.disc(1))
  with GetLogs_exact [OF go_tags_ok serving_ok this] show ?thesis by blast
qed

theorem GetLogs_refuses_outside_witness:
  "\<exists>m t. GetLogs mainnet_keccak go_tags \<lparr>ChainID = 1, MaxResults = 10\<rparr> (metadata_request\<lparr>cFromBlock := Some 9\<rparr>) serving_pg =
    (Inl (ScopeError m), t) \<and> tab t = tab serving_pg"
proof -
  have scope: "in_scope mainnet_keccak (metadata_request\<lparr>cFromBlock := Some 9\<rparr>)" by code_simp
  show ?thesis
    by (rule GetLogs_refuses_outside [OF go_tags_ok serving_ok scope serving_quiet serving_facts(1), where ?from = 9 and to = 11])
      (simp_all add: names_range_def names_block_def metadata_request_def go_tags_def int64_arg_def uint64_def)
qed

theorem BlockNumber_is_head_witness:
  "\<exists>t. BlockNumber serving_pg = (Inr 11, t) \<and> tab t = tab serving_pg"
proof -
  have "fst (BlockNumber serving_pg) = Inr 11" by code_simp
  then obtain t where "BlockNumber serving_pg = (Inr 11, t)" by (metis prod.collapse)
  with BlockNumber_is_head [OF this] show ?thesis by blast
qed

theorem ScopeError_is_no_cap_witness:
  "\<not> IsTooManyResultsError (Some (ScopeError ''blocks 9-11 extend below the warehouse coverage start 10''))"
proof -
  let ?r = "GetLogs mainnet_keccak go_tags \<lparr>ChainID = 1, MaxResults = 10\<rparr> (metadata_request\<lparr>cFromBlock := Some 9\<rparr>) serving_pg"
  have "fst ?r = Inl (ScopeError ''blocks 9-11 extend below the warehouse coverage start 10'')" by code_simp
  then have "?r = (Inl (ScopeError ''blocks 9-11 extend below the warehouse coverage start 10''), snd ?r)"
    by (simp add: prod_eq_iff)
  from ScopeError_is_no_cap [OF go_tags_ok serving_ok serving_healthy this] show ?thesis by simp
qed

theorem result_cap_is_recognised_witness:
  "\<exists>e t. GetLogs mainnet_keccak go_tags \<lparr>ChainID = 1, MaxResults = 1\<rparr> metadata_request serving_pg = (Inl e, t) \<and>
    IsTooManyResultsError (Some e)"
  by (rule result_cap_is_recognised [OF go_tags_ok serving_ok serving_facts(4) serving_quiet serving_facts(1) request_range(2-4,1)])
    (simp_all add: serving_facts(5))

end
