(* ===== verification/Client.thy ===== *)
theory Client
  imports Types Errors
begin

text \<open>
  \<open>internal/chain/client.go\<close>: the provider as the rest of the program sees it (the interface
  \<open>EthClient\<close>), and its implementation with retries: which failures are retried, and what an
  error looks like once it leaves the package.

  The provider's state \<open>'p\<close> is left open: every operation is a step over it, so a property
  holds for every node, network and clock. \<open>net/url\<close>'s \<open>Parse\<close> (argument \<open>parse\<close>),
  \<open>regexp\<close>'s \<open>ReplaceAllStringFunc\<close> on the URL pattern (\<open>replace\<close>) and \<open>backoff.Retry\<close>
  (\<open>retry\<close>) are other people's code and stay parameters.
\<close>

section \<open>The interface\<close>

text \<open>
  A receipt is the list of its logs. \<open>CtxErr\<close> is \<open>ctx.Err()\<close> at the moment it is called,
  \<open>TimeoutErr p\<close> that of the context derived with a deadline at the moment \<open>p\<close> (or of the
  caller's, when that has a deadline), and \<open>SleepOp\<close> the clock's \<open>Sleep\<close>.
\<close>

record 'p eth_client =
  SubscribeNewHeadOp :: "('p, err, unit) step"
  FilterLogsOp :: "u64 \<Rightarrow> u64 \<Rightarrow> hash list \<Rightarrow> ('p, err, log list) step"
  HeadByNumberOp :: "u64 \<Rightarrow> ('p, err, block_head) step"
  BlockReceiptsOp :: "u64 \<Rightarrow> ('p, err, log list list) step"
  BlockNumberOp :: "('p, err, u64) step"
  ChainIDOp :: "('p, err, u64) step"
  CtxErr :: "'p \<Rightarrow> err option"
  TimeoutErr :: "'p \<Rightarrow> 'p \<Rightarrow> err option"
  SleepOp :: "'p \<Rightarrow> 'p"

section \<open>Redaction\<close>

definition endpointForLogs :: "(string \<Rightarrow> (string \<times> string) option) \<Rightarrow> string \<Rightarrow> string" where
  "endpointForLogs parse rawurl =
     (case parse rawurl of
        None \<Rightarrow> ''<redacted>''
      | Some (scheme, host) \<Rightarrow> if host = '''' then ''<redacted>'' else scheme @ ''://'' @ host)"

definition RedactURLs :: "(string \<Rightarrow> string) \<Rightarrow> err \<Rightarrow> err" where
  "RedactURLs clean e = (if clean (Error e) = Error e then e else RedactedError (clean (Error e)) e)"

section \<open>Which failures are retried\<close>

definition retryableMessages :: "string list" where
  "retryableMessages =
     [''connection refused'', ''connection reset'', ''connection timed out'',
      ''query cancelled'',
      ''i/o timeout'', ''broken pipe'', ''rate limit'', ''too many requests'',
      ''service unavailable'', ''bad gateway'', ''gateway timeout'', ''temporarily unavailable'',
      ''econnreset'', ''etimedout'', ''eof'',
      ''internal error'',
      ''502'', ''503'', ''504'']"

text \<open>
  The standard library's timeouts. \<open>timeout_of\<close> is the \<open>Timeout()\<close> method where an error has
  one; \<open>net_error\<close> is that method of the errors that are a \<open>net.Error\<close> (which
  \<open>os.SyscallError\<close> is not).
\<close>

fun errno_timeout :: "errno \<Rightarrow> bool" where
  "errno_timeout ETIMEDOUT = True"
| "errno_timeout (OtherErrno n) = (n = 11)"
| "errno_timeout _ = False"

fun timeout_of :: "err \<Rightarrow> bool option" where
  "timeout_of (UrlError m e) = Some (timeout_of e = Some True)"
| "timeout_of (OpError m e) = Some (timeout_of e = Some True)"
| "timeout_of (SyscallError m e) = Some (timeout_of e = Some True)"
| "timeout_of (Errno n m) = Some (errno_timeout n)"
| "timeout_of (DNSError m temp t) = Some t"
| "timeout_of (NetTimeout m) = Some True"
| "timeout_of (Sentinel DeadlineExceeded) = Some True"
| "timeout_of _ = None"

definition net_error :: "err \<Rightarrow> bool option" where
  "net_error e = (case e of SyscallError m e' \<Rightarrow> None | _ \<Rightarrow> timeout_of e)"

definition as_url_error :: "err \<Rightarrow> err option" where
  "as_url_error e = (case e of UrlError m e' \<Rightarrow> Some e' | _ \<Rightarrow> None)"

definition as_op_error :: "err \<Rightarrow> err option" where
  "as_op_error e = (case e of OpError m e' \<Rightarrow> Some e' | _ \<Rightarrow> None)"

definition as_dns_error :: "err \<Rightarrow> (bool \<times> bool) option" where
  "as_dns_error e = (case e of DNSError m temp t \<Rightarrow> Some (temp, t) | _ \<Rightarrow> None)"

definition is_errno :: "errno list \<Rightarrow> err \<Rightarrow> bool" where
  "is_errno ns e = (case e of Errno n m \<Rightarrow> n \<in> set ns | _ \<Rightarrow> False)"

definition isTransientSyscall :: "err \<Rightarrow> bool" where
  "isTransientSyscall e = list_ex (is_errno [ECONNREFUSED, ECONNRESET, ENETUNREACH, EHOSTUNREACH]) (err_chain e)"

definition isRetryableEthError :: "err \<Rightarrow> bool" where
  "isRetryableEthError e0 =
     (if errors_Is e0 Canceled \<or> errors_Is e0 DeadlineExceeded then False
      else
        let e = (case errors_As as_url_error e0 of Some inner \<Rightarrow> inner | None \<Rightarrow> e0) in
        if errors_As net_error e = Some True then True
        else if (case errors_As as_op_error e of Some inner \<Rightarrow> isTransientSyscall inner | None \<Rightarrow> False) then True
        else (case errors_As as_dns_error e of
          Some (temp, t) \<Rightarrow> temp \<or> t
        | None \<Rightarrow> contains_list (ToLower (Error e)) retryableMessages))"

section \<open>executeWithRetry\<close>

text \<open>
  One attempt: the operation under its own deadline, its error redacted and classified. \<open>clean\<close>
  is \<open>urlPattern.ReplaceAllStringFunc(_, endpointForLogs)\<close>, \<open>timeout\<close> the printed deadline.
\<close>

definition attempt :: "'p eth_client \<Rightarrow> (string \<Rightarrow> string) \<Rightarrow> string \<Rightarrow> string \<Rightarrow> ('p, err, 'a) step \<Rightarrow> ('p, err, 'a) step" where
  "attempt c clean timeout operationName operation p =
     (case operation p of
        (Inr x, p) \<Rightarrow> (Inr x, p)
      | (Inl e0, p) \<Rightarrow>
          let e = RedactURLs clean e0 in
          if errors_Is e DeadlineExceeded \<and> CtxErr c p = None
          then (Inl (Wrapf (''retryable error: '' @ operationName @ '' exceeded '' @ timeout @ '': '') e ''''), p)
          else if isRetryableEthError e then (Inl (Wrapf ''retryable error: '' e ''''), p)
          else (Inl (Permanent (Wrapf ''permanent error: '' e '''')), p))"

type_synonym ('p, 'a) backoff = "('p, err, 'a) step \<Rightarrow> ('p, err, 'a) step"

definition executeWithRetry ::
  "'p eth_client \<Rightarrow> ('p, 'a) backoff \<Rightarrow> (string \<Rightarrow> string) \<Rightarrow> string \<Rightarrow> ('p, err, 'a) step \<Rightarrow> string \<Rightarrow> ('p, err, 'a) step" where
  "executeWithRetry c retry clean timeout operation operationName =
     onErr (\<lambda>e. Wrapf (''ethereum operation '' @ operationName @ '' failed after retries: '') e '''')
       (retry (attempt c clean timeout operationName operation))"

text \<open>The operations of \<open>RealEthClient\<close>, over the raw calls of go-ethereum's client.\<close>

definition FilterLogs ::
  "'p eth_client \<Rightarrow> ('p, log list) backoff \<Rightarrow> (string \<Rightarrow> string) \<Rightarrow> string \<Rightarrow> u64 \<Rightarrow> u64 \<Rightarrow> hash list \<Rightarrow> ('p, err, log list) step" where
  "FilterLogs raw retry clean timeout from to topics =
     executeWithRetry raw retry clean timeout (FilterLogsOp raw from to topics) ''FilterLogs''"

text \<open>The raw call of a head answers \<open>null\<close> (\<open>None\<close>) for a block the node does not have.\<close>

definition HeadByNumber ::
  "'p eth_client \<Rightarrow> ('p, block_head) backoff \<Rightarrow> (string \<Rightarrow> string) \<Rightarrow> string \<Rightarrow> (u64 \<Rightarrow> ('p, err, block_head option) step) \<Rightarrow>
     u64 \<Rightarrow> ('p, err, block_head) step" where
  "HeadByNumber raw retry clean timeout call number =
     executeWithRetry raw retry clean timeout
       (andThen (call number) (\<lambda>result. case result of
          None \<Rightarrow> throw (Permanent (Wrapf (''block '' @ show_u64 number @ '': '') (Sentinel NotFound) ''''))
        | Some head \<Rightarrow> ret head))
       ''HeadByNumber''"

definition BlockReceipts ::
  "'p eth_client \<Rightarrow> ('p, log list list) backoff \<Rightarrow> (string \<Rightarrow> string) \<Rightarrow> string \<Rightarrow> u64 \<Rightarrow> ('p, err, log list list) step" where
  "BlockReceipts raw retry clean timeout number =
     executeWithRetry raw retry clean timeout (BlockReceiptsOp raw number) ''BlockReceipts''"

definition ClientBlockNumber ::
  "'p eth_client \<Rightarrow> ('p, u64) backoff \<Rightarrow> (string \<Rightarrow> string) \<Rightarrow> string \<Rightarrow> ('p, err, u64) step" where
  "ClientBlockNumber raw retry clean timeout =
     executeWithRetry raw retry clean timeout (BlockNumberOp raw) ''BlockNumber''"

text \<open>The raw chain id is a big integer.\<close>

definition ClientChainID ::
  "'p eth_client \<Rightarrow> ('p, u64) backoff \<Rightarrow> (string \<Rightarrow> string) \<Rightarrow> string \<Rightarrow> ('p, err, int) step \<Rightarrow> ('p, err, u64) step" where
  "ClientChainID raw retry clean timeout call =
     executeWithRetry raw retry clean timeout
       (andThen call (\<lambda>n.
          if \<not> (0 \<le> n \<and> n < 2 ^ 64)
          then throw (Permanent (ErrNew (''chain id '' @ show_int n @ '' does not fit uint64'')))
          else ret (uint64 n)))
       ''ChainID''"

definition SubscribeNewHead ::
  "'p eth_client \<Rightarrow> ('p, unit) backoff \<Rightarrow> (string \<Rightarrow> string) \<Rightarrow> string \<Rightarrow> ('p, err, unit) step" where
  "SubscribeNewHead raw retry clean timeout =
     executeWithRetry raw retry clean timeout (SubscribeNewHeadOp raw) ''SubscribeNewHead''"

section \<open>What a caller gets\<close>

text \<open>
  What \<open>backoff.Retry\<close> documents: a value is the value of an attempt; an error is that of an
  attempt, or, when \<open>errors.As\<close> finds a \<open>Permanent\<close> in its chain, what the first one found holds; or it
  is the caller's cancellation.
\<close>

definition as_permanent :: "err \<Rightarrow> err option" where
  "as_permanent e = (case e of Permanent e' \<Rightarrow> Some e' | _ \<Rightarrow> None)"

definition given_up :: "err \<Rightarrow> err" where
  "given_up e = (case errors_As as_permanent e of Some e' \<Rightarrow> e' | None \<Rightarrow> e)"

definition backoff_ok :: "('p, 'a) backoff \<Rightarrow> bool" where
  "backoff_ok retry \<longleftrightarrow> (\<forall>m s r t. retry m s = (r, t) \<longrightarrow>
     (case r of
        Inr x \<Rightarrow> \<exists>u. m u = (Inr x, t)
      | Inl e \<Rightarrow> (\<exists>u v e'. m u = (Inl e', v) \<and> e = given_up e') \<or> e \<in> {Sentinel Canceled, Sentinel DeadlineExceeded}))"

text \<open>
  An operation's own \<open>Permanent\<close> errors: \<open>errors.As\<close> looks through the redaction, so what they hold
  must not need any. The calls of go-ethereum return none; \<open>HeadByNumber\<close> and \<open>ChainID\<close> make one each,
  of a number and a fixed text.
\<close>

definition plain_permanents :: "(string \<Rightarrow> string) \<Rightarrow> ('p, err, 'a) step \<Rightarrow> bool" where
  "plain_permanents clean m \<longleftrightarrow>
     (\<forall>u e v x. m u = (Inl e, v) \<and> Permanent x \<in> set (err_chain e) \<longrightarrow> clean (Error x) = Error x)"

definition no_permanents :: "('p, err, 'a) step \<Rightarrow> bool" where
  "no_permanents m \<longleftrightarrow> (\<forall>u e v x. m u = (Inl e, v) \<longrightarrow> Permanent x \<notin> set (err_chain e))"

lemma no_permanents_plain: "no_permanents m \<Longrightarrow> plain_permanents clean m"
  by (auto simp: no_permanents_def plain_permanents_def)

lemma own_permanents_plain:
  assumes "no_permanents (call number)" "clean (''block '' @ show_u64 number @ '': not found'') = ''block '' @ show_u64 number @ '': not found''"
  shows "plain_permanents clean (andThen (call number) (\<lambda>result. case result of
      None \<Rightarrow> throw (Permanent (Wrapf (''block '' @ show_u64 number @ '': '') (Sentinel NotFound) ''''))
    | Some head \<Rightarrow> ret head))"
    (is "plain_permanents clean ?m")
  using assms by (auto simp: plain_permanents_def no_permanents_def step_simps split: option.splits)

lemma attempt_Inr: "attempt c clean timeout name m p = (Inr x, q) \<longleftrightarrow> m p = (Inr x, q)"
  by (auto simp: attempt_def Let_def split: prod.splits sum.splits if_splits)

lemma Error_RedactURLs: "Error (RedactURLs clean e) = clean (Error e)"
  by (simp add: RedactURLs_def)

lemma given_up_Permanent [simp]: "given_up (Permanent e) = e"
  by (simp add: given_up_def errors_As_def as_permanent_def List.map_filter_simps)

lemma given_up_cases: "given_up e = e \<or> Permanent (given_up e) \<in> set (err_chain e)"
proof (cases "List.map_filter as_permanent (err_chain e)")
  case (Cons x xs)
  then have "x \<in> set (List.map_filter as_permanent (err_chain e))" by simp
  then have "Permanent x \<in> set (err_chain e)"
    by (auto simp: List.map_filter_def as_permanent_def split: err.splits)
  then show ?thesis using Cons by (simp add: given_up_def errors_As_def)
qed (simp add: given_up_def errors_As_def)

lemma Permanent_in_RedactURLs: "Permanent x \<in> set (err_chain (RedactURLs clean e)) \<longleftrightarrow> Permanent x \<in> set (err_chain e)"
  by (simp add: RedactURLs_def)

text \<open>The text of the error an attempt leaves to the caller.\<close>

lemma attempt_Inl:
  assumes "plain_permanents clean m" "attempt c clean timeout name m p = (Inl e, q)"
  shows "\<exists>e0 pre. m p = (Inl e0, q) \<and>
    (pre \<in> {''permanent error: '', ''retryable error: '', ''retryable error: '' @ name @ '' exceeded '' @ timeout @ '': ''} \<and>
       Error (given_up e) = pre @ clean (Error e0) \<or>
     (\<exists>x. Permanent x \<in> set (err_chain e0) \<and> Error (given_up e) = clean (Error x)))"
proof -
  obtain e0 where m: "m p = (Inl e0, q)"
    and e: "e = Permanent (Wrapf ''permanent error: '' (RedactURLs clean e0) '''') \<or>
      (\<exists>pre \<in> {''retryable error: '', ''retryable error: '' @ name @ '' exceeded '' @ timeout @ '': ''}. e = Wrapf pre (RedactURLs clean e0) '''')"
    using assms(2) by (auto simp: attempt_def Let_def split: prod.splits sum.splits if_splits)
  from e show ?thesis
  proof (elim disjE bexE)
    assume "e = Permanent (Wrapf ''permanent error: '' (RedactURLs clean e0) '''')"
    then show ?thesis using m by (simp add: Error_RedactURLs)
  next
    fix pre assume pre: "pre \<in> {''retryable error: '', ''retryable error: '' @ name @ '' exceeded '' @ timeout @ '': ''}"
      and e: "e = Wrapf pre (RedactURLs clean e0) ''''"
    show ?thesis
    proof (cases "given_up e = e")
      case True
      then have "Error (given_up e) = pre @ clean (Error e0)" by (simp add: e Error_RedactURLs)
      with m pre show ?thesis by blast
    next
      case False
      then have "Permanent (given_up e) \<in> set (err_chain e0)"
        using given_up_cases [of e] by (simp add: e Permanent_in_RedactURLs)
      moreover from this have "Error (given_up e) = clean (Error (given_up e))"
        using assms(1) m by (simp add: plain_permanents_def)
      ultimately show ?thesis using m by blast
    qed
  qed
qed

text \<open>
  C28. An error that leaves \<open>executeWithRetry\<close> shows the name of the operation, one of three fixed
  prefixes (the second quotes the deadline) and the redacted text of the provider's error, or the
  redacted text of a \<open>Permanent\<close> inside it; nothing else, so whatever URL (with its API key) the
  transport quoted has been through the redaction. A value is one an attempt of the operation
  returned.
\<close>

theorem executeWithRetry_redacts:
  assumes "backoff_ok retry" "plain_permanents clean m" and run: "executeWithRetry c retry clean timeout m name p = (r, q)"
  shows "case r of
      Inr x \<Rightarrow> \<exists>u. m u = (Inr x, q)
    | Inl e \<Rightarrow>
        (\<exists>u v e0 pre. m u = (Inl e0, v) \<and>
          pre \<in> {''permanent error: '', ''retryable error: '', ''retryable error: '' @ name @ '' exceeded '' @ timeout @ '': ''} \<and>
          Error e = ''ethereum operation '' @ name @ '' failed after retries: '' @ pre @ clean (Error e0)) \<or>
        (\<exists>u v e0 x. m u = (Inl e0, v) \<and> Permanent x \<in> set (err_chain e0) \<and>
          Error e = ''ethereum operation '' @ name @ '' failed after retries: '' @ clean (Error x)) \<or>
        (\<exists>s \<in> {Canceled, DeadlineExceeded}. Error e = ''ethereum operation '' @ name @ '' failed after retries: '' @ sentinel_text s)"
proof -
  let ?tag = "''ethereum operation '' @ name @ '' failed after retries: ''"
  let ?m = "attempt c clean timeout name m"
  show ?thesis
  proof (cases r)
    case (Inr x)
    then have "retry ?m p = (Inr x, q)" using run by (simp add: executeWithRetry_def step_simps)
    with assms(1) have "\<exists>u. ?m u = (Inr x, q)" unfolding backoff_ok_def by fastforce
    with Inr show ?thesis by (simp add: attempt_Inr)
  next
    case (Inl e)
    then obtain e1 where e1: "retry ?m p = (Inl e1, q)" "e = Wrapf ?tag e1 ''''"
      using run by (auto simp: executeWithRetry_def step_simps)
    have tag: "Error e = ''ethereum operation '' @ name @ '' failed after retries: '' @ Error e1" by (simp add: e1(2))
    have "(\<exists>u v e'. ?m u = (Inl e', v) \<and> e1 = given_up e') \<or> e1 \<in> {Sentinel Canceled, Sentinel DeadlineExceeded}"
      using assms(1) e1(1) unfolding backoff_ok_def by fastforce
    then consider (att) u v e' where "?m u = (Inl e', v)" "e1 = given_up e'"
      | (ctx) s where "s \<in> {Canceled, DeadlineExceeded}" "e1 = Sentinel s" by blast
    then show ?thesis
    proof cases
      case att
      from attempt_Inl [OF assms(2) att(1), folded att(2)] show ?thesis
        unfolding Inl sum.case tag append_same_eq same_append_eq by blast
    next
      case ctx
      then have "Error e1 = sentinel_text s" by simp
      with ctx(1) show ?thesis unfolding Inl sum.case tag same_append_eq by blast
    qed
  qed
qed

text \<open>
  Redaction keeps the classification: \<open>errors.Is\<close> answers alike for an error and its
  redacted form, and a cancelled or timed out caller is never retried as a provider failure.
\<close>

theorem RedactURLs_keeps_chain:
  "errors_Is (RedactURLs clean e) s = errors_Is e s \<and>
   \<not> (errors_Is e Canceled \<and> isRetryableEthError (RedactURLs clean e)) \<and>
   \<not> (errors_Is e DeadlineExceeded \<and> isRetryableEthError (RedactURLs clean e))"
proof -
  have "errors_Is (RedactURLs clean e) x = errors_Is e x" for x
    by (simp add: RedactURLs_def errors_Is_def)
  then show ?thesis by (simp add: isRetryableEthError_def)
qed

text \<open>A retry that gives up after one attempt, for the witness.\<close>

definition one_attempt :: "('p, 'a) backoff" where
  "one_attempt m p = (case m p of
     (Inr x, q) \<Rightarrow> (Inr x, q)
   | (Inl e, q) \<Rightarrow> (Inl (given_up e), q))"

lemma one_attempt_ok: "backoff_ok (one_attempt :: ('p, 'a) backoff)"
  unfolding backoff_ok_def one_attempt_def by (auto split: prod.splits sum.splits)

theorem executeWithRetry_redacts_witness:
  "\<exists>pre \<in> {''permanent error: '', ''retryable error: '', ''retryable error: '' @ ''Op'' @ '' exceeded '' @ ''60s'' @ '': ''}.
     ''ethereum operation Op failed after retries: permanent error: dial ***'' =
       ''ethereum operation '' @ ''Op'' @ '' failed after retries: '' @ pre @ ''dial ***''"
proof -
  define c :: "unit eth_client" where "c = \<lparr>SubscribeNewHeadOp = ret (), FilterLogsOp = (\<lambda>_ _ _. ret []),
    HeadByNumberOp = (\<lambda>_. throw (ErrNew '''')), BlockReceiptsOp = (\<lambda>_. ret []), BlockNumberOp = ret 0, ChainIDOp = ret 0,
    CtxErr = (\<lambda>_. None), TimeoutErr = (\<lambda>_ _. None), SleepOp = (\<lambda>p. p)\<rparr>"
  let ?m = "throw (ErrNew ''dial key'') :: (unit, err, unit) step"
  let ?e = "Wrapf (''ethereum operation '' @ ''Op'' @ '' failed after retries: '')
    (Wrapf ''permanent error: '' (RedactedError ''dial ***'' (ErrNew ''dial key'')) '''') ''''"
  have permanent: "isRetryableEthError (RedactedError ''dial ***'' (ErrNew ''dial key'')) = False"
    by code_simp
  have run: "executeWithRetry c one_attempt (\<lambda>_. ''dial ***'') ''60s'' ?m ''Op'' () = (Inl ?e, ())"
    using permanent
    by (simp add: executeWithRetry_def onErr_def one_attempt_def attempt_def throw_def RedactURLs_def errors_Is_def Let_def c_def)
  have "plain_permanents (\<lambda>_. ''dial ***'') ?m" by (simp add: plain_permanents_def throw_def)
  from executeWithRetry_redacts [OF one_attempt_ok this run] show ?thesis
    by (auto simp: throw_def)
qed

text \<open>
  The retry classification matches the digits 502, 503 and 504 anywhere in a message. A result cap
  whose text quotes a block range that contains them is retried as a bad gateway, although it is a
  rejection the paginator has to answer with a smaller window.
\<close>

theorem result_cap_is_retried:
  "let e = RpcError (-32005) ''query returned more than 10000 results. Try with this block range [0x1185020, 0x1185040].''
   in IsTooManyResultsError (Some e) \<and> isRetryableEthError e"
  by code_simp

end
