(* ===== verification/Pagination.thy ===== *)
theory Pagination
  imports Client
begin

text \<open>
  \<open>internal/chain/pagination.go\<close>: the walk over a block range that halves its step when the
  provider rejects a window as too large and doubles it again after successes, under a
  configured or discovered span cap.

  \<open>walk_loop\<close> is the loop of \<open>walkWindow\<close>, \<open>outer_loop\<close> the loop of \<open>FilterLogs\<close>. Both return
  their logs together with an optional error, as the code does (a cancelled walk returns the
  partial logs). The loops take fuel; \<open>walk_fuel\<close> and \<open>outer_fuel\<close> are enough whenever the block
  arithmetic cannot wrap (\<open>walk_loop_ends\<close>, \<open>outer_loop_ends\<close>), and running out is the error
  \<open>Diverges\<close>. The progress log (\<open>paceState\<close>) is not modelled.
\<close>

section \<open>The walk\<close>

definition defaultStepSize :: u64 where
  "defaultStepSize = 1000000"

definition initialStep :: "u64 \<Rightarrow> u64" where
  "initialStep SpanCap =
     (if SpanCap > 0 \<and> defaultStepSize > SpanCap + 1 then SpanCap + 1 else defaultStepSize)"

type_synonym 'p walk = "'p \<Rightarrow> (log list \<times> u64 \<times> err option) \<times> 'p"

fun walk_loop ::
  "'p eth_client \<Rightarrow> ('p \<Rightarrow> err option) \<Rightarrow> hash list \<Rightarrow> nat \<Rightarrow> u64 \<Rightarrow> u64 \<Rightarrow> u64 \<Rightarrow> u64 \<Rightarrow> log list \<Rightarrow> 'p walk" where
  "walk_loop c ctx topics 0 currentFrom toBlock currentStepSize maxStepSize allLogs p = (([], maxStepSize, Some Diverges), p)"
| "walk_loop c ctx topics (Suc fuel) currentFrom toBlock currentStepSize maxStepSize allLogs p =
     (if currentFrom \<le> toBlock then
        (case ctx p of
          Some e \<Rightarrow> ((allLogs, maxStepSize, Some e), p)
        | None \<Rightarrow>
          let currentTo = min (currentFrom + currentStepSize - 1) toBlock in
          (case FilterLogsOp c currentFrom currentTo topics p of
            (Inr logs, p) \<Rightarrow>
              walk_loop c ctx topics fuel (currentTo + 1) toBlock (min (currentStepSize * 2) maxStepSize) maxStepSize
                (allLogs @ logs) p
          | (Inl e, p) \<Rightarrow>
              (case ctx p of
                Some e' \<Rightarrow> ((allLogs, maxStepSize, Some e'), p)
              | None \<Rightarrow>
                if \<not> IsTooManyResultsError (Some e) then (([], maxStepSize, Some e), p)
                else if currentFrom = currentTo
                then (([], maxStepSize, Some (SingleBlockOverflowError currentFrom e)), p)
                else
                  let half = currentStepSize div 2 in
                  if half = 0
                  then (([], maxStepSize, Some (Wrapf (''step size exhausted at block range ['' @ show_u64 currentFrom @ '', ''
                         @ show_u64 currentTo @ '']: '') e '''')), p)
                  else walk_loop c ctx topics fuel currentFrom toBlock half
                         (if IsBlockRangeCapError (Some e) then half else maxStepSize) allLogs (SleepOp c p))))
      else ((allLogs, maxStepSize, None), p))"

definition walk_fuel :: "u64 \<Rightarrow> u64 \<Rightarrow> nat" where
  "walk_fuel from to = 65 * (unat to + 1 - unat from) + 66"

definition walkWindow :: "'p eth_client \<Rightarrow> ('p \<Rightarrow> err option) \<Rightarrow> hash list \<Rightarrow> u64 \<Rightarrow> u64 \<Rightarrow> u64 \<Rightarrow> 'p walk" where
  "walkWindow c ctx topics from to stepSize = walk_loop c ctx topics (walk_fuel from to) from to stepSize stepSize []"

fun outer_loop ::
  "'p eth_client \<Rightarrow> ('p \<Rightarrow> err option) \<Rightarrow> hash list \<Rightarrow> nat \<Rightarrow> u64 \<Rightarrow> u64 \<Rightarrow> u64 \<Rightarrow> log list \<Rightarrow>
     'p \<Rightarrow> (log list \<times> err option) \<times> 'p" where
  "outer_loop c ctx topics 0 currentFrom toBlock stepSize allLogs p = (([], Some Diverges), p)"
| "outer_loop c ctx topics (Suc fuel) currentFrom toBlock stepSize allLogs p =
     (if currentFrom \<le> toBlock then
        (case ctx p of
          Some e \<Rightarrow> ((allLogs, Some e), p)
        | None \<Rightarrow>
          let currentTo = min (currentFrom + stepSize - 1) toBlock in
          (case walkWindow c ctx topics currentFrom currentTo stepSize p of
            ((logs, cappedStep, Some e), p) \<Rightarrow>
              (case ctx p of
                Some e' \<Rightarrow> ((allLogs, Some e'), p)
              | None \<Rightarrow> (([], Some (Wrapf (''failed to get logs for range '' @ show_u64 currentFrom @ ''-'' @ show_u64 currentTo @ '': '') e '''')), p))
          | ((logs, cappedStep, None), p) \<Rightarrow>
              outer_loop c ctx topics fuel (currentTo + 1) toBlock (min stepSize cappedStep) (allLogs @ logs) p))
      else ((allLogs, None), p))"

definition outer_fuel :: "u64 \<Rightarrow> u64 \<Rightarrow> nat" where
  "outer_fuel from to = Suc (unat to + 1 - unat from)"

text \<open>\<open>TimeoutErr c p\<close> is the context the walk derives (\<open>context.WithTimeout\<close>) at its start \<open>p\<close>.\<close>

definition PaginatorFilterLogs ::
  "'p eth_client \<Rightarrow> u64 \<Rightarrow> u64 option \<Rightarrow> u64 option \<Rightarrow> hash list \<Rightarrow> 'p \<Rightarrow> (log list \<times> err option) \<times> 'p" where
  "PaginatorFilterLogs c SpanCap fromBlock toBlock topics p =
     (case (fromBlock, toBlock) of
       (Some from, Some to) \<Rightarrow>
         outer_loop c (TimeoutErr c p) topics (outer_fuel from to) from to (initialStep SpanCap) [] p
     | _ \<Rightarrow> (([], Some (ErrNew ''pagination requires explicit fromBlock and toBlock'')), p))"

section \<open>Windows\<close>

lemma window:
  assumes "from \<le> (to :: u64)" "0 < s" "unat to + unat s < 2 ^ 64"
  defines "ct \<equiv> min (from + s - 1) to"
  shows "from \<le> ct" "ct \<le> to" "unat (ct + 1) = Suc (unat ct)" "unat ct - unat from < unat s" "ct - from < s"
proof -
  have s: "0 < unat s" using assms(2) by (simp add: word_less_nat_alt)
  have fs: "unat (from + s - 1) = unat from + unat s - 1"
  proof -
    have "unat (from + s) = unat from + unat s"
      using assms(1,3) by (intro unat_add_no_wrap) (simp add: word_le_nat_alt)
    moreover from this have "1 \<le> from + s" using s by (simp add: word_le_nat_alt)
    ultimately show ?thesis by (simp add: unat_sub)
  qed
  have ct: "unat ct = min (unat from + unat s - 1) (unat to)"
    by (auto simp: ct_def min_def word_le_nat_alt fs)
  show le: "from \<le> ct" and "ct \<le> to" "unat ct - unat from < unat s"
    using assms(1) s by (auto simp: word_le_nat_alt ct)
  have "unat ct + 1 < 2 ^ 64" using ct assms(3) s by linarith
  then show "unat (ct + 1) = Suc (unat ct)" by (simp add: unat_word_ariths)
  have "unat (ct - from) = unat ct - unat from" using le by (simp add: unat_sub word_le_nat_alt)
  then show "ct - from < s" using \<open>unat ct - unat from < unat s\<close> by (simp add: word_less_nat_alt)
qed

lemma half_window: "0 < s div 2 \<Longrightarrow> s \<le> m \<Longrightarrow> s div 2 \<le> (m :: u64) \<and> unat (s div 2) < unat s"
proof -
  assume *: "0 < s div 2" "s \<le> m"
  have "unat (s div 2) = unat s div 2" by (simp add: unat_div)
  moreover have "0 < unat (s div 2)" using *(1) by (simp add: word_less_nat_alt)
  ultimately show ?thesis using * by (auto simp: word_le_nat_alt)
qed

lemma double_step:
  assumes "0 < s" "s \<le> m" "unat m < 2 ^ 63"
  shows "0 < min (s * 2) (m :: u64)" "min (s * 2) m \<le> m"
proof -
  have "unat (s * 2) = unat s * 2"
    using assms by (subst unat_mult_lem [THEN iffD1]) (auto simp: word_le_nat_alt)
  moreover have "0 < unat s" using assms(1) by (simp add: word_less_nat_alt)
  ultimately have "0 < s * 2" by (simp add: word_less_nat_alt)
  then show "0 < min (s * 2) m" "min (s * 2) m \<le> m" using assms by (auto simp: min_def)
qed

lemma initialStep_bounds:
  "SpanCap \<noteq> - 1 \<Longrightarrow> 0 < initialStep SpanCap" "initialStep SpanCap \<le> 1000000"
  "SpanCap \<noteq> - 1 \<Longrightarrow> 0 < SpanCap \<Longrightarrow> s \<le> initialStep SpanCap \<Longrightarrow> x < s \<Longrightarrow> x \<le> SpanCap"
proof -
  have "SpanCap + 1 \<noteq> 0" if "SpanCap \<noteq> -1" using that by (metis add_eq_0_iff2)
  then show "0 < initialStep SpanCap" if "SpanCap \<noteq> - 1"
    using that by (simp add: initialStep_def defaultStepSize_def word_neq_0_conv)
  show "initialStep SpanCap \<le> 1000000"
    by (simp add: initialStep_def defaultStepSize_def order_less_imp_le)
  show "x \<le> SpanCap" if "SpanCap \<noteq> - 1" "0 < SpanCap" "s \<le> initialStep SpanCap" "x < s"
    using that by (auto simp: initialStep_def defaultStepSize_def not_less split: if_splits) (unat_arith, unat_arith)
qed
section \<open>What a successful walk returns\<close>

text \<open>
  The contract of a source of logs: \<open>ans f t ls\<close> says that \<open>ls\<close> answers the range \<open>f\<close> to \<open>t\<close>.
  Every answer of the client does, and answers of adjacent ranges join.
\<close>

locale range_source =
  fixes c :: "'p eth_client" and topics :: "hash list" and ans :: "u64 \<Rightarrow> u64 \<Rightarrow> log list \<Rightarrow> bool"
  assumes answer: "f \<le> t \<Longrightarrow> FilterLogsOp c f t topics p = (Inr ls, q) \<Longrightarrow> ans f t ls"
    and join: "f \<le> m \<Longrightarrow> m < t \<Longrightarrow> ans f m xs \<Longrightarrow> ans (m + 1) t ys \<Longrightarrow> ans f t (xs @ ys)"
begin

lemma join_window:
  assumes "f \<le> ct" "ct \<le> to" "unat (ct + 1) = Suc (unat ct)" "ans f ct l"
    and rest: "ct + 1 \<le> to \<Longrightarrow> ans (ct + 1) to ls" "\<not> ct + 1 \<le> to \<Longrightarrow> ls = []"
  shows "ans f to (l @ ls)"
proof (cases "ct + 1 \<le> to")
  case True
  then have "ct < to" using assms(3) by (simp add: word_le_nat_alt word_less_nat_alt)
  then show ?thesis using True assms by (intro join) auto
next
  case False
  then have "ct = to" using assms(2,3) by (simp add: word_le_nat_alt word_less_nat_alt word_unat_eq_iff)
  then show ?thesis using False assms by simp
qed

lemma walk_loop_answers:
  assumes "walk_loop c ctx topics fuel from to s mx acc p = ((logs, m, None), q)"
    and "0 < s" "s \<le> mx" "unat mx < 2 ^ 63" "unat to + unat mx < 2 ^ 64"
  shows "0 < m \<and> m \<le> mx \<and> (\<exists>ls. logs = acc @ ls \<and> (from \<le> to \<longrightarrow> ans from to ls) \<and> (\<not> from \<le> to \<longrightarrow> ls = []))"
  using assms
proof (induction fuel arbitrary: "from" s mx acc p)
  case 0
  then show ?case by simp
next
  case (Suc fuel)
  show ?case
  proof (cases "from \<le> to \<and> ctx p = None")
    case False
    then show ?thesis using Suc.prems by (auto split: option.splits if_splits)
  next
    case go: True
    let ?ct = "min (from + s - 1) to"
    have nw: "unat to + unat s < 2 ^ 64" using Suc.prems by (simp add: word_le_nat_alt)
    note w = window [OF _ Suc.prems(2) nw, of "from"]
    obtain r p1 where r: "FilterLogsOp c from ?ct topics p = (r, p1)" by force
    show ?thesis
    proof (cases r)
      case (Inr l)
      then have run: "walk_loop c ctx topics fuel (?ct + 1) to (min (s * 2) mx) mx (acc @ l) p1 = ((logs, m, None), q)"
        using Suc.prems(1) go r by (simp add: Let_def)
      have an: "ans from ?ct l" using answer w(1) go r Inr by blast
      from Suc.IH [OF run double_step [OF Suc.prems(2,3,4)] Suc.prems(4,5)] obtain ls where
        ls: "0 < m" "m \<le> mx" "logs = (acc @ l) @ ls" "?ct + 1 \<le> to \<longrightarrow> ans (?ct + 1) to ls" "\<not> ?ct + 1 \<le> to \<longrightarrow> ls = []"
        by blast
      have "ans from to (l @ ls)"
        using w go ls an by (intro join_window) auto
      then show ?thesis using ls go by auto
    next
      case (Inl e)
      then have "0 < s div 2" and run:
        "walk_loop c ctx topics fuel from to (s div 2) (if IsBlockRangeCapError (Some e) then s div 2 else mx) acc (SleepOp c p1)
          = ((logs, m, None), q)"
        using Suc.prems(1) go r by (auto simp: Let_def word_neq_0_conv split: option.splits if_splits)
      let ?mx = "if IsBlockRangeCapError (Some e) then s div 2 else mx"
      have mx: "s div 2 \<le> ?mx" "?mx \<le> mx"
        using half_window [OF \<open>0 < s div 2\<close> Suc.prems(3)] by auto
      then have "unat ?mx \<le> unat mx" by (simp only: word_le_nat_alt)
      with Suc.IH [OF run \<open>0 < s div 2\<close> mx(1)] mx(2) Suc.prems(4,5) go show ?thesis
        by (meson le_less_trans add_left_mono order_trans)
    qed
  qed
qed

lemma outer_loop_answers:
  assumes "outer_loop c ctx topics fuel from to s acc p = ((logs, None), q)"
    and "0 < s" "unat s < 2 ^ 63" "unat to + unat s < 2 ^ 64"
  shows "\<exists>ls. logs = acc @ ls \<and> (from \<le> to \<longrightarrow> ans from to ls) \<and> (\<not> from \<le> to \<longrightarrow> ls = [])"
  using assms
proof (induction fuel arbitrary: "from" s acc p)
  case 0
  then show ?case by simp
next
  case (Suc fuel)
  show ?case
  proof (cases "from \<le> to \<and> ctx p = None")
    case False
    then show ?thesis using Suc.prems by (auto split: option.splits if_splits)
  next
    case go: True
    let ?ct = "min (from + s - 1) to"
    note w = window [OF _ Suc.prems(2,4), of "from"]
    obtain l m eo p1 where r: "walkWindow c ctx topics from ?ct s p = ((l, m, eo), p1)" by (metis prod.exhaust)
    have eo: "eo = None"
      using Suc.prems(1) go r by (auto simp: Let_def split: option.splits if_splits)
    then have run: "outer_loop c ctx topics fuel (?ct + 1) to (min s m) (acc @ l) p1 = ((logs, None), q)"
      using Suc.prems(1) go r by (simp add: Let_def)
    have "unat ?ct + unat s < 2 ^ 64"
      using Suc.prems(4) w(2) go unfolding word_le_nat_alt by linarith
    from walk_loop_answers [OF r [unfolded eo walkWindow_def] Suc.prems(2) order_refl Suc.prems(3) this] w(1) go
    have m: "0 < m" "m \<le> s" and an: "ans from ?ct l" by auto
    have "unat (min s m) \<le> unat s" by (simp add: word_le_nat_alt [symmetric])
    with Suc.IH [OF run] m Suc.prems(2,3,4) obtain ls where
      ls: "logs = (acc @ l) @ ls" "?ct + 1 \<le> to \<longrightarrow> ans (?ct + 1) to ls" "\<not> ?ct + 1 \<le> to \<longrightarrow> ls = []"
      by auto
    have "ans from to (l @ ls)"
      using w go ls an by (intro join_window) auto
    then show ?thesis using ls go by auto
  qed
qed

lemma FilterLogs_answers:
  assumes "PaginatorFilterLogs c cap (Some from) (Some to) topics p = ((logs, None), q)"
    and "from \<le> to" "cap \<noteq> - 1" "unat to + 1000000 < 2 ^ 64"
  shows "ans from to logs"
proof -
  have "unat (initialStep cap) \<le> 1000000"
    using initialStep_bounds(2) [of cap] by (simp add: word_le_nat_alt)
  then show ?thesis
    using outer_loop_answers [OF assms(1) [unfolded PaginatorFilterLogs_def prod.case option.case] initialStep_bounds(1)] assms(2-4)
    by auto
qed

end

text \<open>
  What any client answers: \<open>answered c topics f t ls\<close> says that \<open>ls\<close> is put together from
  answers of \<open>c\<close> to windows that tile \<open>f\<close> to \<open>t\<close> in ascending order, none missing and none twice.
\<close>

inductive answered :: "'p eth_client \<Rightarrow> hash list \<Rightarrow> u64 \<Rightarrow> u64 \<Rightarrow> log list \<Rightarrow> bool"
  for c :: "'p eth_client" and topics :: "hash list" where
  one_window: "f \<le> t \<Longrightarrow> FilterLogsOp c f t topics p = (Inr ls, q) \<Longrightarrow> answered c topics f t ls"
| two_parts: "f \<le> m \<Longrightarrow> m < t \<Longrightarrow> answered c topics f m xs \<Longrightarrow> answered c topics (m + 1) t ys \<Longrightarrow>
    answered c topics f t (xs @ ys)"

interpretation tiling: range_source c topics "answered c topics"
  for c :: "'p eth_client" and topics :: "hash list"
  by unfold_locales (auto intro: answered.intros)
section \<open>The walk ends\<close>

text \<open>
  \<open>goes_on e\<close>: the error is the model's \<open>Diverges\<close>. A window that shrinks costs one bit of the
  step and a window that succeeds costs one block, so 65 rounds a block are enough.
\<close>

definition goes_on :: "err \<Rightarrow> bool" where
  "goes_on e \<longleftrightarrow> Diverges \<in> set (err_chain e)"

lemma goes_on_simps [simp]:
  "goes_on Diverges" "goes_on (Wrapf a e b) = goes_on e" "goes_on (SingleBlockOverflowError n e) = goes_on e"
  "\<not> goes_on (ErrNew m)"
  by (auto simp: goes_on_def)

definition client_ends :: "'p eth_client \<Rightarrow> hash list \<Rightarrow> bool" where
  "client_ends c topics \<longleftrightarrow>
     (\<forall>f t p e q. FilterLogsOp c f t topics p = (Inl e, q) \<longrightarrow> \<not> goes_on e) \<and>
     (\<forall>p0 p e. TimeoutErr c p0 p = Some e \<longrightarrow> \<not> goes_on e)"

lemma walk_loop_ends:
  assumes "walk_loop c (TimeoutErr c p0) topics fuel from to s mx acc p = ((logs, m, Some e), q)"
    and "0 < s" "s \<le> mx" "unat mx < 2 ^ 63" "unat to + unat mx < 2 ^ 64"
    and "unat s < 2 ^ b" "b \<le> 64" "65 * (unat to + 1 - unat from) + b < fuel"
    and c: "client_ends c topics"
  shows "\<not> goes_on e"
  using assms(1-8)
proof (induction fuel arbitrary: "from" s mx acc p b)
  case 0
  then show ?case by simp
next
  case (Suc fuel)
  show ?case
  proof (cases "from \<le> to \<and> TimeoutErr c p0 p = None")
    case False
    then show ?thesis using Suc.prems c by (auto simp: client_ends_def split: option.splits if_splits)
  next
    case go: True
    let ?ct = "min (from + s - 1) to"
    have nw: "unat to + unat s < 2 ^ 64" using Suc.prems by (simp add: word_le_nat_alt)
    have ft: "unat from \<le> unat to" using go by (simp add: word_le_nat_alt)
    note w = window [OF _ Suc.prems(2) nw, of "from"]
    obtain r p1 where r: "FilterLogsOp c from ?ct topics p = (r, p1)" by force
    show ?thesis
    proof (cases r)
      case (Inr l)
      then have run: "walk_loop c (TimeoutErr c p0) topics fuel (?ct + 1) to (min (s * 2) mx) mx (acc @ l) p1 = ((logs, m, Some e), q)"
        using Suc.prems(1) go r by (simp add: Let_def)
      have "unat (min (s * 2) mx) \<le> unat mx" by (simp add: word_le_nat_alt [symmetric])
      then have "unat (min (s * 2) mx) < 2 ^ 64" using Suc.prems(4) by simp
      moreover have "unat from \<le> unat ?ct" using w(1) go by (simp add: word_le_nat_alt)
      then have "65 * (unat to + 1 - unat (?ct + 1)) + 64 < fuel"
        using w(3) go ft Suc.prems(8) by simp
      ultimately show ?thesis
        using Suc.IH [OF run double_step [OF Suc.prems(2,3,4)] Suc.prems(4,5)] by blast
    next
      case (Inl e1)
      then have e1: "\<not> goes_on e1" using r c unfolding client_ends_def by blast
      show ?thesis
      proof (cases "TimeoutErr c p0 p1 = None \<and> IsTooManyResultsError (Some e1) \<and> from \<noteq> ?ct \<and> s div 2 \<noteq> 0")
        case False
        then show ?thesis
          using Suc.prems(1) go r Inl e1 c by (auto simp: Let_def client_ends_def split: option.splits if_splits)
      next
        case True
        let ?mx = "if IsBlockRangeCapError (Some e1) then s div 2 else mx"
        have run: "walk_loop c (TimeoutErr c p0) topics fuel from to (s div 2) ?mx acc (SleepOp c p1) = ((logs, m, Some e), q)"
          using Suc.prems(1) go r Inl True by (auto simp: Let_def)
        have pos: "0 < s div 2" using True by (simp add: word_neq_0_conv)
        have mx: "s div 2 \<le> ?mx" "?mx \<le> mx"
          using half_window [OF pos Suc.prems(3)] by auto
        then have mx': "unat ?mx \<le> unat mx" by (simp only: word_le_nat_alt)
        have sd: "unat (s div 2) = unat s div 2" by (simp add: unat_div)
        have "0 < unat (s div 2)" using pos by (simp only: word_less_nat_alt unat_0)
        then have "1 \<le> b" using Suc.prems(6) sd by (cases b) auto
        then obtain b' where b: "b = Suc b'" by (cases b) auto
        have "unat (s div 2) < 2 ^ b'" using Suc.prems(6) b sd by simp
        moreover have "65 * (unat to + 1 - unat from) + b' < fuel" using Suc.prems(8) b by simp
        moreover have "unat ?mx < 2 ^ 63" "unat to + unat ?mx < 2 ^ 64" "b' \<le> 64"
          using mx' Suc.prems(4,5,7) b by linarith+
        ultimately show ?thesis using Suc.IH [OF run pos mx(1)] by blast
      qed
    qed
  qed
qed

lemma walkWindow_ends:
  assumes "walkWindow c (TimeoutErr c p0) topics from to s p = ((logs, m, Some e), q)"
    and "0 < s" "unat s < 2 ^ 63" "unat to + unat s < 2 ^ 64" "client_ends c topics"
  shows "\<not> goes_on e"
  using walk_loop_ends [OF assms(1) [unfolded walkWindow_def] assms(2) order_refl assms(3,4), of 64] assms(3,5)
  by (simp add: walk_fuel_def)

lemma outer_loop_ends:
  assumes "outer_loop c (TimeoutErr c p0) topics fuel from to s acc p = ((logs, Some e), q)"
    and "0 < s" "unat s < 2 ^ 63" "unat to + unat s < 2 ^ 64" "unat to + 1 - unat from < fuel"
    and c: "client_ends c topics"
  shows "\<not> goes_on e"
  using assms(1-5)
proof (induction fuel arbitrary: "from" s acc p)
  case 0
  then show ?case by simp
next
  case (Suc fuel)
  show ?case
  proof (cases "from \<le> to \<and> TimeoutErr c p0 p = None")
    case False
    then show ?thesis using Suc.prems c by (auto simp: client_ends_def split: option.splits if_splits)
  next
    case go: True
    let ?ct = "min (from + s - 1) to"
    note w = window [OF _ Suc.prems(2,4), of "from"]
    obtain l m eo p1 where r: "walkWindow c (TimeoutErr c p0) topics from ?ct s p = ((l, m, eo), p1)" by (metis prod.exhaust)
    have nw: "unat ?ct + unat s < 2 ^ 64"
      using Suc.prems(4) w(2) go unfolding word_le_nat_alt by linarith
    show ?thesis
    proof (cases eo)
      case (Some e1)
      with walkWindow_ends [OF _ Suc.prems(2,3) nw c] r have "\<not> goes_on e1" by blast
      then show ?thesis
        using Suc.prems(1) go r Some c by (auto simp: Let_def client_ends_def split: option.splits)
    next
      case None
      then have run: "outer_loop c (TimeoutErr c p0) topics fuel (?ct + 1) to (min s m) (acc @ l) p1 = ((logs, Some e), q)"
        using Suc.prems(1) go r by (simp add: Let_def)
      have m: "0 < m" "m \<le> s"
        using tiling.walk_loop_answers [OF r [unfolded None walkWindow_def] Suc.prems(2) order_refl Suc.prems(3) nw] by auto
      have ft: "unat from \<le> unat ?ct" "unat from \<le> unat to" using w(1) go by (simp_all add: word_le_nat_alt)
      then have "unat to + 1 - unat (?ct + 1) < fuel"
        using w(3) go Suc.prems(5) by simp
      moreover have "min s m = m" using m by (simp add: min_def)
      moreover have "unat m \<le> unat s" using m by (simp add: word_le_nat_alt)
      ultimately show ?thesis using Suc.IH [OF run] m(1) Suc.prems(3,4) by auto
    qed
  qed
qed
section \<open>No window above the cap, and completion\<close>

definition agrees :: "u64 \<Rightarrow> 'p eth_client \<Rightarrow> 'p eth_client \<Rightarrow> bool" where
  "agrees span c d \<longleftrightarrow>
     (\<forall>f t. f \<le> t \<and> t - f \<le> span \<longrightarrow> FilterLogsOp c f t = FilterLogsOp d f t) \<and>
     TimeoutErr c = TimeoutErr d \<and> SleepOp c = SleepOp d"

lemma walk_loop_agrees:
  assumes ag: "agrees span c d" and "0 < s" "s \<le> mx" "unat mx < 2 ^ 63" "unat to + unat mx < 2 ^ 64"
    and "\<And>x. x < mx \<Longrightarrow> x \<le> span"
  shows "walk_loop c ctx topics fuel from to s mx acc p = walk_loop d ctx topics fuel from to s mx acc p"
  using assms(2-)
proof (induction fuel arbitrary: "from" s mx acc p)
  case 0
  then show ?case by simp
next
  case (Suc fuel)
  show ?case
  proof (cases "from \<le> to \<and> ctx p = None")
    case False
    then show ?thesis by (auto split: option.splits)
  next
    case go: True
    let ?ct = "min (from + s - 1) to"
    have nw: "unat to + unat s < 2 ^ 64" using Suc.prems by (simp add: word_le_nat_alt)
    note w = window [OF _ Suc.prems(1) nw, of "from"]
    have "?ct - from \<le> span" using w(5) go Suc.prems(2,5) by (meson less_le_trans)
    then have same: "FilterLogsOp c from ?ct = FilterLogsOp d from ?ct"
      using ag w(1) go by (simp add: agrees_def)
    have sl: "SleepOp c = SleepOp d" using ag by (simp add: agrees_def)
    obtain r p1 where r: "FilterLogsOp d from ?ct topics p = (r, p1)" by force
    show ?thesis
    proof (cases r)
      case (Inr l)
      then show ?thesis
        using go same r Suc.IH [OF double_step [OF Suc.prems(1,2,3)] Suc.prems(3-5)] by (simp add: Let_def)
    next
      case (Inl e)
      let ?mx = "if IsBlockRangeCapError (Some e) then s div 2 else mx"
      have "walk_loop c ctx topics fuel from to (s div 2) ?mx acc q = walk_loop d ctx topics fuel from to (s div 2) ?mx acc q"
        if "s div 2 \<noteq> 0" for q
      proof (rule Suc.IH)
        show "0 < s div 2" using that by (simp add: word_neq_0_conv)
        note h = half_window [OF this Suc.prems(2)]
        from h show "s div 2 \<le> ?mx" by auto
        from h have "?mx \<le> mx" by auto
        then have "unat ?mx \<le> unat mx" by (simp only: word_le_nat_alt)
        then show "unat ?mx < 2 ^ 63" "unat to + unat ?mx < 2 ^ 64" using Suc.prems(3,4) by linarith+
        show "x \<le> span" if "x < ?mx" for x
          using that \<open>?mx \<le> mx\<close> Suc.prems(5) by (meson less_le_trans)
      qed
      then show ?thesis using go same sl r Inl by (simp add: Let_def split: option.split)
    qed
  qed
qed

lemma outer_loop_agrees:
  assumes ag: "agrees span c d" and "0 < s" "unat s < 2 ^ 63" "unat to + unat s < 2 ^ 64"
    and "\<And>x. x < s \<Longrightarrow> x \<le> span"
  shows "outer_loop c ctx topics fuel from to s acc p = outer_loop d ctx topics fuel from to s acc p"
  using assms(2-)
proof (induction fuel arbitrary: "from" s acc p)
  case 0
  then show ?case by simp
next
  case (Suc fuel)
  show ?case
  proof (cases "from \<le> to \<and> ctx p = None")
    case False
    then show ?thesis by (auto split: option.splits)
  next
    case go: True
    let ?ct = "min (from + s - 1) to"
    note w = window [OF _ Suc.prems(1,3), of "from"]
    have nw: "unat ?ct + unat s < 2 ^ 64"
      using Suc.prems(3) w(2) go unfolding word_le_nat_alt by linarith
    have same: "walkWindow c ctx topics from ?ct s p = walkWindow d ctx topics from ?ct s p"
      unfolding walkWindow_def by (rule walk_loop_agrees [OF ag Suc.prems(1) order_refl Suc.prems(2) nw Suc.prems(4)])
    obtain l m eo p1 where r: "walkWindow d ctx topics from ?ct s p = ((l, m, eo), p1)" by (metis prod.exhaust)
    have "outer_loop c ctx topics fuel (?ct + 1) to (min s m) (acc @ l) p1 = outer_loop d ctx topics fuel (?ct + 1) to (min s m) (acc @ l) p1"
      if "eo = None"
    proof (rule Suc.IH)
      have m: "0 < m" "m \<le> s"
        using tiling.walk_loop_answers [OF r [unfolded that walkWindow_def] Suc.prems(1) order_refl Suc.prems(2) nw] by auto
      then show "0 < min s m" using Suc.prems(1) by simp
      from m have "unat (min s m) \<le> unat s" by (simp add: word_le_nat_alt [symmetric])
      then show "unat (min s m) < 2 ^ 63" "unat to + unat (min s m) < 2 ^ 64" using Suc.prems(2,3) by linarith+
      show "x \<le> span" if "x < min s m" for x using that Suc.prems(4) by simp
    qed
    then show ?thesis using go same r by (simp add: Let_def split: option.split)
  qed
qed

text \<open>A client that is alive, and refuses nothing but windows of several blocks, and those as too large.\<close>

definition only_caps :: "'p eth_client \<Rightarrow> hash list \<Rightarrow> bool" where
  "only_caps c topics \<longleftrightarrow>
     (\<forall>f t p e q. FilterLogsOp c f t topics p = (Inl e, q) \<longrightarrow> IsTooManyResultsError (Some e) \<and> f \<noteq> t) \<and>
     (\<forall>p0 p. TimeoutErr c p0 p = None)"

lemma walk_loop_only_caps:
  assumes c: "only_caps c topics"
  shows "walk_loop c (TimeoutErr c p0) topics fuel from to s mx acc p = ((logs, m, Some e), q) \<Longrightarrow>
    0 < s \<Longrightarrow> s \<le> mx \<Longrightarrow> unat mx < 2 ^ 63 \<Longrightarrow> unat to + unat mx < 2 ^ 64 \<Longrightarrow> e = Diverges"
proof (induction fuel arbitrary: "from" s mx acc p)
  case 0
  then show ?case by simp
next
  case (Suc fuel)
  have alive: "TimeoutErr c p0 u = None" for u using c by (simp add: only_caps_def)
  have go: "from \<le> to" using Suc.prems(1) by (auto split: if_splits)
  let ?ct = "min (from + s - 1) to"
  have nw: "unat to + unat s < 2 ^ 64" using Suc.prems by (simp add: word_le_nat_alt)
  note w = window [OF go Suc.prems(2) nw]
  obtain r p1 where r: "FilterLogsOp c from ?ct topics p = (r, p1)" by force
  show ?case
  proof (cases r)
    case (Inr l)
    then show ?thesis
      using Suc.prems(1) go alive [of p] r Suc.IH [OF _ double_step [OF Suc.prems(2-4)] Suc.prems(4,5)] by (simp add: Let_def)
  next
    case (Inl e1)
    then have e1: "IsTooManyResultsError (Some e1)" "from \<noteq> ?ct"
      using r c unfolding only_caps_def by blast+
    have "s div 2 \<noteq> 0"
    proof
      assume "s div 2 = 0"
      then have "unat s div 2 = 0" using unat_div [of s 2] by simp
      then have "unat ?ct - unat from = 0" using w(4) by auto
      then show False using e1(2) w(1) by (simp add: word_le_nat_alt word_unat_eq_iff)
    qed
    then have pos: "0 < s div 2" by (simp add: word_neq_0_conv)
    let ?mx = "if IsBlockRangeCapError (Some e1) then s div 2 else mx"
    have run: "walk_loop c (TimeoutErr c p0) topics fuel from to (s div 2) ?mx acc (SleepOp c p1) = ((logs, m, Some e), q)"
      using Suc.prems(1) go alive [of p] alive [of p1] r Inl e1 \<open>s div 2 \<noteq> 0\<close> by (auto simp: Let_def)
    have mx: "s div 2 \<le> ?mx" "?mx \<le> mx"
      using half_window [OF pos Suc.prems(3)] by auto
    then have "unat ?mx \<le> unat mx" by (simp only: word_le_nat_alt)
    then have "unat ?mx < 2 ^ 63" "unat to + unat ?mx < 2 ^ 64" using Suc.prems(4,5) by linarith+
    from Suc.IH [OF run pos mx(1) this] show ?thesis .
  qed
qed
lemma outer_loop_only_caps:
  assumes c: "only_caps c topics"
  shows "outer_loop c (TimeoutErr c p0) topics fuel from to s acc p = ((logs, Some e), q) \<Longrightarrow>
    0 < s \<Longrightarrow> unat s < 2 ^ 63 \<Longrightarrow> unat to + unat s < 2 ^ 64 \<Longrightarrow> goes_on e"
proof (induction fuel arbitrary: "from" s acc p)
  case 0
  then show ?case by auto
next
  case (Suc fuel)
  have alive: "TimeoutErr c p0 u = None" for u using c by (simp add: only_caps_def)
  have go: "from \<le> to" using Suc.prems(1) by (auto split: if_splits)
  let ?ct = "min (from + s - 1) to"
  note w = window [OF go Suc.prems(2,4)]
  have nw: "unat ?ct + unat s < 2 ^ 64"
    using Suc.prems(4) w(2) unfolding word_le_nat_alt by linarith
  obtain l m eo p1 where r: "walkWindow c (TimeoutErr c p0) topics from ?ct s p = ((l, m, eo), p1)" by (metis prod.exhaust)
  show ?case
  proof (cases eo)
    case (Some e1)
    with walk_loop_only_caps [OF c _ Suc.prems(2) order_refl Suc.prems(3) nw] r have "e1 = Diverges"
      unfolding walkWindow_def by blast
    then show ?thesis using Suc.prems(1) go alive [of p] alive [of p1] r Some by (auto simp: Let_def)
  next
    case None
    then have run: "outer_loop c (TimeoutErr c p0) topics fuel (?ct + 1) to (min s m) (acc @ l) p1 = ((logs, Some e), q)"
      using Suc.prems(1) go alive [of p] r by (simp add: Let_def)
    have m: "0 < m" "m \<le> s"
      using tiling.walk_loop_answers [OF r [unfolded None walkWindow_def] Suc.prems(2) order_refl Suc.prems(3) nw] by auto
    then have "unat m \<le> unat s" "min s m = m" by (simp add: word_le_nat_alt, simp add: min_absorb2)
    then show ?thesis using Suc.IH [OF run] m(1) Suc.prems(3,4) by auto
  qed
qed

section \<open>Properties of the paginator\<close>

lemma step_fits:
  assumes "unat to + 1000000 < 2 ^ 64"
  shows "unat (initialStep cap) < 2 ^ 63" "unat to + unat (initialStep cap) < 2 ^ 64"
proof -
  have "unat (initialStep cap) \<le> 1000000"
    using initialStep_bounds(2) [of cap] by (simp add: word_le_nat_alt)
  then show "unat (initialStep cap) < 2 ^ 63" "unat to + unat (initialStep cap) < 2 ^ 64"
    using assms by auto
qed

text \<open>The heights \<open>f\<close> to \<open>t\<close>, ascending, and a node whose chain does not change under the walk.\<close>

definition heights :: "u64 \<Rightarrow> u64 \<Rightarrow> u64 list" where
  "heights f t = map of_nat [unat f..<Suc (unat t)]"

definition serves :: "'p eth_client \<Rightarrow> hash list \<Rightarrow> (u64 \<Rightarrow> log list) \<Rightarrow> bool" where
  "serves c topics chain \<longleftrightarrow>
     (\<forall>f t p ls q. f \<le> t \<longrightarrow> FilterLogsOp c f t topics p = (Inr ls, q) \<longrightarrow> ls = concat (map chain (heights f t)))"

lemma heights_join: "f \<le> m \<Longrightarrow> m < t \<Longrightarrow> heights f t = heights f m @ heights (m + 1) t"
proof -
  assume "f \<le> m" "m < t"
  then have "[unat f..<Suc (unat t)] = [unat f..<Suc (unat m)] @ [Suc (unat m)..<Suc (unat t)]"
    using upt_add_eq_append [of "unat f" "Suc (unat m)" "unat t - unat m"]
    by (auto simp: word_le_nat_alt word_less_nat_alt)
  then show ?thesis using \<open>m < t\<close> by (simp add: heights_def unat_suc)
qed

lemma set_heights: "n \<in> set (heights f t) \<longleftrightarrow> f \<le> n \<and> n \<le> t"
proof
  assume "f \<le> n \<and> n \<le> t"
  then have "unat n \<in> set [unat f..<Suc (unat t)]" by (auto simp: word_le_nat_alt less_Suc_eq_le simp del: upt_Suc)
  moreover have "n = of_nat (unat n)" by simp
  ultimately show "n \<in> set (heights f t)" unfolding heights_def set_map by (rule rev_image_eqI)
next
  assume "n \<in> set (heights f t)"
  then obtain k where k: "n = of_nat k" "unat f \<le> k" "k \<le> unat t" by (auto simp: heights_def)
  then have "unat n = k" using unat_less_u64 [of t] by (simp add: unat_of_nat)
  then show "f \<le> n \<and> n \<le> t" using k by (simp add: word_le_nat_alt)
qed

lemma answered_serves: "answered c topics f t ls \<Longrightarrow> serves c topics chain \<Longrightarrow> ls = concat (map chain (heights f t))"
proof (induction rule: answered.induct)
  case (one_window f t p ls q)
  then show ?case unfolding serves_def by blast
next
  case (two_parts f m t xs ys)
  then show ?case by (simp add: heights_join)
qed

text \<open>
  C26. A walk that succeeds returns the answers of windows that tile the asked range in ascending
  order, whatever the provider rejected on the way: no height is skipped and none is fetched
  twice, for every provider, halving history and cap. With a provider serving one chain the
  result is that chain's logs, height by height.
\<close>

theorem PaginatorFilterLogs_exact:
  assumes "from \<le> to" "SpanCap \<noteq> - 1" "unat to + 1000000 < 2 ^ 64"
    and "PaginatorFilterLogs c SpanCap (Some from) (Some to) topics p = ((logs, None), q)"
  shows "answered c topics from to logs \<and>
    (\<forall>chain. serves c topics chain \<longrightarrow> logs = concat (map chain (heights from to)))"
  using tiling.FilterLogs_answers [OF assms(4,1-3)] answered_serves by blast

text \<open>
  With a configured span cap the walk never sends a window of a larger span: two providers
  that differ only on wider windows cannot be told apart by it.
\<close>

theorem PaginatorFilterLogs_within_cap:
  assumes "0 < SpanCap" "SpanCap \<noteq> - 1" "unat to + 1000000 < 2 ^ 64" and "agrees SpanCap c d"
  shows "PaginatorFilterLogs c SpanCap (Some from) (Some to) topics p =
    PaginatorFilterLogs d SpanCap (Some from) (Some to) topics p"
proof -
  have "TimeoutErr c p = TimeoutErr d p" using assms(4) by (simp add: agrees_def)
  then show ?thesis
    using outer_loop_agrees [OF assms(4) initialStep_bounds(1) step_fits [OF assms(3)]]
      initialStep_bounds(3) [OF assms(2,1) order_refl] assms(2)
    by (simp add: PaginatorFilterLogs_def)
qed

text \<open>
  The walk ends: every rejected window halves the step, every accepted one moves on, so 65
  rounds a block are enough and the loop never runs for ever.
\<close>

theorem PaginatorFilterLogs_ends:
  assumes "SpanCap \<noteq> - 1" "unat to + 1000000 < 2 ^ 64" "client_ends c topics"
    and "PaginatorFilterLogs c SpanCap (Some from) (Some to) topics p = ((logs, Some e), q)"
  shows "Diverges \<notin> set (err_chain e)"
proof -
  have "\<not> goes_on e"
    using outer_loop_ends [OF assms(4) [unfolded PaginatorFilterLogs_def prod.case option.case]
        initialStep_bounds(1) step_fits [OF assms(2)] _ assms(3)] assms(1)
    by (simp add: outer_fuel_def)
  then show ?thesis by (simp add: goes_on_def)
qed

text \<open>
  C27. The walk gets through a capped provider: if the only rejections are windows of several
  blocks refused as too large, and the context stays alive, every range is fetched.
\<close>

theorem PaginatorFilterLogs_completes:
  assumes "SpanCap \<noteq> - 1" "unat to + 1000000 < 2 ^ 64" "client_ends c topics" "only_caps c topics"
  shows "\<exists>logs q. PaginatorFilterLogs c SpanCap (Some from) (Some to) topics p = ((logs, None), q)"
proof -
  obtain logs eo q where r: "PaginatorFilterLogs c SpanCap (Some from) (Some to) topics p = ((logs, eo), q)"
    by (metis prod.exhaust)
  have "eo = None"
  proof (rule ccontr)
    assume "eo \<noteq> None"
    then obtain e where e: "eo = Some e" by auto
    note run = r [unfolded e PaginatorFilterLogs_def prod.case option.case]
    have "goes_on e"
      using outer_loop_only_caps [OF assms(4) run initialStep_bounds(1) step_fits [OF assms(2)]] assms(1) by simp
    moreover have "\<not> goes_on e"
      using outer_loop_ends [OF run initialStep_bounds(1) step_fits [OF assms(2)] _ assms(3)] assms(1)
      by (simp add: outer_fuel_def)
    ultimately show False by simp
  qed
  then show ?thesis using r by blast
qed
section \<open>A concrete provider\<close>

text \<open>A node with one log in every block, which refuses windows of a span above \<open>cap\<close>.\<close>

definition log_at :: "u64 \<Rightarrow> log" where
  "log_at n = \<lparr>logAddress = 0, logTopics = [1], logData = None, logBlockNumber = n, logTxHash = 0, logTxIndex = 0,
     logBlockHash = ucast n + 1, logBlockTimestamp = 0, logIndex = 0, logRemoved = False\<rparr>"

definition head_at :: "u64 \<Rightarrow> block_head" where
  "head_at n = \<lparr>headNumber = n, headHash = ucast n + 1, headParentHash = ucast n, headTimestamp = n\<rparr>"

definition capped_node :: "u64 \<Rightarrow> unit eth_client" where
  "capped_node cap = \<lparr>
     SubscribeNewHeadOp = ret (),
     FilterLogsOp = (\<lambda>f t topics. if cap < t - f then throw (RpcError (-32602) ''Block range limit exceeded'')
       else ret (map log_at (heights f t))),
     HeadByNumberOp = (\<lambda>n. ret (head_at n)),
     BlockReceiptsOp = (\<lambda>n. ret [[log_at n]]),
     BlockNumberOp = ret 20, ChainIDOp = ret 1,
     CtxErr = (\<lambda>_. None), TimeoutErr = (\<lambda>_ _. None), SleepOp = (\<lambda>p. p)\<rparr>"

lemma capped_node_refuses: "IsTooManyResultsError (Some (RpcError (-32602) ''Block range limit exceeded''))"
  by code_simp

lemma capped_node_only_caps: "only_caps (capped_node cap) topics"
  using capped_node_refuses
  by (auto simp: only_caps_def capped_node_def throw_def ret_def split: if_splits)

lemma capped_node_client_ends: "client_ends (capped_node cap) topics"
  by (auto simp: client_ends_def capped_node_def throw_def ret_def goes_on_def split: if_splits)

lemma capped_node_run:
  "PaginatorFilterLogs (capped_node 1) 3 (Some 5) (Some 8) [1] () = ((map log_at [5, 6, 7, 8], None), ())"
  by code_simp

theorem PaginatorFilterLogs_exact_witness:
  "answered (capped_node 1) [1] 5 8 (map log_at [5, 6, 7, 8])"
  using PaginatorFilterLogs_exact [OF _ _ _ capped_node_run] by simp

lemma capped_node_agrees:
  assumes "span \<le> cap" "span \<le> cap'"
  shows "agrees span (capped_node cap) (capped_node cap')"
proof -
  have "\<not> cap < x" "\<not> cap' < x" if "x \<le> span" for x
    using that assms by (auto simp: not_less)
  then show ?thesis by (simp add: agrees_def capped_node_def)
qed

theorem PaginatorFilterLogs_within_cap_witness:
  "PaginatorFilterLogs (capped_node 3) 3 (Some 5) (Some 8) [1] () =
   PaginatorFilterLogs (capped_node 100) 3 (Some 5) (Some 8) [1] ()"
  by (rule PaginatorFilterLogs_within_cap [OF _ _ _ capped_node_agrees]) simp_all

text \<open>An unavailable node, whose error ends the walk.\<close>

definition down_node :: "unit eth_client" where
  "down_node = (capped_node 0)\<lparr>FilterLogsOp := \<lambda>f t topics. throw (ErrNew ''unavailable'')\<rparr>"

theorem PaginatorFilterLogs_ends_witness:
  "\<exists>logs e q. PaginatorFilterLogs down_node 3 (Some 5) (Some 8) [1] () = ((logs, Some e), q) \<and>
     Diverges \<notin> set (err_chain e)"
proof -
  have run: "PaginatorFilterLogs down_node 3 (Some 5) (Some 8) [1] () =
      (([], Some (Wrapf ''failed to get logs for range 5-8: '' (ErrNew ''unavailable'') '''')), ())"
    by code_simp
  have "client_ends down_node [1]"
    by (auto simp: client_ends_def down_node_def capped_node_def throw_def)
  from PaginatorFilterLogs_ends [OF _ _ this run] run show ?thesis by force
qed

theorem PaginatorFilterLogs_completes_witness:
  "\<exists>logs q. PaginatorFilterLogs (capped_node 1) 0 (Some 5) (Some 8) [1] () = ((logs, None), q)"
  by (rule PaginatorFilterLogs_completes [OF _ _ capped_node_client_ends capped_node_only_caps]) simp_all

end
