(* ===== verification/Fetcher.thy ===== *)
theory Fetcher
  imports Pagination EventSet
begin

text \<open>
  \<open>internal/ingestion/fetcher.go\<close>: the ingestion logs of a block range, from \<open>eth_getLogs\<close>
  through the paginator, and from the receipts of a block that alone exceeds the provider's
  result cap.

  \<open>FetchIngestionLogs\<close> and \<open>fetchAroundDenseBlock\<close> call each other; the recursion takes fuel,
  and one unit per block of the range is enough (\<open>fetch_loop_ends\<close>).
\<close>

section \<open>The fetcher\<close>

definition wanted :: "keccak \<Rightarrow> log \<Rightarrow> bool" where
  "wanted kc vLog = (case logTopics vLog of [] \<Rightarrow> False | topic0 # _ \<Rightarrow> topic0 \<in> set (Topics kc))"

definition denseBlockLogs :: "keccak \<Rightarrow> 'p eth_client \<Rightarrow> u64 \<Rightarrow> ('p, err, log list) step" where
  "denseBlockLogs kc c block =
     andThen (onErr (\<lambda>e. Wrapf (''block receipts for dense block '' @ show_u64 block @ '': '') e '''') (BlockReceiptsOp c block))
       (\<lambda>receipts. ret (filter (wanted kc) (concat receipts)))"

definition fetchAroundDenseBlock ::
  "keccak \<Rightarrow> 'p eth_client \<Rightarrow> (u64 \<Rightarrow> u64 \<Rightarrow> ('p, err, log list) step) \<Rightarrow> u64 \<Rightarrow> u64 \<Rightarrow> u64 \<Rightarrow> ('p, err, log list) step" where
  "fetchAroundDenseBlock kc c fetch fromBlock toBlock dense =
     andThen (if dense > fromBlock then fetch fromBlock (dense - 1) else ret []) (\<lambda>left.
     andThen (denseBlockLogs kc c dense) (\<lambda>mid.
     andThen (if dense < toBlock then fetch (dense + 1) toBlock else ret []) (\<lambda>right.
     ret (left @ mid @ right))))"

definition as_overflow :: "err \<Rightarrow> u64 option" where
  "as_overflow e = (case e of SingleBlockOverflowError n e' \<Rightarrow> Some n | _ \<Rightarrow> None)"

fun fetch_loop :: "keccak \<Rightarrow> 'p eth_client \<Rightarrow> u64 \<Rightarrow> nat \<Rightarrow> u64 \<Rightarrow> u64 \<Rightarrow> ('p, err, log list) step" where
  "fetch_loop kc c SpanCap 0 fromBlock toBlock p = (Inl Diverges, p)"
| "fetch_loop kc c SpanCap (Suc fuel) fromBlock toBlock p =
     (case PaginatorFilterLogs c SpanCap (Some fromBlock) (Some toBlock) (Topics kc) p of
       ((logs, None), p) \<Rightarrow> (Inr (sort_key log_key logs), p)
     | ((logs, Some e), p) \<Rightarrow>
         (case errors_As as_overflow e of
           None \<Rightarrow> (Inl e, p)
         | Some dense \<Rightarrow>
             (case fetchAroundDenseBlock kc c (fetch_loop kc c SpanCap fuel) fromBlock toBlock dense p of
               (Inl e, p) \<Rightarrow> (Inl e, p)
             | (Inr logs, p) \<Rightarrow> (Inr (sort_key log_key logs), p))))"

definition fetch_fuel :: "u64 \<Rightarrow> u64 \<Rightarrow> nat" where
  "fetch_fuel from to = Suc (unat to + 1 - unat from)"

definition FetchIngestionLogs :: "keccak \<Rightarrow> 'p eth_client \<Rightarrow> u64 \<Rightarrow> u64 \<Rightarrow> u64 \<Rightarrow> ('p, err, log list) step" where
  "FetchIngestionLogs kc c SpanCap fromBlock toBlock = fetch_loop kc c SpanCap (fetch_fuel fromBlock toBlock) fromBlock toBlock"

section \<open>What it returns\<close>

lemma filter_sort_key: "filter (\<lambda>x. k = f x) (sort_key f xs) = filter (\<lambda>x. k = f x) xs"
  using sort_key_stable [of f k xs] by (simp add: eq_commute)

lemma sort_key_parts: "sort_key f (sort_key f xs @ ys @ sort_key f zs) = sort_key f (xs @ ys @ zs)"
  by (rule properties_for_sort_key) (simp_all add: filter_sort_key)

text \<open>\<open>fetched\<close>: windows answered by \<open>eth_getLogs\<close> and blocks read from their receipts tile the range.\<close>

inductive fetched :: "keccak \<Rightarrow> 'p eth_client \<Rightarrow> u64 \<Rightarrow> u64 \<Rightarrow> log list \<Rightarrow> bool"
  for kc :: keccak and c :: "'p eth_client" where
  by_query: "f \<le> t \<Longrightarrow> FilterLogsOp c f t (Topics kc) p = (Inr ls, q) \<Longrightarrow> fetched kc c f t ls"
| by_receipts: "BlockReceiptsOp c n p = (Inr rs, q) \<Longrightarrow> fetched kc c n n (filter (wanted kc) (concat rs))"
| by_parts: "f \<le> m \<Longrightarrow> m < t \<Longrightarrow> fetched kc c f m xs \<Longrightarrow> fetched kc c (m + 1) t ys \<Longrightarrow> fetched kc c f t (xs @ ys)"

interpretation mixed: range_source c "Topics kc" "fetched kc c"
  for c :: "'p eth_client" and kc :: keccak
  by unfold_locales (auto intro: fetched.intros)

text \<open>Errors of the client that no paginator made.\<close>

definition plain_errors :: "'p eth_client \<Rightarrow> hash list \<Rightarrow> bool" where
  "plain_errors c topics \<longleftrightarrow>
     (\<forall>f t p e q. FilterLogsOp c f t topics p = (Inl e, q) \<longrightarrow> errors_As as_overflow e = None) \<and>
     (\<forall>p0 p e. TimeoutErr c p0 p = Some e \<longrightarrow> errors_As as_overflow e = None)"

lemma errors_As_overflow [simp]:
  "errors_As as_overflow (SingleBlockOverflowError n e) = Some n"
  "errors_As as_overflow (Wrapf a e b) = errors_As as_overflow e"
  "errors_As as_overflow Diverges = None" "errors_As as_overflow (ErrNew m) = None"
  by (simp_all add: errors_As_def as_overflow_def)

lemma walk_loop_overflow:
  assumes "walk_loop c (TimeoutErr c p0) topics fuel from to s mx acc p = ((logs, m, Some e), q)"
    and "0 < s" "s \<le> mx" "unat mx < 2 ^ 63" "unat to + unat mx < 2 ^ 64"
    and c: "plain_errors c topics" and e: "errors_As as_overflow e = Some n"
  shows "from \<le> n \<and> n \<le> to"
  using assms(1-5)
proof (induction fuel arbitrary: "from" s mx acc p)
  case 0
  then show ?case using e by simp
next
  case (Suc fuel)
  show ?case
  proof (cases "from \<le> to \<and> TimeoutErr c p0 p = None")
    case False
    then show ?thesis using Suc.prems c e by (auto simp: plain_errors_def split: option.splits if_splits)
  next
    case go: True
    let ?ct = "min (from + s - 1) to"
    have nw: "unat to + unat s < 2 ^ 64" using Suc.prems by (simp add: word_le_nat_alt)
    note w = window [OF _ Suc.prems(2) nw, of "from"]
    obtain r p1 where r: "FilterLogsOp c from ?ct topics p = (r, p1)" by force
    show ?thesis
    proof (cases r)
      case (Inr l)
      then have run: "walk_loop c (TimeoutErr c p0) topics fuel (?ct + 1) to (min (s * 2) mx) mx (acc @ l) p1 = ((logs, m, Some e), q)"
        using Suc.prems(1) go r by (simp add: Let_def)
      from Suc.IH [OF run double_step [OF Suc.prems(2-4)] Suc.prems(4,5)] w go show ?thesis
        by (simp add: word_le_nat_alt)
    next
      case (Inl e1)
      then have e1: "errors_As as_overflow e1 = None" using r c unfolding plain_errors_def by blast
      show ?thesis
      proof (cases "TimeoutErr c p0 p1 = None \<and> IsTooManyResultsError (Some e1) \<and> from \<noteq> ?ct \<and> s div 2 \<noteq> 0")
        case False
        then show ?thesis
          using Suc.prems(1) go r Inl e1 c e by (auto simp: Let_def plain_errors_def split: option.splits if_splits)
      next
        case True
        let ?mx = "if IsBlockRangeCapError (Some e1) then s div 2 else mx"
        have run: "walk_loop c (TimeoutErr c p0) topics fuel from to (s div 2) ?mx acc (SleepOp c p1) = ((logs, m, Some e), q)"
          using Suc.prems(1) go r Inl True by (auto simp: Let_def)
        have pos: "0 < s div 2" using True by (simp add: word_neq_0_conv)
        have mx: "s div 2 \<le> ?mx" "?mx \<le> mx"
          using half_window [OF pos Suc.prems(3)] by auto
        then have "unat ?mx \<le> unat mx" by (simp only: word_le_nat_alt)
        then have "unat ?mx < 2 ^ 63" "unat to + unat ?mx < 2 ^ 64" using Suc.prems(4,5) by linarith+
        from Suc.IH [OF run pos mx(1) this] show ?thesis .
      qed
    qed
  qed
qed

lemma outer_loop_overflow:
  assumes "outer_loop c (TimeoutErr c p0) topics fuel from to s acc p = ((logs, Some e), q)"
    and "0 < s" "unat s < 2 ^ 63" "unat to + unat s < 2 ^ 64"
    and c: "plain_errors c topics" and e: "errors_As as_overflow e = Some n"
  shows "from \<le> n \<and> n \<le> to"
  using assms(1-4)
proof (induction fuel arbitrary: "from" s acc p)
  case 0
  then show ?case using e by auto
next
  case (Suc fuel)
  show ?case
  proof (cases "from \<le> to \<and> TimeoutErr c p0 p = None")
    case False
    then show ?thesis using Suc.prems c e by (auto simp: plain_errors_def split: option.splits if_splits)
  next
    case go: True
    let ?ct = "min (from + s - 1) to"
    note w = window [OF _ Suc.prems(2,4), of "from"]
    obtain l m eo p1 where r: "walkWindow c (TimeoutErr c p0) topics from ?ct s p = ((l, m, eo), p1)" by (metis prod.exhaust)
    have nw: "unat ?ct + unat s < 2 ^ 64"
      using Suc.prems(4) w(2) go unfolding word_le_nat_alt by linarith
    show ?thesis
    proof (cases eo)
      case (Some e1)
      have "errors_As as_overflow e1 = Some n"
        using Suc.prems(1) go r Some c e by (auto simp: Let_def plain_errors_def split: option.splits)
      with walk_loop_overflow [OF r [unfolded Some walkWindow_def] Suc.prems(2) order_refl Suc.prems(3) nw c] show ?thesis
        using w(2) go by auto
    next
      case None
      then have run: "outer_loop c (TimeoutErr c p0) topics fuel (?ct + 1) to (min s m) (acc @ l) p1 = ((logs, Some e), q)"
        using Suc.prems(1) go r by (simp add: Let_def)
      have m: "0 < m" "m \<le> s"
        using tiling.walk_loop_answers [OF r [unfolded None walkWindow_def] Suc.prems(2) order_refl Suc.prems(3) nw] by auto
      then have "unat m \<le> unat s" "min s m = m" by (simp add: word_le_nat_alt, simp add: min_absorb2)
      then have "?ct + 1 \<le> n \<and> n \<le> to" using Suc.IH [OF run] m(1) Suc.prems(3,4) by auto
      then show ?thesis using w go by (simp add: word_le_nat_alt)
    qed
  qed
qed

lemma PaginatorFilterLogs_overflow:
  assumes "PaginatorFilterLogs c cap (Some from) (Some to) topics p = ((logs, Some e), q)"
    and "cap \<noteq> - 1" "unat to + 1000000 < 2 ^ 64" "plain_errors c topics" "errors_As as_overflow e = Some n"
  shows "from \<le> n \<and> n \<le> to"
  using outer_loop_overflow [OF assms(1) [unfolded PaginatorFilterLogs_def prod.case option.case]
      initialStep_bounds(1) step_fits [OF assms(3)] assms(4,5)] assms(2) by simp

lemma PaginatorFilterLogs_not_goes_on:
  assumes "PaginatorFilterLogs c cap (Some from) (Some to) topics p = ((logs, Some e), q)"
    and "cap \<noteq> - 1" "unat to + 1000000 < 2 ^ 64" "client_ends c topics"
  shows "\<not> goes_on e"
  using outer_loop_ends [OF assms(1) [unfolded PaginatorFilterLogs_def prod.case option.case]
      initialStep_bounds(1) step_fits [OF assms(3)] _ assms(4)] assms(2)
  by (simp add: outer_fuel_def)
lemma fetchAroundDenseBlock_Inr:
  assumes "fetchAroundDenseBlock kc c fetch from to n p = (Inr ls, q)"
  obtains left right u v p1 p2 rs where
    "ls = left @ filter (wanted kc) (concat rs) @ right" "BlockReceiptsOp c n u = (Inr rs, v)"
    "n > from \<Longrightarrow> fetch from (n - 1) p = (Inr left, p1)" "\<not> n > from \<Longrightarrow> left = []"
    "n < to \<Longrightarrow> fetch (n + 1) to p2 = (Inr right, q)" "\<not> n < to \<Longrightarrow> right = []"
proof -
  from assms obtain left p1 mid p2 right where
    l: "(if n > from then fetch from (n - 1) else ret []) p = (Inr left, p1)"
    and m: "denseBlockLogs kc c n p1 = (Inr mid, p2)"
    and r: "(if n < to then fetch (n + 1) to else ret []) p2 = (Inr right, q)"
    and ls: "ls = left @ mid @ right"
    unfolding fetchAroundDenseBlock_def andThen_Inr ret_eq by blast
  from m obtain rs v where "BlockReceiptsOp c n p1 = (Inr rs, v)" "mid = filter (wanted kc) (concat rs)"
    by (auto simp: denseBlockLogs_def step_simps)
  with ls l r that show thesis by (simp add: ret_eq split: if_splits)
qed

lemma around_block:
  assumes "from \<le> (n :: u64)" "n \<le> to"
  shows "n > from \<Longrightarrow> from \<le> n - 1 \<and> n - 1 < n \<and> unat (n - 1) = unat n - 1"
    and "n < to \<Longrightarrow> n + 1 \<le> to \<and> unat (n + 1) = Suc (unat n)"
proof -
  show "from \<le> n - 1 \<and> n - 1 < n \<and> unat (n - 1) = unat n - 1" if "n > from"
  proof -
    have "unat (n - 1) = unat n - 1"
      using that by (simp add: unat_sub word_le_nat_alt word_less_nat_alt)
    then show ?thesis using that by (simp add: word_le_nat_alt word_less_nat_alt)
  qed
  show "n + 1 \<le> to \<and> unat (n + 1) = Suc (unat n)" if "n < to"
    using that unat_suc [OF that] by (simp add: word_le_nat_alt word_less_nat_alt)
qed

lemma fetch_loop_dense:
  assumes "PaginatorFilterLogs c cap (Some from) (Some to) (Topics kc) p = ((logs, Some e), p1)"
    and "errors_As as_overflow e = Some n"
  shows "fetch_loop kc c cap (Suc fuel) from to p =
    (case fetchAroundDenseBlock kc c (fetch_loop kc c cap fuel) from to n p1 of
       (Inl e, p) \<Rightarrow> (Inl e, p) | (Inr logs, p) \<Rightarrow> (Inr (sort_key log_key logs), p))"
  using assms by simp

lemma fetch_loop_fetched:
  assumes "fetch_loop kc c cap fuel from to p = (Inr ls, q)" "from \<le> to" "cap \<noteq> - 1" "unat to + 1000000 < 2 ^ 64"
    and c: "plain_errors c (Topics kc)"
  shows "\<exists>raw. fetched kc c from to raw \<and> ls = sort_key log_key raw"
  using assms(1-4)
proof (induction fuel arbitrary: "from" to p ls q)
  case 0
  then show ?case by simp
next
  case (Suc fuel)
  obtain logs eo p1 where w: "PaginatorFilterLogs c cap (Some from) (Some to) (Topics kc) p = ((logs, eo), p1)"
    by (metis prod.exhaust)
  show ?case
  proof (cases eo)
    case None
    then show ?thesis
    proof -
      have "ls = sort_key log_key logs" using Suc.prems(1) None w by simp
      moreover have "fetched kc c from to logs" by (rule mixed.FilterLogs_answers [OF w [unfolded None] Suc.prems(2-4)])
      ultimately show ?thesis by blast
    qed
  next
    case (Some e)
    then obtain n ls' where n: "errors_As as_overflow e = Some n"
      and run: "fetchAroundDenseBlock kc c (fetch_loop kc c cap fuel) from to n p1 = (Inr ls', q)"
      and ls: "ls = sort_key log_key ls'"
    proof -
      obtain n where n: "errors_As as_overflow e = Some n"
        using Suc.prems(1) w Some by (cases "errors_As as_overflow e") simp_all
      obtain r q' where r: "fetchAroundDenseBlock kc c (fetch_loop kc c cap fuel) from to n p1 = (r, q')" by force
      have "(case (r, q') of (Inl e, p) \<Rightarrow> (Inl e, p) | (Inr logs, p) \<Rightarrow> (Inr (sort_key log_key logs), p)) = (Inr ls, q)"
        using Suc.prems(1) unfolding fetch_loop_dense [OF w [unfolded Some] n] r .
      then obtain ls' where "r = Inr ls'" "ls = sort_key log_key ls'" "q' = q" by (cases r) auto
      then show thesis using that [OF n] r by simp
    qed
    note inside = PaginatorFilterLogs_overflow [OF w [unfolded Some] Suc.prems(3,4) c n]
    show ?thesis
    proof (rule fetchAroundDenseBlock_Inr [OF run])
    fix left right u v p2 p3 rs
    assume parts: "ls' = left @ filter (wanted kc) (concat rs) @ right" "BlockReceiptsOp c n u = (Inr rs, v)"
      and left: "n > from \<Longrightarrow> fetch_loop kc c cap fuel from (n - 1) p1 = (Inr left, p2)" "\<not> n > from \<Longrightarrow> left = []"
      and right: "n < to \<Longrightarrow> fetch_loop kc c cap fuel (n + 1) to p3 = (Inr right, q)" "\<not> n < to \<Longrightarrow> right = []"
    let ?mid = "filter (wanted kc) (concat rs)"
    have mid: "fetched kc c n n ?mid" using parts(2) by (rule by_receipts)
    have "\<exists>raw. fetched kc c from n (raw @ ?mid) \<and> left = sort_key log_key raw"
    proof (cases "n > from")
      case True
      note ar = around_block(1) [OF conjunct1 [OF inside] conjunct2 [OF inside] True]
      have "unat (n - 1) \<le> unat n" using ar by simp
      moreover have "unat n \<le> unat to" using inside by (simp only: word_le_nat_alt)
      ultimately have "unat (n - 1) + 1000000 < 2 ^ 64" using Suc.prems(4) by linarith
      from Suc.IH [OF left(1) [OF True] _ Suc.prems(3) this] ar obtain raw where
        "fetched kc c from (n - 1) raw" "left = sort_key log_key raw" by blast
      moreover have "fetched kc c (n - 1 + 1) n ?mid" using mid by simp
      ultimately show ?thesis using by_parts [of "from" "n - 1" n kc c raw ?mid] ar by blast
    next
      case False
      then have "n = from" using inside by simp
      then show ?thesis using mid left(2) False by (intro exI [of _ "[]"]) simp
    qed
    then obtain rl where rl: "fetched kc c from n (rl @ ?mid)" "left = sort_key log_key rl" by blast
    have "\<exists>rr. fetched kc c from to ((rl @ ?mid) @ rr) \<and> right = sort_key log_key rr"
    proof (cases "n < to")
      case True
      note ar = around_block(2) [OF conjunct1 [OF inside] conjunct2 [OF inside] True]
      from Suc.IH [OF right(1) [OF True] _ Suc.prems(3,4)] ar obtain rr where
        "fetched kc c (n + 1) to rr" "right = sort_key log_key rr" by blast
      then show ?thesis using by_parts [of "from" n to kc c "rl @ ?mid" rr] rl(1) inside True by blast
    next
      case False
      then have "n = to" using inside by simp
      then show ?thesis using rl(1) right(2) False by (intro exI [of _ "[]"]) simp
    qed
    then obtain rr where rr: "fetched kc c from to (rl @ ?mid @ rr)" "right = sort_key log_key rr"
      unfolding append_assoc by blast
    have "ls = sort_key log_key (rl @ ?mid @ rr)"
      unfolding ls parts(1) rl(2) rr(2) by (rule sort_key_parts)
    with rr(1) show ?thesis by blast
    qed
  qed
qed

definition receipts_end :: "'p eth_client \<Rightarrow> bool" where
  "receipts_end c \<longleftrightarrow> (\<forall>n p e q. BlockReceiptsOp c n p = (Inl e, q) \<longrightarrow> \<not> goes_on e)"

lemma fetchAroundDenseBlock_Inl:
  assumes "fetchAroundDenseBlock kc c fetch from to n p = (Inl e, q)"
    and "n > from \<Longrightarrow> (\<And>u v. fetch from (n - 1) u \<noteq> (Inl e, v))"
    and "n < to \<Longrightarrow> (\<And>u v. fetch (n + 1) to u \<noteq> (Inl e, v))"
  shows "\<exists>e' u v. BlockReceiptsOp c n u = (Inl e', v) \<and> (\<exists>a. e = Wrapf a e' '''')"
  using assms
  by (cases "n > from"; cases "n < to")
    (auto simp: fetchAroundDenseBlock_def denseBlockLogs_def step_simps)

lemma fetch_loop_ends:
  assumes "fetch_loop kc c cap fuel from to p = (Inl e, q)" "cap \<noteq> - 1" "unat to + 1000000 < 2 ^ 64"
    and "unat to + 1 - unat from < fuel"
    and c: "plain_errors c (Topics kc)" "client_ends c (Topics kc)" "receipts_end c"
  shows "\<not> goes_on e"
  using assms(1-4)
proof (induction fuel arbitrary: "from" to p e q)
  case 0
  then show ?case by simp
next
  case (Suc fuel)
  obtain logs eo p1 where w: "PaginatorFilterLogs c cap (Some from) (Some to) (Topics kc) p = ((logs, eo), p1)"
    by (metis prod.exhaust)
  show ?case
  proof (cases "\<exists>e1 n. eo = Some e1 \<and> errors_As as_overflow e1 = Some n")
    case False
    then have "eo = Some e" using Suc.prems(1) w by (auto split: option.splits)
    then show ?thesis using PaginatorFilterLogs_not_goes_on [OF _ Suc.prems(2,3) c(2)] w by blast
  next
    case True
    then obtain e1 n where e1: "eo = Some e1" and n: "errors_As as_overflow e1 = Some n" by blast
    then have run: "fetchAroundDenseBlock kc c (fetch_loop kc c cap fuel) from to n p1 = (Inl e, q)"
      using Suc.prems(1) unfolding fetch_loop_dense [OF w [unfolded e1] n]
      by (cases "fetchAroundDenseBlock kc c (fetch_loop kc c cap fuel) from to n p1";
          cases "fst (fetchAroundDenseBlock kc c (fetch_loop kc c cap fuel) from to n p1)") simp_all
    note inside = PaginatorFilterLogs_overflow [OF w [unfolded e1] Suc.prems(2,3) c(1) n]
    show ?thesis
    proof (rule ccontr)
      assume "\<not> \<not> goes_on e"
      then have bad: "goes_on e" by simp
      have "fetch_loop kc c cap fuel from (n - 1) u \<noteq> (Inl e, v)" if "n > from" for u v
      proof
        assume run1: "fetch_loop kc c cap fuel from (n - 1) u = (Inl e, v)"
        note ar = around_block(1) [OF conjunct1 [OF inside] conjunct2 [OF inside] that]
        have "unat (n - 1) + 1000000 < 2 ^ 64" "unat (n - 1) + 1 - unat from < fuel"
          using ar inside Suc.prems(3,4) that by (auto simp: word_le_nat_alt word_less_nat_alt)
        with Suc.IH [OF run1 Suc.prems(2)] bad show False by blast
      qed
      moreover have "fetch_loop kc c cap fuel (n + 1) to u \<noteq> (Inl e, v)" if "n < to" for u v
      proof
        assume run1: "fetch_loop kc c cap fuel (n + 1) to u = (Inl e, v)"
        note ar = around_block(2) [OF conjunct1 [OF inside] conjunct2 [OF inside] that]
        have "unat to + 1 - unat (n + 1) < fuel"
          using ar inside Suc.prems(4) that by (auto simp: word_le_nat_alt word_less_nat_alt)
        with Suc.IH [OF run1 Suc.prems(2,3)] bad show False by blast
      qed
      ultimately obtain e' u v a where "BlockReceiptsOp c n u = (Inl e', v)" "e = Wrapf a e' ''''"
        using fetchAroundDenseBlock_Inl [OF run] by blast
      then show False using bad c(3) by (auto simp: receipts_end_def)
    qed
  qed
qed
section \<open>Properties of the fetcher\<close>

text \<open>
  A node with one chain: both of its reads show the same logs of a block, numbered and in the
  order of their index.
\<close>

definition node_chain :: "keccak \<Rightarrow> 'p eth_client \<Rightarrow> (u64 \<Rightarrow> log list) \<Rightarrow> bool" where
  "node_chain kc c chain \<longleftrightarrow>
     serves c (Topics kc) chain \<and>
     (\<forall>n p rs q. BlockReceiptsOp c n p = (Inr rs, q) \<longrightarrow> filter (wanted kc) (concat rs) = chain n) \<and>
     (\<forall>n. sorted (map logIndex (chain n)) \<and> (\<forall>l \<in> set (chain n). logBlockNumber l = n))"

lemma chain_sorted:
  assumes "\<And>n. sorted (map logIndex (chain n)) \<and> (\<forall>l \<in> set (chain n). logBlockNumber l = n)"
  shows "sorted_wrt (<) ns \<Longrightarrow> sorted (map log_key (concat (map chain ns)))"
proof (induction ns)
  case (Cons n ns)
  have "sorted (map log_key (chain n))"
    using assms [of n] by (auto simp: sorted_wrt_map log_key_def less_eq_prod_def elim!: sorted_wrt_mono_rel [rotated])
  moreover have "log_key x \<le> log_key y" if "x \<in> set (chain n)" "m \<in> set ns" "y \<in> set (chain m)" for x y m
    using that assms Cons.prems by (auto simp: log_key_def less_eq_prod_def)
  ultimately show ?case using Cons by (auto simp: sorted_append)
qed simp

lemma sorted_heights: "sorted_wrt (<) (heights f t)"
proof -
  have "of_nat i < (of_nat j :: u64)" if "i < j" "j \<le> unat t" for i j
    using that unat_less_u64 [of t] by (simp add: word_less_nat_alt unat_of_nat)
  then show ?thesis
    by (auto simp: heights_def sorted_wrt_map simp del: upt_Suc intro!: sorted_wrt_mono_rel [OF _ sorted_wrt_upt])
qed

lemma fetched_chain: "fetched kc c f t ls \<Longrightarrow> node_chain kc c chain \<Longrightarrow> ls = concat (map chain (heights f t))"
proof (induction rule: fetched.induct)
  case (by_query f t p ls q)
  then show ?case unfolding node_chain_def serves_def by blast
next
  case (by_receipts n p rs q)
  then have "filter (wanted kc) (concat rs) = chain n" unfolding node_chain_def by blast
  then show ?case by (simp add: heights_def)
next
  case (by_parts f m t xs ys)
  then show ?case by (simp add: heights_join)
qed

text \<open>
  C25. What the fetcher returns is put together from windows answered by \<open>eth_getLogs\<close> and blocks
  read from their receipts that tile the asked range, each height exactly once, sorted by
  (block, index); with a node that serves one chain it is exactly that chain's logs in order,
  however many blocks overflow the result cap.
\<close>

theorem FetchIngestionLogs_exact:
  assumes "fromBlock \<le> toBlock" "SpanCap \<noteq> - 1" "unat toBlock + 1000000 < 2 ^ 64" "plain_errors c (Topics kc)"
    and "FetchIngestionLogs kc c SpanCap fromBlock toBlock p = (Inr logs, q)"
  shows "(\<exists>raw. fetched kc c fromBlock toBlock raw \<and> logs = sort_key log_key raw) \<and>
    (\<forall>chain. node_chain kc c chain \<longrightarrow> logs = concat (map chain (heights fromBlock toBlock)))"
proof -
  obtain raw where raw: "fetched kc c fromBlock toBlock raw" "logs = sort_key log_key raw"
    using fetch_loop_fetched [OF assms(5) [unfolded FetchIngestionLogs_def] assms(1-4)] by blast
  moreover have "logs = concat (map chain (heights fromBlock toBlock))" if "node_chain kc c chain" for chain
  proof -
    have "sorted (map log_key raw)"
      using that chain_sorted [OF _ sorted_heights] fetched_chain [OF raw(1) that] unfolding node_chain_def by blast
    then show ?thesis using raw(2) fetched_chain [OF raw(1) that] by (simp add: sort_key_id_if_sorted)
  qed
  ultimately show ?thesis by blast
qed

text \<open>
  The recursion around dense blocks ends: each round removes at least the dense block from
  the ranges that are left.
\<close>

theorem FetchIngestionLogs_ends:
  assumes "SpanCap \<noteq> - 1" "unat toBlock + 1000000 < 2 ^ 64"
    and "plain_errors c (Topics kc)" "client_ends c (Topics kc)" "receipts_end c"
    and "FetchIngestionLogs kc c SpanCap fromBlock toBlock p = (Inl e, q)"
  shows "Diverges \<notin> set (err_chain e)"
  using fetch_loop_ends [OF assms(6) [unfolded FetchIngestionLogs_def] assms(1,2) _ assms(3-5)]
  by (simp add: fetch_fuel_def goes_on_def)

text \<open>A node whose block 6 exceeds its result cap, and one whose receipts are unavailable too.\<close>

definition dense_node :: "unit eth_client" where
  "dense_node = (capped_node 100)\<lparr>FilterLogsOp := \<lambda>f t topics.
     if f \<le> 6 \<and> 6 \<le> t then throw (RpcError (-32005) ''query returned more than 10000 results'')
     else ret (map log_at (heights f t))\<rparr>"

definition refusing_node :: "unit eth_client" where
  "refusing_node = dense_node\<lparr>BlockReceiptsOp := \<lambda>n. throw (ErrNew ''unavailable'')\<rparr>"

lemma dense_node_plain: "plain_errors dense_node topics" "plain_errors refusing_node topics"
  by (auto simp: plain_errors_def refusing_node_def dense_node_def capped_node_def throw_def ret_def
      errors_As_def as_overflow_def split: if_splits)

lemma heights_single: "heights n n = [n]"
  by (simp add: heights_def)

lemma concat_singletons: "concat (map (\<lambda>n. [f n]) xs) = map f xs"
  by (induction xs) auto

lemma dense_node_chain: "node_chain (\<lambda>_. 1) dense_node (\<lambda>n. [log_at n])"
  by (auto simp: node_chain_def serves_def dense_node_def capped_node_def throw_def ret_def log_at_def wanted_def
      Topics_def signature_defs concat_singletons split: if_splits)

theorem FetchIngestionLogs_exact_witness:
  "[log_at 5, log_at 6, log_at 7] = concat (map (\<lambda>n. [log_at n]) (heights 5 7))"
proof -
  have "FetchIngestionLogs (\<lambda>_. 1) dense_node 0 5 7 () = (Inr [log_at 5, log_at 6, log_at 7], ())"
    by code_simp
  from FetchIngestionLogs_exact [OF _ _ _ dense_node_plain(1) this] dense_node_chain show ?thesis by simp
qed

theorem FetchIngestionLogs_ends_witness:
  "\<exists>e q. FetchIngestionLogs (\<lambda>_. 1) refusing_node 0 5 7 () = (Inl e, q) \<and> Diverges \<notin> set (err_chain e)"
proof -
  have run: "FetchIngestionLogs (\<lambda>_. 1) refusing_node 0 5 7 () =
      (Inl (Wrapf ''block receipts for dense block 6: '' (ErrNew ''unavailable'') ''''), ())"
    by code_simp
  have "client_ends refusing_node topics" "receipts_end refusing_node" for topics
    by (auto simp: client_ends_def receipts_end_def refusing_node_def dense_node_def capped_node_def throw_def ret_def
        goes_on_def split: if_splits)
  from FetchIngestionLogs_ends [OF _ _ dense_node_plain(2) this run] run show ?thesis by force
qed

end
