(* ===== verification/Ingest.thy ===== *)
theory Ingest
  imports Fetcher Store
begin

text \<open>
  \<open>internal/ingestion/subscriber.go\<close>: the loop that follows the chain head and hands confirmed
  batches to the warehouse.

  The state of a run is the provider, the warehouse and the subscriber's position
  (\<open>streamState\<close>). \<open>ask\<close> and \<open>store\<close> run an operation of the client and of the sink in it.
  Each function of the file is one definition; a loop that counts down to zero recurses on the
  number, a loop that counts up is \<open>for_up\<close> or takes fuel, as its counter can wrap, and the
  mutual recursion of \<open>record\<close> takes fuel (one round per written block is enough: the errors
  \<open>IngestFacts\<close> leaves exclude \<open>Diverges\<close>). Log lines and the watchdog timer's mechanics are not modelled: an expired
  watchdog is the event \<open>Silent\<close>.
\<close>

section \<open>State\<close>

record ingest_config =
  MaxCatchupBlocks :: u64
  ConfirmationBlocks :: u64
  HeadTimeout :: int
  HeadTimeoutText :: string

record 'd sink =
  WriteRangeOp :: "u64 \<Rightarrow> u64 \<Rightarrow> block list \<Rightarrow> log list \<Rightarrow> ('d, err, unit) step"
  StoredBlockHashOp :: "u64 \<Rightarrow> ('d, err, hash option) step"
  RewindOp :: "u64 \<Rightarrow> ('d, err, unit) step"

record ('p, 'd) subscriber =
  s_client :: "'p eth_client"
  s_spanCap :: u64
  s_keccak :: keccak
  s_sink :: "'d sink"
  s_cfg :: ingest_config

record stream_state =
  st_next :: u64
  st_lowerBound :: u64
  st_tip :: u64
  st_heads :: "(u64 \<times> block_head) list"

record ('p, 'd) run =
  provider :: 'p
  warehouse :: 'd
  stream :: stream_state

type_synonym ('p, 'd, 'a) act = "(('p, 'd) run, err, 'a) step"

definition ask :: "('p, err, 'a) step \<Rightarrow> ('p, 'd, 'a) act" where
  "ask m = zoom provider (\<lambda>p s. s\<lparr>provider := p\<rparr>) m"

definition store :: "('d, err, 'a) step \<Rightarrow> ('p, 'd, 'a) act" where
  "store m = zoom warehouse (\<lambda>d s. s\<lparr>warehouse := d\<rparr>) m"

definition position :: "(stream_state \<Rightarrow> stream_state) \<Rightarrow> ('p, 'd, unit) act" where
  "position f = modify (\<lambda>s. s\<lparr>stream := f (stream s)\<rparr>)"

definition canonicalHead :: "('p, 'd) subscriber \<Rightarrow> u64 \<Rightarrow> ('p, 'd, block_head) act" where
  "canonicalHead S n = ask (HeadByNumberOp (s_client S) n)"

section \<open>The retained heads\<close>

definition head_of :: "stream_state \<Rightarrow> u64 \<Rightarrow> block_head option" where
  "head_of st n = map_of (st_heads st) n"

definition delete_heads :: "(u64 \<Rightarrow> bool) \<Rightarrow> stream_state \<Rightarrow> stream_state" where
  "delete_heads P st = st\<lparr>st_heads := filter (\<lambda>(k, h). \<not> P k) (st_heads st)\<rparr>"

definition put_head :: "u64 \<Rightarrow> block_head \<Rightarrow> stream_state \<Rightarrow> stream_state" where
  "put_head n h st = st\<lparr>st_heads := (n, h) # filter (\<lambda>(k, h). k \<noteq> n) (st_heads st)\<rparr>"

definition nearestRetainedBelow :: "stream_state \<Rightarrow> u64 \<Rightarrow> u64" where
  "nearestRetainedBelow st n = foldl (\<lambda>best (k, h). if k < n \<and> k > best then k else best) 0 (st_heads st)"

definition truncateAbove :: "u64 \<Rightarrow> stream_state \<Rightarrow> stream_state" where
  "truncateAbove height st = (delete_heads (\<lambda>m. m > height) st)\<lparr>st_tip := height\<rparr>"

definition advance :: "u64 \<Rightarrow> stream_state \<Rightarrow> stream_state" where
  "advance to st = delete_heads (\<lambda>n. n + 1 < to + 1) (st\<lparr>st_next := to + 1\<rparr>)"

section \<open>Reconciling a head with the retained chain\<close>

definition maxBridgeWalk :: u64 where
  "maxBridgeWalk = 64"

definition maxForkWalk :: u64 where
  "maxForkWalk = 1024"

text \<open>
  One round of the loop of \<open>reconcile\<close> at height \<open>k\<close>: \<open>Inl\<close> is a return of (stale, replaced),
  \<open>Inr\<close> the new \<open>expected\<close> and \<open>replaced\<close>.
\<close>

definition reconcile_at ::
  "('p, 'd) subscriber \<Rightarrow> bool \<Rightarrow> u64 \<Rightarrow> hash \<Rightarrow> bool \<Rightarrow> ('p, 'd, (bool \<times> bool) + (hash \<times> bool)) act" where
  "reconcile_at S bridge k expected replaced =
     andThen (gets stream) (\<lambda>st.
     let retained = head_of st k in
     if map_option headHash retained = Some expected then ret (Inl (False, replaced))
     else if retained = None \<and> (\<not> bridge \<or> k < st_next st) then ret (Inl (False, replaced))
     else
     andThen (onErr (\<lambda>e. Wrapf (''reconcile reorg at height '' @ show_u64 k @ '': '') e '''') (canonicalHead S k)) (\<lambda>canonical.
     let swap = (retained \<noteq> None \<and> map_option headHash retained \<noteq> Some (headHash canonical)) in
     if swap \<and> k < st_next st then throw (DeepReorgError k)
     else
     andThen (position (put_head k canonical)) (\<lambda>_.
     if headHash canonical \<noteq> expected then ret (Inl (True, replaced \<or> swap))
     else ret (Inr (headParentHash canonical, replaced \<or> swap)))))"

primrec reconcile_loop ::
  "('p, 'd) subscriber \<Rightarrow> bool \<Rightarrow> nat \<Rightarrow> hash \<Rightarrow> bool \<Rightarrow> ('p, 'd, bool \<times> bool) act" where
  "reconcile_loop S bridge 0 expected replaced =
     andThen (reconcile_at S bridge 0 expected replaced) (\<lambda>r.
     case r of Inl result \<Rightarrow> ret result | Inr (_, replaced) \<Rightarrow> ret (False, replaced))"
| "reconcile_loop S bridge (Suc k) expected replaced =
     andThen (reconcile_at S bridge (of_nat (Suc k)) expected replaced) (\<lambda>r.
     case r of Inl result \<Rightarrow> ret result
     | Inr (expected, replaced) \<Rightarrow> reconcile_loop S bridge k expected replaced)"

definition reconcile :: "('p, 'd) subscriber \<Rightarrow> block_head \<Rightarrow> ('p, 'd, bool \<times> bool) act" where
  "reconcile S h =
     (let n = headNumber h in
      if n = 0 then ret (False, False)
      else
      andThen (gets stream) (\<lambda>st.
      let bridge = (head_of st (st_next st - 1) \<noteq> None) in
      if bridge \<and> n - nearestRetainedBelow st n > maxBridgeWalk
      then andThen (onErr (\<lambda>e. Wrapf (''verify far head '' @ show_u64 n @ '': '') e '''') (canonicalHead S n)) (\<lambda>canonical.
           ret (headHash canonical \<noteq> headHash h, False))
      else reconcile_loop S bridge (unat (n - 1)) (headParentHash h) False))"

section \<open>Deep reorgs\<close>

primrec fork_loop :: "('p, 'd) subscriber \<Rightarrow> u64 \<Rightarrow> nat \<Rightarrow> ('p, 'd, block_head) act" where
  "fork_loop S height 0 = throw (ErrNew ''no common ancestor above genesis'')"
| "fork_loop S height (Suc k) =
     (let n = of_nat k in
      if height - n > maxForkWalk
      then throw (ErrNew (''no common ancestor within '' @ show_u64 maxForkWalk @ '' blocks below '' @ show_u64 height
             @ ''; verify the chain and rewind manually''))
      else
      andThen (store (StoredBlockHashOp (s_sink S) n)) (\<lambda>stored.
      case stored of
        None \<Rightarrow> throw (ErrNew (''block '' @ show_u64 n
                  @ '' is not stored, the fork reaches below warehouse coverage; rebuild from the export''))
      | Some hash \<Rightarrow>
          andThen (onErr (\<lambda>e. Wrapf (''fetch canonical block '' @ show_u64 n @ '': '') e '''') (canonicalHead S n)) (\<lambda>canonical.
          if headHash canonical = hash then ret canonical else fork_loop S height k)))"

definition findForkPoint :: "('p, 'd) subscriber \<Rightarrow> u64 \<Rightarrow> ('p, 'd, block_head) act" where
  "findForkPoint S height = fork_loop S height (unat height)"

definition restart_at :: "block_head \<Rightarrow> stream_state \<Rightarrow> stream_state" where
  "restart_at ancestor st = st\<lparr>st_heads := [(headNumber ancestor, ancestor)], st_next := headNumber ancestor + 1,
     st_tip := headNumber ancestor\<rparr>"

definition recoverDeepReorg :: "('p, 'd) subscriber \<Rightarrow> u64 \<Rightarrow> ('p, 'd, unit) act" where
  "recoverDeepReorg S height =
     andThen (onErr (\<lambda>e. Wrapf (''reorg deeper than confirmation lag replaced written block '' @ show_u64 height @ '': '') e '''')
       (findForkPoint S height)) (\<lambda>ancestor.
     andThen (onErr (\<lambda>e. Wrapf (''rewind to '' @ show_u64 (headNumber ancestor) @ '' after deep reorg: '') e '''')
       (store (RewindOp (s_sink S) (headNumber ancestor)))) (\<lambda>_.
     position (restart_at ancestor)))"

section \<open>Recording a head\<close>

definition as_deep :: "err \<Rightarrow> u64 option" where
  "as_deep e = (case e of DeepReorgError h \<Rightarrow> Some h | _ \<Rightarrow> None)"

definition handleWrittenHeightHead ::
  "('p, 'd) subscriber \<Rightarrow> (block_head \<Rightarrow> ('p, 'd, unit) act) \<Rightarrow> block_head \<Rightarrow> ('p, 'd, unit) act" where
  "handleWrittenHeightHead S recordHead h =
     (let n = headNumber h in
      andThen (store (StoredBlockHashOp (s_sink S) n)) (\<lambda>stored.
      if stored = Some (headHash h) then ret ()
      else
      andThen (onErr (\<lambda>e. Wrapf (''verify written block '' @ show_u64 n @ '' after unexpected head: '') e '''') (canonicalHead S n)) (\<lambda>canonical.
      if stored = Some (headHash canonical) then ret ()
      else andThen (recoverDeepReorg S n) (\<lambda>_. recordHead h))))"

text \<open>What \<open>record\<close> does with the answer of \<open>reconcile\<close>; \<open>prev\<close> was retained at the head's height before.\<close>

definition retain :: "block_head \<Rightarrow> block_head option \<Rightarrow> bool \<times> bool \<Rightarrow> stream_state \<Rightarrow> stream_state" where
  "retain h prev r st =
     (let n = headNumber h; (stale, replaced) = r;
          st = (if replaced then truncateAbove (n - 1) st else st) in
      if stale then st
      else
        let st = (if prev \<noteq> None \<and> map_option headHash prev \<noteq> Some (headHash h) then truncateAbove n st else st);
            st = put_head n h st
        in if n > st_tip st then st\<lparr>st_tip := n\<rparr> else st)"

text \<open>\<open>try\<close>: the error or the value of a step, as a value.\<close>

definition attempt_of :: "('s, err, 'a) step \<Rightarrow> ('s, err, err + 'a) step" where
  "attempt_of m = (\<lambda>s. case m s of (r, t) \<Rightarrow> (Inr r, t))"

fun record_loop :: "('p, 'd) subscriber \<Rightarrow> nat \<Rightarrow> block_head \<Rightarrow> ('p, 'd, unit) act" where
  "record_loop S 0 h = throw Diverges"
| "record_loop S (Suc fuel) h =
     (let n = headNumber h in
      andThen (gets stream) (\<lambda>st.
      if n < st_lowerBound st then ret ()
      else
      let prev = head_of st n in
      if n < st_next st then
        if map_option headHash prev = Some (headHash h) then ret ()
        else handleWrittenHeightHead S (record_loop S fuel) h
      else
      andThen (attempt_of (reconcile S h)) (\<lambda>r.
      case r of
        Inl e \<Rightarrow>
          (case errors_As as_deep e of
             Some height \<Rightarrow> andThen (recoverDeepReorg S height) (\<lambda>_. record_loop S fuel h)
           | None \<Rightarrow> throw e)
      | Inr result \<Rightarrow> position (retain h prev result))))"

definition recordHead :: "('p, 'd) subscriber \<Rightarrow> block_head \<Rightarrow> ('p, 'd, unit) act" where
  "recordHead S h = andThen (gets stream) (\<lambda>st. record_loop S (unat (st_next st) + 2) h)"

section \<open>Planning a range\<close>

definition checkCatchupBound :: "ingest_config \<Rightarrow> u64 \<Rightarrow> u64 \<Rightarrow> ('s, err, unit) step" where
  "checkCatchupBound cfg next tip =
     (if MaxCatchupBlocks cfg > 0 \<and> tip \<ge> next \<and> tip - next + 1 > MaxCatchupBlocks cfg
      then throw (Wrapf '''' (Sentinel ErrCatchupTooLarge)
             ('': need blocks '' @ show_u64 next @ ''-'' @ show_u64 tip @ '' ('' @ show_u64 (tip - next + 1) @ '' blocks, max ''
              @ show_u64 (MaxCatchupBlocks cfg) @ ''); rewind deliberately or raise ethereum.max_catchup_blocks''))
      else ret ())"

definition planRange :: "('p, 'd) subscriber \<Rightarrow> block_head list \<Rightarrow> ('p, 'd, (u64 \<times> u64) option) act" where
  "planRange S batch =
     andThen (gets stream) (\<lambda>st.
     andThen (checkCatchupBound (s_cfg S) (st_next st) (foldl (\<lambda>highest h. max highest (headNumber h)) (st_tip st) batch)) (\<lambda>_.
     andThen (for_each batch (recordHead S)) (\<lambda>_.
     andThen (gets stream) (\<lambda>st.
     andThen (checkCatchupBound (s_cfg S) (st_next st) (st_tip st)) (\<lambda>_.
     if st_tip st < ConfirmationBlocks (s_cfg S) then ret None
     else
     let to = st_tip st - ConfirmationBlocks (s_cfg S) in
     if to < st_next st then ret None
     else if head_of st to \<noteq> None then ret (Some (st_next st, to))
     else
     andThen (onErr (\<lambda>e. Wrapf (''fetch emitted boundary head '' @ show_u64 to @ '': '') e '''') (canonicalHead S to)) (\<lambda>boundary.
     andThen (position (put_head to boundary)) (\<lambda>_.
     ret (Some (st_next st, to)))))))))"

section \<open>Writing a batch\<close>

definition as_gap :: "err \<Rightarrow> u64 option" where
  "as_gap e = (case e of DiscontinuityError h \<Rightarrow> Some h | _ \<Rightarrow> None)"

text \<open>The loop of \<open>blockMetadata\<close> from height \<open>n\<close>; \<open>prev\<close> is the head of the height below, when one is held.\<close>

fun metadata_loop ::
  "('p, 'd) subscriber \<Rightarrow> nat \<Rightarrow> u64 \<Rightarrow> u64 \<Rightarrow> block_head option \<Rightarrow> block list \<Rightarrow> ('p, 'd, block list) act" where
  "metadata_loop S 0 n to prev blocks = throw Diverges"
| "metadata_loop S (Suc fuel) n to prev blocks =
     (if \<not> n \<le> to then ret blocks
      else
      andThen (gets stream) (\<lambda>st.
      andThen (case head_of st n of
          Some head \<Rightarrow> ret head
        | None \<Rightarrow>
            andThen (onErr (\<lambda>e. Wrapf (''fetch block '' @ show_u64 n @ '' metadata: '') e '''') (canonicalHead S n)) (\<lambda>head.
            andThen (position (put_head n head)) (\<lambda>_. ret head))) (\<lambda>head.
      if (case prev of Some p \<Rightarrow> headParentHash head \<noteq> headHash p | None \<Rightarrow> False)
      then throw (DiscontinuityError n)
      else metadata_loop S fuel (n + 1) to (Some head)
             (blocks @ [\<lparr>blkNumber = n, blkHash = headHash head, blkTimestamp = headTimestamp head\<rparr>]))))"

definition blockMetadata :: "('p, 'd) subscriber \<Rightarrow> u64 \<Rightarrow> u64 \<Rightarrow> ('p, 'd, block list) act" where
  "blockMetadata S from to =
     andThen (gets stream) (\<lambda>st. metadata_loop S (loop_fuel from to) from to (head_of st (from - 1)) [])"

text \<open>\<open>byNumber\<close> is the hash of the last block row of a number, as in the writer (\<open>hash_of_block\<close>).\<close>

fun disagreeing :: "(u64 \<Rightarrow> hash option) \<Rightarrow> u64 list \<Rightarrow> log list \<Rightarrow> u64 list" where
  "disagreeing byNumber out [] = out"
| "disagreeing byNumber out (l # logs) =
     (case byNumber (logBlockNumber l) of
        Some h \<Rightarrow>
          if (logBlockHash l = 0 \<or> h \<noteq> logBlockHash l) \<and> logBlockNumber l \<notin> set out
          then disagreeing byNumber (out @ [logBlockNumber l]) logs
          else disagreeing byNumber out logs
      | None \<Rightarrow> disagreeing byNumber out logs)"

definition disagreeingHeights :: "log list \<Rightarrow> block list \<Rightarrow> u64 list" where
  "disagreeingHeights logs blocks = disagreeing (hash_of_block blocks) [] logs"

fun recheck_loop :: "('p, 'd) subscriber \<Rightarrow> u64 list \<Rightarrow> u64 list \<Rightarrow> block list \<Rightarrow> ('p, 'd, u64 list) act" where
  "recheck_loop S withLogs moved [] = ret moved"
| "recheck_loop S withLogs moved (b # blocks) =
     (if blkNumber b \<in> set withLogs then recheck_loop S withLogs moved blocks
      else
      andThen (onErr (\<lambda>e. Wrapf (''re-read block '' @ show_u64 (blkNumber b) @ '' after the log fetch: '') e '''')
        (canonicalHead S (blkNumber b))) (\<lambda>canonical.
      recheck_loop S withLogs (if headHash canonical \<noteq> blkHash b then moved @ [blkNumber b] else moved) blocks))"

definition recheckLoglessBlocks :: "('p, 'd) subscriber \<Rightarrow> log list \<Rightarrow> block list \<Rightarrow> ('p, 'd, u64 list) act" where
  "recheckLoglessBlocks S logs blocks = recheck_loop S (map logBlockNumber logs) [] blocks"

text \<open>\<open>for n := from; n <= to; n++ { delete(st.heads, n) }\<close>.\<close>

definition forget_range :: "u64 \<Rightarrow> u64 \<Rightarrow> ('p, 'd, unit) act" where
  "forget_range from to = for_up Diverges (loop_fuel from to) 1 from to (\<lambda>n. position (delete_heads (\<lambda>k. k = n)))"

definition boundaryMoved :: "('p, 'd) subscriber \<Rightarrow> u64 \<Rightarrow> ('p, 'd, unit) act" where
  "boundaryMoved S from =
     andThen (store (StoredBlockHashOp (s_sink S) (from - 1))) (\<lambda>stored.
     if stored \<noteq> None
     then andThen (recoverDeepReorg S (from - 1)) (\<lambda>_. throw (Sentinel ErrReplan))
     else
     andThen (onErr (\<lambda>e. Wrapf (''re-anchor at '' @ show_u64 (from - 1) @ '': '') e '''') (canonicalHead S (from - 1))) (\<lambda>anchor.
     andThen (position (put_head (from - 1) anchor)) (\<lambda>_.
     andThen (gets stream) (\<lambda>st.
     andThen (forget_range from (st_tip st)) (\<lambda>_.
     andThen (position (\<lambda>st. st\<lparr>st_tip := from - 1\<rparr>)) (\<lambda>_.
     throw (Sentinel ErrReplan)))))))"

definition batchConsistencyAttempts :: nat where
  "batchConsistencyAttempts = 3"

fun show_heights :: "u64 list \<Rightarrow> string" where
  "show_heights [] = ''''"
| "show_heights [n] = show_u64 n"
| "show_heights (n # ns) = show_u64 n @ '' '' @ show_heights ns"

text \<open>The loop of \<open>ingestBatch\<close>, with the attempts that are left.\<close>

fun batch_loop :: "('p, 'd) subscriber \<Rightarrow> u64 \<Rightarrow> u64 \<Rightarrow> nat \<Rightarrow> ('p, 'd, unit) act" where
  "batch_loop S from to 0 = throw Diverges"
| "batch_loop S from to (Suc left) =
     andThen (attempt_of (blockMetadata S from to)) (\<lambda>metadata.
     case metadata of
       Inl e \<Rightarrow>
         (case errors_As as_gap e of
            Some height \<Rightarrow>
              if height = from then boundaryMoved S from
              else if left = 0
              then throw (Wrapf (''batch '' @ range_text from to @ '': '') e
                     ('' after '' @ dec batchConsistencyAttempts @ '' attempts; the chain is unstable at the confirmation depth''))
              else andThen (forget_range (height - 1) to) (\<lambda>_. batch_loop S from to left)
          | None \<Rightarrow> throw e)
     | Inr blocks \<Rightarrow>
         andThen (onErr (\<lambda>e. Wrapf (''fetch ingestion logs for blocks '' @ range_text from to @ '': '') e '''')
           (ask (FetchIngestionLogs (s_keccak S) (s_client S) (s_spanCap S) from to))) (\<lambda>logs.
         let disagree = disagreeingHeights logs blocks in
         andThen (if disagree = [] then recheckLoglessBlocks S logs blocks else ret disagree) (\<lambda>moved.
         let kept = filter (\<lambda>l. Keep (s_keccak S) (logTopics l) (logAddress l)) logs in
         if moved = []
         then onErr (\<lambda>e. Wrapf (''write blocks '' @ range_text from to @ '': '') e '''')
                (store (WriteRangeOp (s_sink S) from to blocks kept))
         else if left = 0
         then throw (ErrNew (''blocks ['' @ show_heights moved @ ''] kept changing between log and header fetches for batch ''
                @ range_text from to @ '' ('' @ dec batchConsistencyAttempts @ '' attempts); the chain is unstable at the confirmation depth''))
         else andThen (position (delete_heads (\<lambda>k. k \<in> set moved))) (\<lambda>_. batch_loop S from to left))))"

definition ingestBatch :: "('p, 'd) subscriber \<Rightarrow> u64 \<Rightarrow> u64 \<Rightarrow> ('p, 'd, unit) act" where
  "ingestBatch S from to = batch_loop S from to batchConsistencyAttempts"

definition catchupBatchBlocks :: u64 where
  "catchupBatchBlocks = 10"

definition ctx_check :: "('p, 'd) subscriber \<Rightarrow> ('p, 'd, unit) act" where
  "ctx_check S = andThen (gets provider) (\<lambda>p. case CtxErr (s_client S) p of Some e \<Rightarrow> throw e | None \<Rightarrow> ret ())"

definition ingestRange :: "('p, 'd) subscriber \<Rightarrow> u64 \<Rightarrow> u64 \<Rightarrow> ('p, 'd, unit) act" where
  "ingestRange S from to =
     for_up Diverges (loop_fuel from to) catchupBatchBlocks from to (\<lambda>batchFrom.
       andThen (ctx_check S) (\<lambda>_.
       let batchTo = min (batchFrom + catchupBatchBlocks - 1) to in
       andThen (ingestBatch S batchFrom batchTo) (\<lambda>_. position (advance batchTo))))"

section \<open>The loop\<close>

definition verifyResumePoint :: "('p, 'd) subscriber \<Rightarrow> ('p, 'd, unit) act" where
  "verifyResumePoint S =
     andThen (gets stream) (\<lambda>st.
     if st_next st = 0 then ret ()
     else
     let last = st_next st - 1 in
     andThen (store (StoredBlockHashOp (s_sink S) last)) (\<lambda>stored.
     andThen (onErr (\<lambda>e. Wrapf (''verify resume point '' @ show_u64 last @ '': '') e '''') (canonicalHead S last)) (\<lambda>canonical.
     if stored = None \<or> stored = Some (headHash canonical)
     then position (\<lambda>st. (put_head last canonical st)\<lparr>st_tip := last\<rparr>)
     else
     andThen (recoverDeepReorg S last) (\<lambda>_.
     position (\<lambda>st. st\<lparr>st_lowerBound := min (st_lowerBound st) (st_next st)\<rparr>)))))"

text \<open>
  What the \<open>select\<close> of \<open>Run\<close> delivers: the context's end, an error of the subscription, an
  expired watchdog (which is only ever armed with a positive \<open>HeadTimeout\<close>), or a head with the
  heads that \<open>drainHeads\<close> finds queued behind it.
\<close>

datatype event = CtxDone err | SubErr err | Silent | Heads block_head "block_head list"

text \<open>The heads queued in the channel, read one by one until none is left.\<close>

primrec drain_loop :: "block_head list \<Rightarrow> block_head list \<Rightarrow> block_head list" where
  "drain_loop out [] = out"
| "drain_loop out (h # heads) = drain_loop (out @ [h]) heads"

definition drainHeads :: "block_head list \<Rightarrow> block_head list" where
  "drainHeads heads = drain_loop [] heads"

lemma drain_loop_append: "drain_loop out heads = out @ heads"
  by (induction heads arbitrary: out) auto

lemma drainHeads_all [simp]: "drainHeads heads = heads"
  by (simp add: drainHeads_def drain_loop_append)

definition on_heads :: "('p, 'd) subscriber \<Rightarrow> block_head list \<Rightarrow> ('p, 'd, unit) act" where
  "on_heads S batch =
     andThen (planRange S batch) (\<lambda>plan.
     case plan of
       None \<Rightarrow> ret ()
     | Some (from, to) \<Rightarrow>
         andThen (attempt_of (ingestRange S from to)) (\<lambda>r.
         case r of
           Inl e \<Rightarrow> if errors_Is e ErrReplan then ret () else throw e
         | Inr _ \<Rightarrow> position (advance to)))"

definition on_event :: "('p, 'd) subscriber \<Rightarrow> event \<Rightarrow> ('p, 'd, unit) act" where
  "on_event S ev =
     (case ev of
        CtxDone e \<Rightarrow> throw e
      | SubErr e \<Rightarrow> throw (Wrapf ''new heads subscription error: '' e '''')
      | Silent \<Rightarrow>
          if HeadTimeout (s_cfg S) > 0
          then andThen (gets stream) (\<lambda>st. throw (Wrapf '''' (Sentinel ErrHeadsSilent)
                 ('': no head in '' @ HeadTimeoutText (s_cfg S) @ '' (last written block ''
                  @ show_u64 (st_next st - 1) @ ''); restarting to reconnect'')))
          else ret ()
      | Heads head queued \<Rightarrow> on_heads S (head # drainHeads queued))"

text \<open>
  \<open>Run\<close> over the events of a prefix of its life: an error is its return, \<open>Inr\<close> means it still
  waits in the \<open>select\<close>.
\<close>

definition Run :: "('p, 'd) subscriber \<Rightarrow> u64 \<Rightarrow> event list \<Rightarrow> ('p, 'd, unit) act" where
  "Run S fromBlock events =
     andThen (onErr (\<lambda>e. Wrapf ''failed to subscribe to new heads: '' e '''') (ask (SubscribeNewHeadOp (s_client S)))) (\<lambda>_.
     andThen (position (\<lambda>_. \<lparr>st_next = fromBlock, st_lowerBound = fromBlock, st_tip = 0, st_heads = []\<rparr>)) (\<lambda>_.
     andThen (verifyResumePoint S) (\<lambda>_.
     for_each events (on_event S))))"

end
