(* ===== verification/IngestFacts.thy ===== *)
theory IngestFacts
  imports Ingest StoreFacts
begin

text \<open>
  What the head-following loop guarantees, for every provider, chain history and sequence of
  events. \<open>sink_contract\<close> states what the loop needs of a warehouse, and the lemmas inside it show
  what the loop keeps at every step: the retained heads are ones the node announced or answered,
  the position is anchored on a retained head, and the warehouse is at the position.
\<close>

section \<open>Errors from outside\<close>

text \<open>
  Three errors are signals between functions of the subscriber, and \<open>Diverges\<close> is the model's
  sign of a loop that does not end. Errors of the provider or the warehouse are \<open>outside\<close>:
  none of these is in their chain.
\<close>

definition outside :: "err \<Rightarrow> bool" where
  "outside e \<longleftrightarrow> \<not> errors_Is e ErrReplan \<and> errors_As as_deep e = None \<and> errors_As as_gap e = None \<and> \<not> goes_on e"

lemma outside_simps [simp]:
  "outside (Wrapf a e b) = outside e" "outside (ErrNew m)" "outside (DbError m)"
  "outside (SingleBlockOverflowError n e) = outside e"
  "outside (Sentinel s) \<longleftrightarrow> s \<noteq> ErrReplan"
  by (auto simp: outside_def errors_Is_def errors_As_def as_deep_def as_gap_def goes_on_def)

lemma errors_As_signals [simp]:
  "errors_As as_deep (DeepReorgError h) = Some h" "errors_As as_gap (DeepReorgError h) = None"
  "errors_As as_gap (DiscontinuityError h) = Some h" "errors_As as_deep (DiscontinuityError h) = None"
  by (simp_all add: errors_As_def as_deep_def as_gap_def)

lemma goes_on_more [simp]:
  "\<not> goes_on (Sentinel s)" "\<not> goes_on (DeepReorgError h)" "\<not> goes_on (DiscontinuityError h)" "outside e \<Longrightarrow> \<not> goes_on e"
  by (auto simp: goes_on_def outside_def)

text \<open>Every error of the walk is one of the client or the context, wrapped, or one the walk makes.\<close>

definition client_errors :: "(err \<Rightarrow> bool) \<Rightarrow> 'p eth_client \<Rightarrow> bool" where
  "client_errors G c \<longleftrightarrow>
     (\<forall>p e q. SubscribeNewHeadOp c p = (Inl e, q) \<longrightarrow> G e) \<and>
     (\<forall>p e q. ChainIDOp c p = (Inl e, q) \<longrightarrow> G e) \<and> (\<forall>p e q. BlockNumberOp c p = (Inl e, q) \<longrightarrow> G e) \<and>
     (\<forall>n p e q. HeadByNumberOp c n p = (Inl e, q) \<longrightarrow> G e) \<and>
     (\<forall>f t ts p e q. FilterLogsOp c f t ts p = (Inl e, q) \<longrightarrow> G e) \<and>
     (\<forall>n p e q. BlockReceiptsOp c n p = (Inl e, q) \<longrightarrow> G e) \<and>
     (\<forall>p e. CtxErr c p = Some e \<longrightarrow> G e) \<and> (\<forall>p0 p e. TimeoutErr c p0 p = Some e \<longrightarrow> G e)"

lemma client_errorsD:
  assumes "client_errors G c"
  shows "SubscribeNewHeadOp c p = (Inl e, q) \<Longrightarrow> G e" "ChainIDOp c p = (Inl e, q1) \<Longrightarrow> G e"
    "BlockNumberOp c p = (Inl e, q1) \<Longrightarrow> G e" "HeadByNumberOp c n p = (Inl e, q3) \<Longrightarrow> G e"
    "FilterLogsOp c f t ts p = (Inl e, q4) \<Longrightarrow> G e" "BlockReceiptsOp c n p = (Inl e, q5) \<Longrightarrow> G e"
    "CtxErr c p = Some e \<Longrightarrow> G e" "TimeoutErr c p0 p = Some e \<Longrightarrow> G e"
  using assms unfolding client_errors_def by metis+

definition sound_err :: "err \<Rightarrow> bool" where
  "sound_err e \<longleftrightarrow> outside e \<or> goes_on e"

lemma sound_err_simps [simp]:
  "sound_err (Wrapf a e b) = sound_err e" "sound_err (SingleBlockOverflowError n e) = sound_err e"
  "sound_err Diverges" "sound_err (ErrNew m)"
  by (simp_all add: sound_err_def)

lemma outside_sound [intro]: "outside e \<Longrightarrow> sound_err e"
  by (simp add: sound_err_def)

lemma walk_loop_outside:
  assumes c: "client_errors outside c"
  shows "walk_loop c (TimeoutErr c p0) topics fuel from to s mx acc p = ((logs, m, Some e), q) \<Longrightarrow> sound_err e"
proof (induction fuel arbitrary: "from" s mx acc p)
  case 0
  then show ?case by auto
next
  case (Suc fuel)
  have ctx: "TimeoutErr c p0 u = Some x \<Longrightarrow> sound_err x" and
    query: "FilterLogsOp c f t topics u = (Inl x, v) \<Longrightarrow> sound_err x" for u x f t v
    by (rule outside_sound, erule client_errorsD [OF c])+
  show ?case
    using Suc.prems Suc.IH ctx query
    by (auto simp: Let_def split: if_splits option.splits prod.splits sum.splits)
qed

lemma outer_loop_outside:
  assumes c: "client_errors outside c"
  shows "outer_loop c (TimeoutErr c p0) topics fuel from to s acc p = ((logs, Some e), q) \<Longrightarrow> sound_err e"
proof (induction fuel arbitrary: "from" s acc p)
  case 0
  then show ?case by auto
next
  case (Suc fuel)
  have ctx: "TimeoutErr c p0 u = Some x \<Longrightarrow> sound_err x" for u x
    by (rule outside_sound, erule client_errorsD [OF c])
  have window: "walkWindow c (TimeoutErr c p0) topics f t st u = ((l, m, Some x), v) \<Longrightarrow> sound_err x" for f t st u l m x v
    unfolding walkWindow_def by (rule walk_loop_outside [OF c])
  show ?case
    using Suc.prems Suc.IH ctx window
    by (auto simp: Let_def split: if_splits option.splits prod.splits)
qed

lemma fetch_loop_outside:
  assumes c: "client_errors outside c"
  shows "fetch_loop kc c cap fuel from to p = (Inl e, q) \<Longrightarrow> sound_err e"
proof (induction fuel arbitrary: "from" to p e q)
  case 0
  then show ?case by auto
next
  case (Suc fuel)
  obtain logs eo p1 where w: "PaginatorFilterLogs c cap (Some from) (Some to) (Topics kc) p = ((logs, eo), p1)"
    by (metis prod.exhaust)
  show ?case
  proof (cases "\<exists>e1 n. eo = Some e1 \<and> errors_As as_overflow e1 = Some n")
    case False
    then have "eo = Some e" using Suc.prems(1) w by (auto split: option.splits)
    then show ?thesis using w outer_loop_outside [OF c] by (auto simp: PaginatorFilterLogs_def)
  next
    case True
    then obtain e1 n where e1: "eo = Some e1" and n: "errors_As as_overflow e1 = Some n" by blast
    then have run: "fetchAroundDenseBlock kc c (fetch_loop kc c cap fuel) from to n p1 = (Inl e, q)"
      using Suc.prems(1) unfolding fetch_loop_dense [OF w [unfolded e1] n]
      by (cases "fetchAroundDenseBlock kc c (fetch_loop kc c cap fuel) from to n p1";
          cases "fst (fetchAroundDenseBlock kc c (fetch_loop kc c cap fuel) from to n p1)") simp_all
    show ?thesis
    proof (rule ccontr)
      assume no: "\<not> sound_err e"
      then have "fetch_loop kc c cap fuel f t u \<noteq> (Inl e, v)" for f t u v using Suc.IH by blast
      with fetchAroundDenseBlock_Inl [OF run] obtain e' u v a where "BlockReceiptsOp c n u = (Inl e', v)" "e = Wrapf a e' ''''"
        by blast
      then have "sound_err e'" using client_errorsD(6) [OF c] by blast
      with \<open>e = Wrapf a e' ''''\<close> no show False by simp
    qed
  qed
qed

section \<open>What is known of heads\<close>

text \<open>
  \<open>Seen\<close> is any set of heads that holds what the node answers by number and what the
  subscription delivers. A head answered for a height has that number, and no number is
  absurd (\<open>plausible\<close>: below 2 ^ 62).
\<close>

definition node_heads :: "'p eth_client \<Rightarrow> (block_head \<Rightarrow> bool) \<Rightarrow> bool" where
  "node_heads c Seen \<longleftrightarrow>
     (\<forall>n p h q. HeadByNumberOp c n p = (Inr h, q) \<longrightarrow> headNumber h = n \<and> Seen h) \<and>
     (\<forall>h. Seen h \<longrightarrow> plausible (headNumber h))"

definition confirmed :: "u64 \<Rightarrow> (block_head \<Rightarrow> bool) \<Rightarrow> u64 \<Rightarrow> bool" where
  "confirmed confirmations Seen n \<longleftrightarrow>
     (n = 0 \<and> confirmations = 0) \<or> (\<exists>h. Seen h \<and> unat n + unat confirmations \<le> unat (headNumber h))"

definition child :: "block_head \<Rightarrow> block_head \<Rightarrow> bool" where
  "child a b \<longleftrightarrow> headParentHash b = headHash a"

definition block_of :: "block_head \<Rightarrow> block" where
  "block_of h = \<lparr>blkNumber = headNumber h, blkHash = headHash h, blkTimestamp = headTimestamp h\<rparr>"

text \<open>The headers of the heights \<open>from\<close> to \<open>to\<close>, linked, on top of a head of the height below.\<close>

definition headers_ok :: "(block_head \<Rightarrow> bool) \<Rightarrow> u64 \<Rightarrow> u64 \<Rightarrow> block_head list \<Rightarrow> bool" where
  "headers_ok Seen from to hs \<longleftrightarrow>
     map headNumber hs = heights from to \<and> (\<forall>h \<in> set hs. Seen h) \<and> successively child hs \<and>
     (from = 0 \<or> (\<exists>a. Seen a \<and> headNumber a = from - 1 \<and> successively child (a # hs)))"

text \<open>
  What every batch given to the warehouse is: at most ten blocks, confirmed; the headers of its
  heights, each the child of the one below, the first the child of the held head below the batch;
  the logs that windows and receipts answered for exactly these heights, less the shapes not
  kept; every raw log of a height of the batch with the hash of its header. (The second reading of the
  blocks without a log is in \<open>Requests\<close>, where the requests of a run are kept in order.)
\<close>

definition good_batch :: "('p, 'd) subscriber \<Rightarrow> (block_head \<Rightarrow> bool) \<Rightarrow> u64 \<Rightarrow> u64 \<Rightarrow> block list \<Rightarrow> log list \<Rightarrow> bool" where
  "good_batch S Seen from to blocks logs \<longleftrightarrow>
     from \<le> to \<and> to - from < 10 \<and> confirmed (ConfirmationBlocks (s_cfg S)) Seen to \<and>
     (\<exists>hs raw. headers_ok Seen from to hs \<and> blocks = map block_of hs \<and>
        fetched (s_keccak S) (s_client S) from to raw \<and>
        logs = filter (\<lambda>l. Keep (s_keccak S) (logTopics l) (logAddress l)) (sort_key log_key raw) \<and>
        (\<forall>l \<in> set raw. from \<le> logBlockNumber l \<and> logBlockNumber l \<le> to \<longrightarrow>
           logBlockHash l \<noteq> 0 \<and> (\<exists>h \<in> set hs. headNumber h = logBlockNumber l \<and> headHash h = logBlockHash l)))"

section \<open>The position\<close>

definition anchored :: "stream_state \<Rightarrow> bool" where
  "anchored st \<longleftrightarrow> st_next st = 0 \<or> head_of st (st_next st - 1) \<noteq> None"

definition stream_ok :: "(block_head \<Rightarrow> bool) \<Rightarrow> stream_state \<Rightarrow> bool" where
  "stream_ok Seen st \<longleftrightarrow>
     (\<forall>(n, h) \<in> set (st_heads st). headNumber h = n \<and> Seen h) \<and>
     (st_tip st = 0 \<or> (\<exists>h. Seen h \<and> st_tip st \<le> headNumber h))"

lemma head_of_delete: "head_of (delete_heads P st) n = (if P n then None else head_of st n)"
proof -
  have "map_of (filter (\<lambda>(k, h). \<not> P k) hs) n = (if P n then None else map_of hs n)" for hs :: "(u64 \<times> block_head) list"
    by (induction hs) auto
  then show ?thesis by (simp add: head_of_def delete_heads_def)
qed

lemma head_of_put: "head_of (put_head k h st) n = (if n = k then Some h else head_of st n)"
proof -
  have "map_of (filter (\<lambda>(j, h). j \<noteq> k) hs) n = (if n = k then None else map_of hs n)" for hs :: "(u64 \<times> block_head) list"
    by (induction hs) auto
  then show ?thesis by (simp add: head_of_def put_head_def)
qed

lemma stream_fields [simp]:
  "st_next (delete_heads P st) = st_next st" "st_tip (delete_heads P st) = st_tip st"
  "st_lowerBound (delete_heads P st) = st_lowerBound st"
  "st_next (put_head k h st) = st_next st" "st_tip (put_head k h st) = st_tip st"
  "st_lowerBound (put_head k h st) = st_lowerBound st"
  "st_next (truncateAbove n st) = st_next st" "st_tip (truncateAbove n st) = n"
  "st_next (advance n st) = n + 1" "st_tip (advance n st) = st_tip st"
  by (simp_all add: delete_heads_def put_head_def truncateAbove_def advance_def)

lemma head_of_update [simp]:
  "head_of (st\<lparr>st_tip := t\<rparr>) n = head_of st n" "head_of (st\<lparr>st_next := t\<rparr>) n = head_of st n"
  "head_of (st\<lparr>st_lowerBound := t\<rparr>) n = head_of st n"
  by (simp_all add: head_of_def)

lemma head_of_truncate: "head_of (truncateAbove k st) n = (if n > k then None else head_of st n)"
  by (simp add: truncateAbove_def head_of_delete)

lemma head_of_advance: "head_of (advance k st) n = (if n + 1 < k + 1 then None else head_of st n)"
  by (simp add: advance_def head_of_delete)

lemma stream_ok_head: "stream_ok Seen st \<Longrightarrow> head_of st n = Some h \<Longrightarrow> headNumber h = n \<and> Seen h"
  by (auto simp: stream_ok_def head_of_def dest!: map_of_SomeD)

lemma stream_ok_delete: "stream_ok Seen st \<Longrightarrow> stream_ok Seen (delete_heads P st)"
  by (auto simp: stream_ok_def delete_heads_def)

lemma stream_ok_put: "stream_ok Seen st \<Longrightarrow> headNumber h = n \<Longrightarrow> Seen h \<Longrightarrow> stream_ok Seen (put_head n h st)"
  by (auto simp: stream_ok_def put_head_def)

lemma stream_ok_truncate:
  "stream_ok Seen st \<Longrightarrow> Seen h \<Longrightarrow> n \<le> headNumber h \<Longrightarrow> stream_ok Seen (truncateAbove n st)"
  by (auto simp: stream_ok_def truncateAbove_def delete_heads_def)

lemma stream_ok_advance: "stream_ok Seen st \<Longrightarrow> stream_ok Seen (advance n st)"
  by (auto simp: stream_ok_def advance_def delete_heads_def)

lemma anchored_delete:
  "anchored st \<Longrightarrow> (st_next st \<noteq> 0 \<Longrightarrow> \<not> P (st_next st - 1)) \<Longrightarrow> anchored (delete_heads P st)"
  by (auto simp: anchored_def head_of_delete)

lemma anchored_put: "anchored st \<Longrightarrow> anchored (put_head n h st)"
  by (auto simp: anchored_def head_of_put)

lemma anchored_truncate:
  assumes "anchored st" "st_next st \<noteq> 0 \<Longrightarrow> st_next st - 1 \<le> n"
  shows "anchored (truncateAbove n st)"
proof (cases "st_next st = 0")
  case False
  then have "\<not> n < st_next st - 1" using assms(2) by (simp add: not_less)
  then show ?thesis using assms(1) False by (simp add: anchored_def head_of_truncate)
qed (simp add: anchored_def)

lemma inc_le: "(a :: u64) < b \<Longrightarrow> a + 1 \<le> b"
  using unat_suc [of a b] by (simp add: word_le_nat_alt word_less_nat_alt)

lemma pred_le: "(a :: u64) \<le> b \<Longrightarrow> a \<noteq> 0 \<Longrightarrow> a - 1 \<le> b - 1 \<and> a - 1 \<le> b \<and> a - 1 < a"
proof -
  assume *: "a \<le> b" "a \<noteq> 0"
  have "unat (x - 1) = unat x - 1" if "x \<noteq> 0" for x :: u64
    using that by (simp add: unat_minus_one)
  from this [of a] this [of b] * show ?thesis
    by (cases "b = 0") (auto simp: word_le_nat_alt word_less_nat_alt unat_gt_0 unat_eq_zero)
qed

text \<open>
  An event of the loop's life: the heads it delivers are among \<open>Seen\<close>, and the errors that end
  the loop are not the model's own sign of divergence.
\<close>

definition event_heads :: "event \<Rightarrow> block_head list" where
  "event_heads ev = (case ev of Heads h queued \<Rightarrow> h # queued | _ \<Rightarrow> [])"

definition event_ok :: "(block_head \<Rightarrow> bool) \<Rightarrow> event \<Rightarrow> bool" where
  "event_ok Seen ev \<longleftrightarrow> (\<forall>h \<in> set (event_heads ev). Seen h) \<and>
     (case ev of CtxDone e \<Rightarrow> \<not> goes_on e | SubErr e \<Rightarrow> \<not> goes_on e | _ \<Rightarrow> True)"

section \<open>The contract of the warehouse\<close>

text \<open>
  \<open>Inv\<close> holds of the warehouse at all times, errors included; \<open>At d n\<close> says its next block is
  \<open>n\<close>. A write is only promised anything for batches that satisfy \<open>Good\<close>.
\<close>

locale sink_contract =
  fixes sink :: "'d sink" and Inv :: "'d \<Rightarrow> bool" and At :: "'d \<Rightarrow> u64 \<Rightarrow> bool"
    and Good :: "u64 \<Rightarrow> u64 \<Rightarrow> block list \<Rightarrow> log list \<Rightarrow> bool"
  assumes stored_law: "triple (\<lambda>d. Inv d \<and> At d m) (StoredBlockHashOp sink n) (\<lambda>_ d. Inv d \<and> At d m) (\<lambda>e d. Inv d \<and> outside e)"
    and write_law: "Good f t bs ls \<Longrightarrow>
      triple (\<lambda>d. Inv d \<and> At d f) (WriteRangeOp sink f t bs ls) (\<lambda>_ d. Inv d \<and> At d (t + 1)) (\<lambda>e d. Inv d \<and> outside e)"
    and rewind_law: "triple (\<lambda>d. Inv d \<and> At d m) (RewindOp sink n) (\<lambda>_ d. Inv d \<and> At d (n + 1)) (\<lambda>e d. Inv d \<and> outside e)"

text \<open>
  The loop over such a warehouse and a node whose answers and announcements are \<open>Seen\<close>; the
  errors of the client are none of the loop's own signals.
\<close>

definition follows ::
  "'d sink \<Rightarrow> (u64 \<Rightarrow> u64 \<Rightarrow> block list \<Rightarrow> log list \<Rightarrow> bool) \<Rightarrow> ('p, 'd) subscriber \<Rightarrow> (block_head \<Rightarrow> bool) \<Rightarrow> bool" where
  "follows sink Good S Seen \<longleftrightarrow>
     s_sink S = sink \<and> (\<forall>f t bs ls. good_batch S Seen f t bs ls \<longrightarrow> Good f t bs ls) \<and>
     node_heads (s_client S) Seen \<and> client_errors outside (s_client S) \<and>
     plain_errors (s_client S) (Topics (s_keccak S)) \<and> s_spanCap S \<noteq> - 1"

lemma triple_position: "(\<And>s. P s \<Longrightarrow> Q () (s\<lparr>stream := f (stream s)\<rparr>)) \<Longrightarrow> triple P (position f) Q E"
  unfolding position_def by (rule triple_modify)

lemma triple_let: "triple P (f x) Q E \<Longrightarrow> triple P (Let x f) Q E"
  by (simp add: Let_def)

lemma triple_head:
  assumes F: "follows sink Good S Seen"
    and Q: "\<And>s h p. P s \<Longrightarrow> headNumber h = n \<Longrightarrow> Seen h \<Longrightarrow> Q h (s\<lparr>provider := p\<rparr>)"
    and E: "\<And>s e p. P s \<Longrightarrow> outside e \<Longrightarrow> E e (s\<lparr>provider := p\<rparr>)"
  shows "triple P (canonicalHead S n) Q E"
proof (rule tripleI)
  fix s h t assume s: "P s" "canonicalHead S n s = (Inr h, t)"
  then obtain q where q: "HeadByNumberOp (s_client S) n (provider s) = (Inr h, q)" "t = s\<lparr>provider := q\<rparr>"
    by (auto simp: canonicalHead_def ask_def step_simps)
  then have "headNumber h = n" "Seen h" using F unfolding follows_def node_heads_def by blast+
  then show "Q h t" using Q [OF s(1)] q(2) by simp
next
  fix s e t assume s: "P s" "canonicalHead S n s = (Inl e, t)"
  then obtain q where q: "HeadByNumberOp (s_client S) n (provider s) = (Inl e, q)" "t = s\<lparr>provider := q\<rparr>"
    by (auto simp: canonicalHead_def ask_def step_simps)
  then have "outside e" using F client_errorsD [of outside "s_client S"] unfolding follows_def by blast
  then show "E e t" using E [OF s(1)] q(2) by simp
qed

lemma triple_fetch:
  assumes F: "follows sink Good S Seen" and range: "from \<le> to" "plausible to"
    and Q: "\<And>s raw p. P s \<Longrightarrow> fetched (s_keccak S) (s_client S) from to raw \<Longrightarrow> Q (sort_key log_key raw) (s\<lparr>provider := p\<rparr>)"
    and E: "\<And>s e p. P s \<Longrightarrow> outside e \<Longrightarrow> E e (s\<lparr>provider := p\<rparr>)"
  shows "triple P (ask (FetchIngestionLogs (s_keccak S) (s_client S) (s_spanCap S) from to)) Q E"
proof (rule tripleI)
  fix s ls t assume s: "P s" "ask (FetchIngestionLogs (s_keccak S) (s_client S) (s_spanCap S) from to) s = (Inr ls, t)"
  then obtain q where q: "FetchIngestionLogs (s_keccak S) (s_client S) (s_spanCap S) from to (provider s) = (Inr ls, q)" "t = s\<lparr>provider := q\<rparr>"
    by (auto simp: ask_def step_simps)
  have bound: "unat to + 1000000 < 2 ^ 64" using range(2) by (simp add: plausible_nat)
  have plain: "plain_errors (s_client S) (Topics (s_keccak S))" and cap: "s_spanCap S \<noteq> - 1"
    using F by (simp_all add: follows_def)
  from fetch_loop_fetched [OF q(1) [unfolded FetchIngestionLogs_def] range(1) cap bound plain]
  show "Q ls t" using Q [OF s(1)] q(2) by auto
next
  fix s e t assume s: "P s" "ask (FetchIngestionLogs (s_keccak S) (s_client S) (s_spanCap S) from to) s = (Inl e, t)"
  then obtain q where q: "FetchIngestionLogs (s_keccak S) (s_client S) (s_spanCap S) from to (provider s) = (Inl e, q)" "t = s\<lparr>provider := q\<rparr>"
    by (auto simp: ask_def step_simps)
  have c: "client_errors outside (s_client S)" using F by (simp add: follows_def)
  then have ends: "client_ends (s_client S) (Topics (s_keccak S))" "receipts_end (s_client S)"
    unfolding client_errors_def client_ends_def receipts_end_def outside_def by blast+
  have bound: "unat to + 1000000 < 2 ^ 64" using range(2) by (simp add: plausible_nat)
  have plain: "plain_errors (s_client S) (Topics (s_keccak S))" and cap: "s_spanCap S \<noteq> - 1"
    using F by (simp_all add: follows_def)
  have "\<not> goes_on e"
    using fetch_loop_ends [OF q(1) [unfolded FetchIngestionLogs_def] cap bound _ plain ends] by (simp add: fetch_fuel_def)
  with fetch_loop_outside [OF c q(1) [unfolded FetchIngestionLogs_def]] show "E e t" using E [OF s(1)] q(2) by (simp add: sound_err_def)
qed

lemma triple_vacuous: "(\<And>s. \<not> P s) \<Longrightarrow> triple P m Q E"
  by (simp add: triple_def)

lemma triple_case_option:
  "(x = None \<Longrightarrow> triple P m Q E) \<Longrightarrow> (\<And>y. x = Some y \<Longrightarrow> triple P (f y) Q E) \<Longrightarrow>
    triple P (case x of None \<Rightarrow> m | Some y \<Rightarrow> f y) Q E"
  by (cases x) auto

lemma heights_Cons: "n \<le> to \<Longrightarrow> plausible to \<Longrightarrow> heights n to = n # heights (n + 1) to"
proof -
  assume *: "n \<le> to" "plausible to"
  have "unat (n + 1) = Suc (unat n)"
    using * by (subst unat_add_no_wrap) (auto simp: plausible_nat word_le_nat_alt)
  moreover have "[unat n..<Suc (unat to)] = unat n # [Suc (unat n)..<Suc (unat to)]"
    using * by (intro upt_rec [THEN trans]) (auto simp: word_le_nat_alt)
  ultimately show ?thesis by (simp add: heights_def del: upt_Suc)
qed

lemma heights_Nil: "to < n \<Longrightarrow> heights n to = []"
  by (simp add: heights_def word_less_nat_alt)

definition linked :: "block_head option \<Rightarrow> block_head list \<Rightarrow> bool" where
  "linked prev hs \<longleftrightarrow> successively child (case prev of None \<Rightarrow> hs | Some p \<Rightarrow> p # hs)"

definition metadata_of :: "(block_head \<Rightarrow> bool) \<Rightarrow> u64 \<Rightarrow> u64 \<Rightarrow> block_head option \<Rightarrow> block list \<Rightarrow> block list \<Rightarrow> bool" where
  "metadata_of Seen n to prev acc blocks \<longleftrightarrow>
     (\<exists>hs. blocks = acc @ map block_of hs \<and> map headNumber hs = heights n to \<and> (\<forall>h \<in> set hs. Seen h) \<and> linked prev hs)"

lemma metadata_of_step:
  assumes "metadata_of Seen (n + 1) to (Some h) (acc @ [block_of h]) blocks" "headNumber h = n" "Seen h"
    "n \<le> to" "plausible to" "\<not> (case prev of Some p \<Rightarrow> headParentHash h \<noteq> headHash p | None \<Rightarrow> False)"
  shows "metadata_of Seen n to prev acc blocks"
proof -
  from assms(1) obtain hs where hs: "blocks = (acc @ [block_of h]) @ map block_of hs"
    "map headNumber hs = heights (n + 1) to" "\<forall>h \<in> set hs. Seen h" "linked (Some h) hs"
    by (auto simp: metadata_of_def)
  then have "linked prev (h # hs)"
    using assms(6) by (auto simp: linked_def child_def split: option.splits)
  then show ?thesis
    using hs assms(2-5) unfolding metadata_of_def by (intro exI [of _ "h # hs"]) (simp add: heights_Cons)
qed

context sink_contract
begin

definition at_position :: "(block_head \<Rightarrow> bool) \<Rightarrow> ('p, 'd) run \<Rightarrow> bool" where
  "at_position Seen s \<longleftrightarrow> Inv (warehouse s) \<and> At (warehouse s) (st_next (stream s)) \<and>
     stream_ok Seen (stream s) \<and> anchored (stream s)"

definition stopped :: "err \<Rightarrow> ('p, 'd) run \<Rightarrow> bool" where
  "stopped e s \<longleftrightarrow> Inv (warehouse s) \<and> outside e"

lemma triple_stored:
  assumes Q: "\<And>s x d. P s \<Longrightarrow> Inv d \<Longrightarrow> At d (N s) \<Longrightarrow> Q x (s\<lparr>warehouse := d\<rparr>)"
    and E: "\<And>s e d. P s \<Longrightarrow> Inv d \<Longrightarrow> outside e \<Longrightarrow> E e (s\<lparr>warehouse := d\<rparr>)"
    and P: "\<And>s. P s \<Longrightarrow> Inv (warehouse s) \<and> At (warehouse s) (N s)"
  shows "triple P (store (StoredBlockHashOp sink n)) Q E"
proof (rule tripleI)
  fix s x t assume s: "P s" "store (StoredBlockHashOp sink n) s = (Inr x, t)"
  then obtain d where d: "StoredBlockHashOp sink n (warehouse s) = (Inr x, d)" "t = s\<lparr>warehouse := d\<rparr>"
    by (auto simp: store_def step_simps)
  with triple_value [OF stored_law P [OF s(1)] d(1)] Q [OF s(1)] show "Q x t" by simp
next
  fix s e t assume s: "P s" "store (StoredBlockHashOp sink n) s = (Inl e, t)"
  then obtain d where d: "StoredBlockHashOp sink n (warehouse s) = (Inl e, d)" "t = s\<lparr>warehouse := d\<rparr>"
    by (auto simp: store_def step_simps)
  with triple_error [OF stored_law P [OF s(1)] d(1)] E [OF s(1)] show "E e t" by simp
qed

subsection \<open>Reconciliation and recovery\<close>

text \<open>\<open>on_track Seen N s\<close>: at a position, the next block is \<open>N\<close>.\<close>

definition on_track :: "(block_head \<Rightarrow> bool) \<Rightarrow> u64 \<Rightarrow> ('p, 'd) run \<Rightarrow> bool" where
  "on_track Seen N s \<longleftrightarrow> at_position Seen s \<and> st_next (stream s) = N"

lemma on_track_provider [simp]: "on_track Seen N (s\<lparr>provider := p\<rparr>) = on_track Seen N s"
  by (simp add: on_track_def at_position_def)

lemma on_track_warehouse: "on_track Seen N s \<Longrightarrow> Inv d \<Longrightarrow> At d N \<Longrightarrow> on_track Seen N (s\<lparr>warehouse := d\<rparr>)"
  by (simp add: on_track_def at_position_def)

lemma on_track_put: "on_track Seen N s \<Longrightarrow> headNumber h = n \<Longrightarrow> Seen h \<Longrightarrow> on_track Seen N (s\<lparr>stream := put_head n h (stream s)\<rparr>)"
  by (auto simp: on_track_def at_position_def stream_ok_put anchored_put)

lemma on_track_inv: "on_track Seen N s \<Longrightarrow> Inv (warehouse s) \<and> At (warehouse s) N"
  by (auto simp: on_track_def at_position_def)

lemma reconcile_at_track:
  assumes F: "follows sink Good (S :: ('p, 'd) subscriber) Seen"
  shows "triple (on_track Seen N) (reconcile_at S bridge k expected replaced) (\<lambda>_. on_track Seen N)
     (\<lambda>e s. on_track Seen N s \<and> (outside e \<or> (\<exists>h. e = DeepReorgError h \<and> h < N)))"
  unfolding reconcile_at_def
proof (rule triple_andThen [OF triple_gets [where Q = "\<lambda>st s. on_track Seen N s \<and> stream s = st"]], simp)
  fix st :: stream_state
  let ?E = "\<lambda>e s. on_track Seen N s \<and> (outside e \<or> (\<exists>h. e = DeepReorgError h \<and> h < N))"
  have go: "triple (on_track Seen N) (if map_option headHash x = Some expected then ret (Inl (False, replaced))
     else if x = None \<and> (\<not> bridge \<or> k < N) then ret (Inl (False, replaced))
     else
     andThen (onErr (\<lambda>e. Wrapf (''reconcile reorg at height '' @ show_u64 k @ '': '') e '''') (canonicalHead S k)) (\<lambda>canonical.
     let swap = (x \<noteq> None \<and> map_option headHash x \<noteq> Some (headHash canonical)) in
     if swap \<and> k < N then throw (DeepReorgError k)
     else
     andThen (position (put_head k canonical)) (\<lambda>_.
     if headHash canonical \<noteq> expected then ret (Inl (True, replaced \<or> swap))
     else ret (Inr (headParentHash canonical, replaced \<or> swap))))) (\<lambda>_. on_track Seen N) ?E" for x
    by (auto simp: Let_def on_track_put
      intro!: triple_if triple_ret triple_throw triple_andThen [where R = "\<lambda>h s. on_track Seen N s \<and> headNumber h = k \<and> Seen h"]
        triple_onErr triple_head [OF F] triple_andThen [OF triple_position [where Q = "\<lambda>_. on_track Seen N"]])
  show "triple (\<lambda>s :: ('p, 'd) run. on_track Seen N s \<and> stream s = st) (let retained = head_of st k in
     if map_option headHash retained = Some expected then ret (Inl (False, replaced))
     else if retained = None \<and> (\<not> bridge \<or> k < st_next st) then ret (Inl (False, replaced))
     else
     andThen (onErr (\<lambda>e. Wrapf (''reconcile reorg at height '' @ show_u64 k @ '': '') e '''') (canonicalHead S k)) (\<lambda>canonical.
     let swap = (retained \<noteq> None \<and> map_option headHash retained \<noteq> Some (headHash canonical)) in
     if swap \<and> k < st_next st then throw (DeepReorgError k)
     else
     andThen (position (put_head k canonical)) (\<lambda>_.
     if headHash canonical \<noteq> expected then ret (Inl (True, replaced \<or> swap))
     else ret (Inr (headParentHash canonical, replaced \<or> swap))))) (\<lambda>_. on_track Seen N) ?E"
  proof (cases "st_next st = N")
    case True
    show ?thesis
      unfolding True Let_def [where s = "head_of st k"] by (rule triple_conseq [OF go]) auto
  next
    case False
    then show ?thesis by (intro triple_vacuous) (auto simp: on_track_def)
  qed
qed

lemma reconcile_loop_track:
  assumes F: "follows sink Good S Seen"
  shows "triple (on_track Seen N) (reconcile_loop S bridge k expected replaced) (\<lambda>_. on_track Seen N)
     (\<lambda>e s. on_track Seen N s \<and> (outside e \<or> (\<exists>h. e = DeepReorgError h \<and> h < N)))"
proof (induction k arbitrary: expected replaced)
  case 0
  show ?case
    by (simp, rule triple_andThen [OF reconcile_at_track [OF F]]) (auto split: sum.split intro!: triple_ret)
next
  case (Suc k)
  show ?case
    by (simp only: reconcile_loop.simps, rule triple_andThen [OF reconcile_at_track [OF F]])
      (auto split: sum.split intro!: triple_ret Suc)
qed

lemma reconcile_track:
  assumes F: "follows sink Good S Seen"
  shows "triple (on_track Seen N) (reconcile S h) (\<lambda>r s. on_track Seen N s \<and> (snd r \<longrightarrow> headNumber h \<noteq> 0))
     (\<lambda>e s. on_track Seen N s \<and> (outside e \<or> (\<exists>h. e = DeepReorgError h \<and> h < N)))"
proof (cases "headNumber h = 0")
  case True
  then show ?thesis by (simp add: reconcile_def triple_ret)
next
  case False
  then have n: "headNumber h \<noteq> 0" .
  have far: "triple (on_track Seen N) (onErr (\<lambda>e. Wrapf w e '''') (canonicalHead S (headNumber h)))
      (\<lambda>_. on_track Seen N) (\<lambda>e s. on_track Seen N s \<and> (outside e \<or> (\<exists>h. e = DeepReorgError h \<and> h < N)))" for w
    by (rule triple_onErr, rule triple_head [OF F]) auto
  have near: "triple (on_track Seen N) (reconcile_loop S b k x r) (\<lambda>r s. on_track Seen N s \<and> (snd r \<longrightarrow> headNumber h \<noteq> 0))
      (\<lambda>e s. on_track Seen N s \<and> (outside e \<or> (\<exists>h. e = DeepReorgError h \<and> h < N)))" for b k x r
    by (rule triple_conseq [OF reconcile_loop_track [OF F]]) (use n in auto)
  show ?thesis
    unfolding reconcile_def Let_def if_not_P [OF n]
    by (rule triple_andThen [OF triple_gets [where Q = "\<lambda>_. on_track Seen N"]], assumption)
      (rule triple_if [OF triple_andThen [OF far] near], simp add: triple_ret)
qed

lemma stopped_simps [simp]: "stopped (Wrapf a e b) = stopped e"
  by (simp add: stopped_def fun_eq_iff)

text \<open>\<open>ready N s\<close>: as \<open>on_track\<close>, before the position is anchored.\<close>

definition ready :: "(block_head \<Rightarrow> bool) \<Rightarrow> u64 \<Rightarrow> ('p, 'd) run \<Rightarrow> bool" where
  "ready Seen N s \<longleftrightarrow> Inv (warehouse s) \<and> At (warehouse s) N \<and> stream_ok Seen (stream s) \<and> st_next (stream s) = N"

lemma on_track_ready: "on_track Seen N s \<longleftrightarrow> ready Seen N s \<and> anchored (stream s)"
  by (auto simp: on_track_def at_position_def ready_def)

definition steady :: "u64 \<Rightarrow> (('p, 'd) run \<Rightarrow> bool) \<Rightarrow> bool" where
  "steady N P \<longleftrightarrow> (\<forall>s. P s \<longrightarrow> Inv (warehouse s) \<and> At (warehouse s) N \<and> (\<forall>p. P (s\<lparr>provider := p\<rparr>)) \<and>
     (\<forall>d. Inv d \<longrightarrow> At d N \<longrightarrow> P (s\<lparr>warehouse := d\<rparr>)))"

lemma steady_track: "steady N (on_track Seen N)" and steady_ready: "steady N (ready Seen N)"
  by (auto simp: steady_def on_track_ready ready_def)

lemma steady_stopped: "steady N P \<Longrightarrow> P s \<Longrightarrow> outside e \<Longrightarrow> stopped e s"
  by (simp add: stopped_def steady_def)

lemma stored_steady: "steady N P \<Longrightarrow> triple P (store (StoredBlockHashOp sink n)) (\<lambda>_. P) stopped"
  by (rule triple_stored [where N = "\<lambda>_. N"]) (auto simp: steady_def stopped_def)

lemma head_steady:
  "follows sink Good S Seen \<Longrightarrow> steady N P \<Longrightarrow>
     triple P (onErr (\<lambda>e. Wrapf w e '''') (canonicalHead S n)) (\<lambda>h s. P s \<and> headNumber h = n \<and> Seen h) stopped"
  by (rule triple_onErr, rule triple_head) (auto simp: steady_def stopped_def)

lemmas on_track_stopped = steady_stopped [OF steady_track]
lemmas stored_track = stored_steady [OF steady_track]
lemmas head_track = head_steady [OF _ steady_track]

lemma fork_loop_track:
  assumes F: "follows sink Good S Seen"
  shows "k \<le> unat height \<Longrightarrow>
    triple (ready Seen N) (fork_loop S height k) (\<lambda>a s. ready Seen N s \<and> Seen a \<and> headNumber a < height) stopped"
proof (induction k)
  case 0
  show ?case by (auto simp: stopped_def ready_def intro!: triple_throw)
next
  case (Suc k)
  have sink: "s_sink S = sink" using F by (simp add: follows_def)
  have small: "unat (of_nat k :: u64) = k" using Suc.prems unat_less_u64 [of height] by (simp add: unat_of_nat)
  then have below: "(of_nat k :: u64) < height" using Suc.prems by (simp add: word_less_nat_alt)
  have body: "triple (ready Seen N)
      (case stored of None \<Rightarrow> throw (ErrNew m)
       | Some hash \<Rightarrow> andThen (onErr (\<lambda>e. Wrapf w e '''') (canonicalHead S (of_nat k)))
           (\<lambda>canonical. if headHash canonical = hash then ret canonical else fork_loop S height k))
      (\<lambda>a s. ready Seen N s \<and> Seen a \<and> headNumber a < height) stopped" for stored m w
  proof (cases stored)
    case None
    then show ?thesis by (auto intro!: triple_throw steady_stopped [OF steady_ready])
  next
    case (Some hash)
    have rest: "triple (ready Seen N) (fork_loop S height k) (\<lambda>a s. ready Seen N s \<and> Seen a \<and> headNumber a < height) stopped"
      using Suc by simp
    from head_steady [OF F steady_ready, where w = w and n = "of_nat k"]
    show ?thesis unfolding Some option.case
      by (rule triple_andThen) (auto intro!: triple_if triple_ret triple_conseq [OF rest] simp: below)
  qed
  show ?case
    unfolding fork_loop.simps Let_def sink
    by (rule triple_if [OF triple_throw triple_andThen [OF stored_steady [OF steady_ready] body]]) (simp add: steady_stopped [OF steady_ready])
qed

lemma ready_inv: "ready Seen N s \<Longrightarrow> Inv (warehouse s) \<and> At (warehouse s) N"
  by (simp add: ready_def)

lemma recoverDeepReorg_ready:
  assumes F: "follows sink Good S Seen"
  shows "triple (ready Seen N) (recoverDeepReorg S height) (\<lambda>_ s. at_position Seen s \<and> st_next (stream s) \<le> height) stopped"
proof -
  have sink: "s_sink S = sink" using F by (simp add: follows_def)
  have "triple (\<lambda>s. ready Seen N s \<and> Seen a \<and> headNumber a < height) (store (RewindOp sink (headNumber a)))
      (\<lambda>_ s. Inv (warehouse s) \<and> At (warehouse s) (headNumber a + 1) \<and> Seen a \<and> headNumber a < height) stopped" for a
  proof (rule tripleI)
    fix s x t assume s: "ready Seen N s \<and> Seen a \<and> headNumber a < height" "store (RewindOp sink (headNumber a)) s = (Inr x, t)"
    then obtain d where d: "RewindOp sink (headNumber a) (warehouse s) = (Inr x, d)" "t = s\<lparr>warehouse := d\<rparr>"
      by (auto simp: store_def step_simps)
    from triple_value [OF rewind_law ready_inv d(1)] s d(2)
    show "Inv (warehouse t) \<and> At (warehouse t) (headNumber a + 1) \<and> Seen a \<and> headNumber a < height" by auto
  next
    fix s e t assume s: "ready Seen N s \<and> Seen a \<and> headNumber a < height" "store (RewindOp sink (headNumber a)) s = (Inl e, t)"
    then obtain d where d: "RewindOp sink (headNumber a) (warehouse s) = (Inl e, d)" "t = s\<lparr>warehouse := d\<rparr>"
      by (auto simp: store_def step_simps)
    from triple_error [OF rewind_law ready_inv d(1)] s d(2)
    show "stopped e t" by (auto simp: stopped_def)
  qed
  then have rewind: "triple (\<lambda>s. ready Seen N s \<and> Seen a \<and> headNumber a < height) (onErr (\<lambda>e. Wrapf w e '''') (store (RewindOp sink (headNumber a))))
      (\<lambda>_ s. Inv (warehouse s) \<and> At (warehouse s) (headNumber a + 1) \<and> Seen a \<and> headNumber a < height) stopped" for a w
    by (intro triple_onErr) simp
  have fork: "triple (ready Seen N) (onErr (\<lambda>e. Wrapf w e '''') (findForkPoint S height))
      (\<lambda>a s. ready Seen N s \<and> Seen a \<and> headNumber a < height) stopped" for w
    unfolding findForkPoint_def
    by (rule triple_onErr) (simp add: fork_loop_track [OF F])
  show ?thesis
    unfolding recoverDeepReorg_def sink
    by (rule triple_andThen [OF fork], rule triple_andThen [OF rewind], rule triple_position)
      (auto simp: at_position_def restart_at_def stream_ok_def anchored_def head_of_def inc_le)
qed

lemma recoverDeepReorg_track:
  "follows sink Good S Seen \<Longrightarrow>
     triple (on_track Seen N) (recoverDeepReorg S height) (\<lambda>_ s. at_position Seen s \<and> st_next (stream s) \<le> height) stopped"
  by (rule triple_conseq [OF recoverDeepReorg_ready]) (auto simp: on_track_ready)

subsection \<open>Recording heads and planning\<close>

lemma retain_ok:
  assumes "stream_ok Seen st" "anchored st" "Seen h" "st_next st \<le> headNumber h" "snd r \<longrightarrow> headNumber h \<noteq> 0"
  shows "stream_ok Seen (retain h prev r st) \<and> anchored (retain h prev r st) \<and> st_next (retain h prev r st) = st_next st"
proof -
  obtain stale replaced where r: "r = (stale, replaced)" by force
  let ?n = "headNumber h"
  define st1 where "st1 = (if replaced then truncateAbove (?n - 1) st else st)"
  have st1: "stream_ok Seen st1 \<and> anchored st1 \<and> st_next st1 = st_next st"
  proof (cases replaced)
    case True
    then have n: "?n \<noteq> 0" using assms(5) r by simp
    have "stream_ok Seen (truncateAbove (?n - 1) st)"
      using stream_ok_truncate [of Seen st h, OF assms(1,3)] pred_le [OF order_refl n] by simp
    moreover have "anchored (truncateAbove (?n - 1) st)"
      using pred_le [OF assms(4)] by (intro anchored_truncate [OF assms(2)]) simp
    ultimately show ?thesis using True by (simp add: st1_def)
  qed (simp add: st1_def assms)
  define st2 where "st2 = (if prev \<noteq> None \<and> map_option headHash prev \<noteq> Some (headHash h) then truncateAbove ?n st1 else st1)"
  have st2: "stream_ok Seen st2 \<and> anchored st2 \<and> st_next st2 = st_next st"
  proof (cases "prev \<noteq> None \<and> map_option headHash prev \<noteq> Some (headHash h)")
    case True
    have "anchored (truncateAbove ?n st1)"
      using st1 pred_le [OF assms(4)] by (intro anchored_truncate) auto
    moreover have "stream_ok Seen (truncateAbove ?n st1)" using st1 stream_ok_truncate [of Seen st1 h] assms(3) by simp
    ultimately show ?thesis using st1 unfolding st2_def if_P [OF True] by simp
  next
    case False
    then show ?thesis using st1 unfolding st2_def if_not_P [OF False] by simp
  qed
  have put: "stream_ok Seen (put_head ?n h st2) \<and> anchored (put_head ?n h st2)"
    using st2 stream_ok_put [of Seen st2 h] assms(3) anchored_put by simp
  then have "stream_ok Seen ((put_head ?n h st2)\<lparr>st_tip := ?n\<rparr>) \<and> anchored ((put_head ?n h st2)\<lparr>st_tip := ?n\<rparr>)"
    using assms(3) by (auto simp: stream_ok_def anchored_def)
  with put st1 st2 show ?thesis
    unfolding retain_def r Let_def prod.case st1_def [symmetric] st2_def [symmetric] by simp
qed

lemma at_position_track: "at_position Seen s \<longleftrightarrow> on_track Seen (st_next (stream s)) s"
  by (simp add: on_track_def)

lemma triple_attempt_of:
  assumes "triple P m (\<lambda>x. Q (Inr x)) (\<lambda>e. Q (Inl e))"
  shows "triple P (attempt_of m) Q E"
proof (rule tripleI)
  fix s r t assume s: "P s" "attempt_of m s = (Inr r, t)"
  then have "m s = (r, t)" by (auto simp: attempt_of_def split: prod.splits)
  then show "Q r t" using triple_value [OF assms s(1)] triple_error [OF assms s(1)] by (cases r) auto
qed (auto simp: attempt_of_def split: prod.splits)

lemma record_loop_track:
  assumes F: "follows sink Good (S :: ('p, 'd) subscriber) Seen" and h: "Seen h"
  shows "triple (\<lambda>s. at_position Seen s \<and> unat (st_next (stream s)) < fuel) (record_loop S fuel h) (\<lambda>_. at_position Seen) stopped"
proof (induction fuel)
  case 0
  show ?case by (rule triple_vacuous) simp
next
  case (Suc fuel)
  have sink: "s_sink S = sink" using F by (simp add: follows_def)
  have recover: "triple (on_track Seen N) (andThen (recoverDeepReorg S n) (\<lambda>_. record_loop S fuel h)) (\<lambda>_. at_position Seen) stopped"
    if "n < N" "unat N < Suc fuel" for n N
    by (rule triple_andThen [OF recoverDeepReorg_track [OF F]], rule triple_conseq [OF Suc])
      (use that in \<open>auto simp: word_le_nat_alt word_less_nat_alt\<close>)
  have written: "triple (on_track Seen N) (handleWrittenHeightHead S (record_loop S fuel) h) (\<lambda>_. at_position Seen) stopped"
    if N: "headNumber h < N" "unat N < Suc fuel" for N
  proof -
    have ret: "triple (on_track Seen N) (ret ()) (\<lambda>_. at_position Seen) stopped"
      by (rule triple_ret) (simp add: on_track_def)
    have r1: "triple (\<lambda>s. on_track Seen N s \<and> X) (andThen (recoverDeepReorg S n) (\<lambda>_. record_loop S fuel h)) (\<lambda>_. at_position Seen) stopped" if "n < N" for n X
      by (rule triple_conseq [OF recover [OF that N(2)]]) auto
    have r2: "triple (\<lambda>s. on_track Seen N s \<and> X) (ret ()) (\<lambda>_. at_position Seen) stopped" for X
      by (rule triple_conseq [OF ret]) auto
    have r12: "triple (\<lambda>s. on_track Seen N s \<and> headNumber c = headNumber h \<and> Seen c)
        (if x = Some (headHash c) then ret () else andThen (recoverDeepReorg S (headNumber h)) (\<lambda>_. record_loop S fuel h))
        (\<lambda>_. at_position Seen) stopped" for x c
      by (rule triple_if [OF r2 r1 [OF N(1)]])
    show ?thesis
      unfolding handleWrittenHeightHead_def Let_def sink
      by (rule triple_andThen [OF stored_track], rule triple_if [OF ret], rule triple_andThen [OF head_track [OF F]], rule r12)
  qed
  define judged where "judged N r s \<longleftrightarrow> on_track Seen N s \<and>
    (case r of Inl e \<Rightarrow> outside e \<or> (\<exists>h. e = DeepReorgError h \<and> h < N) | Inr x \<Rightarrow> snd x \<longrightarrow> headNumber h \<noteq> 0)" for N and r :: "err + (bool \<times> bool)" and s :: "('p, 'd) run"
  have judge: "triple (on_track Seen N) (attempt_of (reconcile S h)) (judged N) stopped" for N
    unfolding judged_def
    by (rule triple_attempt_of) (simp add: reconcile_track [OF F])
  have act: "triple (judged N r) (case r of
        Inl e \<Rightarrow> (case errors_As as_deep e of
            Some height \<Rightarrow> andThen (recoverDeepReorg S height) (\<lambda>_. record_loop S fuel h) | None \<Rightarrow> throw e)
      | Inr result \<Rightarrow> position (retain h prev result)) (\<lambda>_. at_position Seen) stopped"
    if n: "N \<le> headNumber h" "unat N < Suc fuel" for N r prev
  proof (cases r)
    case (Inl e)
    show ?thesis
    proof (cases "errors_As as_deep e")
      case None
      then have "outside e \<or> (\<exists>h. e = DeepReorgError h \<and> h < N) \<Longrightarrow> outside e" by auto
      then show ?thesis using Inl None by (auto simp: judged_def intro!: triple_throw on_track_stopped)
    next
      case (Some height)
      show ?thesis
      proof (cases "height < N")
        case True
        show ?thesis
          unfolding Inl sum.case Some option.case
          by (rule triple_conseq [OF recover [OF True n(2)]]) (auto simp: judged_def)
      next
        case False
        then show ?thesis using Inl Some by (intro triple_vacuous) (auto simp: judged_def outside_def)
      qed
    qed
  next
    case (Inr x)
    show ?thesis
      unfolding Inr sum.case
    proof (rule triple_position)
      fix s assume "judged N (Inr x) s"
      then show "at_position Seen (s\<lparr>stream := retain h prev x (stream s)\<rparr>)"
        using retain_ok [of Seen "stream s" h x prev] h n(1)
        by (auto simp: judged_def on_track_def at_position_def)
    qed
  qed
  have same: "triple (\<lambda>s. at_position Seen s \<and> unat (st_next (stream s)) < Suc fuel \<and> st = stream s) m (\<lambda>_. at_position Seen) stopped"
    if "unat (st_next st) < Suc fuel \<Longrightarrow> triple (on_track Seen (st_next st)) m (\<lambda>_. at_position Seen) stopped" for m st
  proof (cases "unat (st_next st) < Suc fuel")
    case True
    show ?thesis by (rule triple_conseq [OF that [OF True]]) (auto simp: on_track_def)
  qed (auto intro!: triple_vacuous)
  have ret: "triple (on_track Seen N) (ret ()) (\<lambda>_. at_position Seen) stopped" for N
    by (rule triple_ret) (simp add: on_track_def)
  show ?case
    unfolding record_loop.simps Let_def
    by (rule triple_andThen [OF triple_gets [where Q = "\<lambda>st s. at_position Seen s \<and> unat (st_next (stream s)) < Suc fuel \<and> st = stream s"]])
      (auto intro!: same triple_if ret written triple_andThen [OF judge act] simp: not_less)
qed

lemma recordHead_track:
  assumes F: "follows sink Good S Seen" and h: "Seen h"
  shows "triple (at_position Seen) (recordHead S h) (\<lambda>_. at_position Seen) stopped"
  unfolding recordHead_def
  by (rule triple_andThen [OF triple_gets [where Q = "\<lambda>st s. at_position Seen s \<and> st = stream s"]], simp,
      rule triple_conseq [OF record_loop_track [OF F h]]) auto

lemma checkCatchupBound_triple:
  assumes "\<And>s. P s \<Longrightarrow> \<not> (MaxCatchupBlocks cfg > 0 \<and> tip \<ge> n \<and> tip - n + 1 > MaxCatchupBlocks cfg) \<Longrightarrow> Q () s"
    and "\<And>s e. P s \<Longrightarrow> outside e \<Longrightarrow> E e s"
  shows "triple P (checkCatchupBound cfg n tip) Q E"
  unfolding checkCatchupBound_def
  by (rule triple_if) (use assms in \<open>auto intro!: triple_throw triple_ret\<close>)

lemma tip_confirms:
  assumes "stream_ok Seen st" "\<not> st_tip st < c"
  shows "confirmed c Seen (st_tip st - c)"
proof -
  have sum: "unat (st_tip st - c) + unat c = unat (st_tip st)"
    using assms(2) by (simp add: not_less unat_sub word_le_nat_alt)
  show ?thesis
  proof (cases "st_tip st = 0")
    case True
    then show ?thesis using assms(2) by (simp add: confirmed_def not_less)
  next
    case False
    then obtain h where "Seen h" "st_tip st \<le> headNumber h" using assms(1) by (auto simp: stream_ok_def)
    then show ?thesis using sum by (auto simp: confirmed_def word_le_nat_alt)
  qed
qed

definition planned :: "(block_head \<Rightarrow> bool) \<Rightarrow> ('p, 'd) subscriber \<Rightarrow> (u64 \<times> u64) option \<Rightarrow> ('p, 'd) run \<Rightarrow> bool" where
  "planned Seen S plan s \<longleftrightarrow> at_position Seen s \<and>
     (case plan of None \<Rightarrow> True
      | Some (f, t) \<Rightarrow> f = st_next (stream s) \<and> f \<le> t \<and> confirmed (ConfirmationBlocks (s_cfg S)) Seen t)"

lemma planRange_track:
  assumes F: "follows sink Good S Seen" and batch: "\<forall>h \<in> set batch. Seen h"
  shows "triple (at_position Seen) (planRange S batch) (planned Seen S) stopped"
proof -
  let ?c = "ConfirmationBlocks (s_cfg S)"
  have heads: "triple (at_position Seen) (for_each batch (recordHead S)) (\<lambda>_. at_position Seen) stopped"
    by (rule triple_for_each [where I = "\<lambda>_. at_position Seen"], rule recordHead_track [OF F]) (use batch in auto)
  have bound: "triple (\<lambda>s. at_position Seen s \<and> X s) (checkCatchupBound (s_cfg S) n tip) (\<lambda>_ s. at_position Seen s \<and> X s) stopped" for n tip X
    by (rule checkCatchupBound_triple) (auto simp: at_position_track intro: on_track_stopped)
  have bound0: "triple (at_position Seen) (checkCatchupBound (s_cfg S) n tip) (\<lambda>_. at_position Seen) stopped" for n tip
    by (rule checkCatchupBound_triple) (auto simp: at_position_track intro: on_track_stopped)
  have none: "triple (\<lambda>s. at_position Seen s \<and> stream s = st) (ret None) (planned Seen S) stopped" for st
    by (rule triple_ret) (simp add: planned_def)
  have some: "triple (\<lambda>s. at_position Seen s \<and> stream s = st)
      (let to = st_tip st - ?c in
       if to < st_next st then ret None
       else if head_of st to \<noteq> None then ret (Some (st_next st, to))
       else andThen (onErr (\<lambda>e. Wrapf (w to) e '''') (canonicalHead S to)) (\<lambda>boundary.
            andThen (position (put_head to boundary)) (\<lambda>_. ret (Some (st_next st, to)))))
      (planned Seen S) stopped" if le: "\<not> st_tip st < ?c" for st w
  proof -
    let ?to = "st_tip st - ?c"
    have conf: "at_position Seen s \<Longrightarrow> stream s = st \<Longrightarrow> confirmed ?c Seen ?to" for s
      using tip_confirms [OF _ le] by (auto simp: at_position_def)
    let ?R = "\<lambda>s. on_track Seen (st_next st) s \<and> confirmed ?c Seen ?to"
    have fetch: "triple ?R (onErr (\<lambda>e. Wrapf (w ?to) e '''') (canonicalHead S ?to)) (\<lambda>h s. ?R s \<and> headNumber h = ?to \<and> Seen h) stopped"
      by (rule triple_onErr, rule triple_head [OF F]) (auto intro: on_track_stopped)
    have "triple (\<lambda>s. at_position Seen s \<and> stream s = st)
        (andThen (onErr (\<lambda>e. Wrapf (w ?to) e '''') (canonicalHead S ?to)) (\<lambda>boundary.
            andThen (position (put_head ?to boundary)) (\<lambda>_. ret (Some (st_next st, ?to))))) (planned Seen S) stopped"
      if "\<not> ?to < st_next st"
      by (rule triple_conseq [where P = ?R, OF triple_andThen [OF fetch triple_andThen [OF triple_position [where Q = "\<lambda>_. ?R"] triple_ret]]])
        (use that conf in \<open>auto simp: planned_def on_track_def not_less intro: on_track_put [unfolded on_track_def, THEN conjunct1]\<close>)
    moreover have "triple (\<lambda>s. at_position Seen s \<and> stream s = st) (ret (Some (st_next st, ?to))) (planned Seen S) stopped"
      if "\<not> ?to < st_next st"
      by (rule triple_ret) (use that conf in \<open>auto simp: planned_def not_less\<close>)
    ultimately show ?thesis unfolding Let_def by (intro triple_if none)
  qed
  show ?thesis
    unfolding planRange_def
    apply (rule triple_andThen [OF triple_gets [where Q = "\<lambda>_. at_position Seen"]], assumption)
    apply (rule triple_andThen [OF bound0])
    apply (rule triple_andThen [OF heads])
    apply (rule triple_andThen [OF triple_gets [where Q = "\<lambda>st s. at_position Seen s \<and> stream s = st"]], simp)
    apply (rule triple_andThen [OF bound])
    apply (rule triple_if [OF none])
    apply (rule some, simp)
    done
qed
subsection \<open>A batch\<close>

lemma metadata_loop_track:
  assumes F: "follows sink Good S Seen" and to: "plausible to"
  shows "unat to + 1 - unat n < fuel \<Longrightarrow> triple (\<lambda>s. on_track Seen N s \<and> (to < n \<longrightarrow> head_of (stream s) to \<noteq> None)) (metadata_loop S fuel n to prev acc)
     (\<lambda>blocks s. (on_track Seen N s \<and> head_of (stream s) to \<noteq> None) \<and> metadata_of Seen n to prev acc blocks)
     (\<lambda>e s. on_track Seen N s \<and> (outside e \<or> (\<exists>m. e = DiscontinuityError m \<and> n \<le> m \<and> m \<le> to)))"
proof (induction fuel arbitrary: n prev acc)
  case 0
  then show ?case by simp
next
  case (Suc fuel)
  show ?case
  proof (cases "n \<le> to")
    case False
    then show ?thesis
      by (auto intro!: triple_ret simp: metadata_of_def heights_Nil linked_def not_le split: option.split)
  next
    case le: True
    let ?E = "\<lambda>e s. on_track Seen N s \<and> (outside e \<or> (\<exists>m. e = DiscontinuityError m \<and> n \<le> m \<and> m \<le> to))"
    let ?H = "\<lambda>h s. on_track Seen N s \<and> head_of (stream s) n = Some h \<and> headNumber h = n \<and> Seen h"
    have put: "triple (\<lambda>s. on_track Seen N s \<and> headNumber h = n \<and> Seen h)
        (andThen (position (put_head n h)) (\<lambda>_. ret h)) ?H ?E" for h
      by (rule triple_andThen [where R = "\<lambda>_. ?H h"], rule triple_position)
        (auto simp: on_track_put head_of_put intro!: triple_ret)
    have fetch: "triple (on_track Seen N) (andThen (onErr (\<lambda>e. Wrapf w e '''') (canonicalHead S n)) (\<lambda>head.
            andThen (position (put_head n head)) (\<lambda>_. ret head))) ?H ?E" for w
      by (rule triple_andThen [OF _ put], rule triple_onErr, rule triple_head [OF F]) auto
    have get: "triple (\<lambda>s. on_track Seen N s \<and> stream s = st) (case head_of st n of
          Some head \<Rightarrow> ret head
        | None \<Rightarrow> andThen (onErr (\<lambda>e. Wrapf w e '''') (canonicalHead S n)) (\<lambda>head.
            andThen (position (put_head n head)) (\<lambda>_. ret head))) ?H ?E" for st w
    proof (rule triple_case_option)
      show "triple (\<lambda>s. on_track Seen N s \<and> stream s = st) (andThen (onErr (\<lambda>e. Wrapf w e '''') (canonicalHead S n)) (\<lambda>head.
            andThen (position (put_head n head)) (\<lambda>_. ret head))) ?H ?E"
        by (rule triple_conseq [OF fetch]) auto
    next
      fix h assume h: "head_of st n = Some h"
      show "triple (\<lambda>s. on_track Seen N s \<and> stream s = st) (ret h) ?H ?E"
        by (rule triple_ret) (use h stream_ok_head [of Seen st n h] in \<open>auto simp: on_track_def at_position_def\<close>)
    qed
    have go: "triple (?H h) (if (case prev of Some p \<Rightarrow> headParentHash h \<noteq> headHash p | None \<Rightarrow> False)
        then throw (DiscontinuityError n)
        else metadata_loop S fuel (n + 1) to (Some h) (acc @ [\<lparr>blkNumber = n, blkHash = headHash h, blkTimestamp = headTimestamp h\<rparr>]))
        (\<lambda>blocks s. (on_track Seen N s \<and> head_of (stream s) to \<noteq> None) \<and> metadata_of Seen n to prev acc blocks) ?E" for h
    proof (rule triple_if)
      show "triple (?H h) (throw (DiscontinuityError n))
          (\<lambda>blocks s. (on_track Seen N s \<and> head_of (stream s) to \<noteq> None) \<and> metadata_of Seen n to prev acc blocks) ?E"
        by (rule triple_throw) (use le in auto)
    next
      assume link: "\<not> (case prev of Some p \<Rightarrow> headParentHash h \<noteq> headHash p | None \<Rightarrow> False)"
      show "triple (?H h) (metadata_loop S fuel (n + 1) to (Some h) (acc @ [\<lparr>blkNumber = n, blkHash = headHash h, blkTimestamp = headTimestamp h\<rparr>]))
          (\<lambda>blocks s. (on_track Seen N s \<and> head_of (stream s) to \<noteq> None) \<and> metadata_of Seen n to prev acc blocks) ?E"
      proof (cases "headNumber h = n \<and> Seen h")
        case h: True
        have n1: "unat (n + 1) = Suc (unat n)"
          using le to by (subst unat_add_no_wrap) (auto simp: plausible_nat word_le_nat_alt)
        then have fuel: "unat to + 1 - unat (n + 1) < fuel" using Suc.prems le by (simp add: word_le_nat_alt)
        from n1 have to': "to < n + 1 \<Longrightarrow> n = to" and up: "n + 1 \<le> m \<Longrightarrow> n \<le> m" for m
          using le by (auto simp: word_le_nat_alt word_less_nat_alt word_unat_eq_iff)
        have b: "block_of h = \<lparr>blkNumber = n, blkHash = headHash h, blkTimestamp = headTimestamp h\<rparr>"
          using h by (simp add: block_of_def)
        have step: "metadata_of Seen (n + 1) to (Some h) (acc @ [block_of h]) blocks \<Longrightarrow> metadata_of Seen n to prev acc blocks" for blocks
          using metadata_of_step [OF _ _ _ le to link] h by blast
        show ?thesis
          unfolding b [symmetric]
          by (rule triple_conseq [OF Suc.IH [OF fuel, of "Some h" "acc @ [block_of h]"]]) (use to' up step in blast)+
      qed (auto simp: triple_def)
    qed
    show ?thesis
      unfolding metadata_loop.simps using le
      by (simp only: not_True_eq_False if_False)
        (rule triple_andThen [OF triple_gets [where Q = "\<lambda>st s. on_track Seen N s \<and> stream s = st"]], simp,
          rule triple_andThen [OF get go])
  qed
qed
text \<open>\<open>held N to s\<close>: at position \<open>N\<close>, with a head retained for the end of the batch.\<close>

definition held :: "(block_head \<Rightarrow> bool) \<Rightarrow> u64 \<Rightarrow> u64 \<Rightarrow> ('p, 'd) run \<Rightarrow> bool" where
  "held Seen N to s \<longleftrightarrow> on_track Seen N s \<and> head_of (stream s) to \<noteq> None"

lemma held_provider [simp]: "held Seen N to (s\<lparr>provider := p\<rparr>) = held Seen N to s"
  by (simp add: held_def)

lemma held_track: "held Seen N to s \<Longrightarrow> on_track Seen N s"
  by (simp add: held_def)

lemma blockMetadata_track:
  assumes F: "follows sink Good (S :: ('p, 'd) subscriber) Seen" and to: "plausible to" "from \<le> to"
  shows "triple (on_track Seen from) (blockMetadata S from to)
     (\<lambda>blocks s. held Seen from to s \<and> (\<exists>hs. headers_ok Seen from to hs \<and> blocks = map block_of hs))
     (\<lambda>e s. on_track Seen from s \<and> (outside e \<or> (\<exists>m. e = DiscontinuityError m \<and> from \<le> m \<and> m \<le> to)))"
  unfolding blockMetadata_def
proof (rule triple_andThen [OF triple_gets [where Q = "\<lambda>st s. on_track Seen from s \<and> stream s = st"]])
  fix st
  have anchor: "(from = 0 \<or> (\<exists>a. head_of st (from - 1) = Some a \<and> Seen a \<and> headNumber a = from - 1))"
    if "on_track Seen from s \<and> stream s = st" for s
    using that stream_ok_head [of Seen st "from - 1"] by (auto simp: on_track_def at_position_def anchored_def)
  have hdrs: "\<exists>hs. headers_ok Seen from to hs \<and> blocks = map block_of hs"
    if meta: "metadata_of Seen from to (head_of st (from - 1)) [] blocks"
      and a: "from = 0 \<or> (\<exists>a. head_of st (from - 1) = Some a \<and> Seen a \<and> headNumber a = from - 1)" for blocks
  proof -
    from meta obtain hs where hs: "blocks = map block_of hs" "map headNumber hs = heights from to" "\<forall>h \<in> set hs. Seen h"
      "linked (head_of st (from - 1)) hs"
      by (auto simp: metadata_of_def)
    have "successively child hs"
      using hs(4) by (auto simp: linked_def successively_Cons split: option.splits)
    moreover have "from = 0 \<or> (\<exists>a. Seen a \<and> headNumber a = from - 1 \<and> successively child (a # hs))"
      using a hs(4) by (auto simp: linked_def)
    ultimately show ?thesis using hs(1-3) unfolding headers_ok_def by (intro exI [of _ hs]) simp
  qed
  show "triple (\<lambda>s. on_track Seen from s \<and> stream s = st) (metadata_loop S (loop_fuel from to) from to (head_of st (from - 1)) [])
     (\<lambda>blocks s. held Seen from to s \<and> (\<exists>hs. headers_ok Seen from to hs \<and> blocks = map block_of hs))
     (\<lambda>e s. on_track Seen from s \<and> (outside e \<or> (\<exists>m. e = DiscontinuityError m \<and> from \<le> m \<and> m \<le> to)))"
  proof (cases "\<exists>s :: ('p, 'd) run. on_track Seen from s \<and> stream s = st")
    case True
    then show ?thesis
      by (intro triple_conseq [OF metadata_loop_track [OF F to(1) loop_fuel_enough]]) (use to(2) anchor hdrs in \<open>auto simp: held_def\<close>)
  next
    case False
    then show ?thesis by (intro triple_vacuous) blast
  qed
qed simp
end

subsection \<open>Checks of a batch\<close>

lemma disagreeing_out: "set out \<subseteq> set (disagreeing byNumber out logs)"
  by (induction logs arbitrary: out) (fastforce split: option.split)+

lemma disagreeing_keys: "set (disagreeing byNumber out logs) \<subseteq> set out \<union> dom byNumber"
proof (induction logs arbitrary: out)
  case (Cons l logs)
  have "set (disagreeing byNumber (out @ [logBlockNumber l]) logs) \<subseteq> set out \<union> dom byNumber"
    if "byNumber (logBlockNumber l) = Some h" for h
    using Cons [of "out @ [logBlockNumber l]"] that by auto
  with Cons [of out] show ?case by (auto split: option.split)
qed simp

lemma disagreeing_Nil:
  "disagreeing byNumber out logs = [] \<Longrightarrow> l \<in> set logs \<Longrightarrow> byNumber (logBlockNumber l) = Some h \<Longrightarrow>
    logBlockHash l \<noteq> 0 \<and> logBlockHash l = h"
proof (induction logs arbitrary: out)
  case (Cons k logs)
  have grow: "disagreeing byNumber (out @ [x]) logs \<noteq> []" for x
    using disagreeing_out [of "out @ [x]" byNumber logs] by (metis empty_set in_set_conv_decomp subset_empty empty_iff)
  have "out = []" using disagreeing_out [of out byNumber "k # logs"] Cons.prems(1) by simp
  then show ?case
    using Cons grow by (auto split: option.splits if_splits)
qed simp

lemma hash_of_block_dom: "dom (hash_of_block blocks) = blkNumber ` set blocks"
  by (auto simp: hash_of_block_def dom_map_of_conv_image_fst image_image)

lemma disagreeingHeights_in: "set (disagreeingHeights logs blocks) \<subseteq> blkNumber ` set blocks"
  using disagreeing_keys [of "hash_of_block blocks" "[]" logs] by (simp add: disagreeingHeights_def hash_of_block_dom)

lemma disagreeingHeights_Nil:
  assumes "disagreeingHeights logs (map block_of hs) = []" "l \<in> set logs" "logBlockNumber l \<in> headNumber ` set hs"
  shows "logBlockHash l \<noteq> 0 \<and> (\<exists>h \<in> set hs. headNumber h = logBlockNumber l \<and> headHash h = logBlockHash l)"
proof -
  have "blkNumber (block_of h) = headNumber h" "blkHash (block_of h) = headHash h" for h
    by (simp_all add: block_of_def)
  then have "logBlockNumber l \<in> dom (hash_of_block (map block_of hs))"
    using assms(3) by (auto simp: hash_of_block_dom image_image)
  then obtain x where x: "hash_of_block (map block_of hs) (logBlockNumber l) = Some x" by auto
  with disagreeing_Nil assms(1,2) have "logBlockHash l \<noteq> 0" "logBlockHash l = x"
    unfolding disagreeingHeights_def by blast+
  moreover obtain h where "h \<in> set hs" "headNumber h = logBlockNumber l" "headHash h = x"
    using hash_of_block_Some [OF x] by (auto simp: block_of_def)
  ultimately show ?thesis by auto
qed

lemma headers_numbers: "headers_ok Seen from to hs \<Longrightarrow> headNumber ` set hs = {from..to}"
proof -
  assume "headers_ok Seen from to hs"
  then have "set (map headNumber hs) = set (heights from to)" by (simp add: headers_ok_def)
  moreover have "set (heights from to) = {from..to}" by (rule set_eqI) (simp add: set_heights)
  ultimately show ?thesis by simp
qed

context sink_contract
begin

lemma recheck_loop_held:
  assumes F: "follows sink Good S Seen"
  shows "triple (held Seen N to) (recheck_loop S withLogs moved (map block_of hs))
     (\<lambda>moved' s. held Seen N to s \<and> set moved' \<subseteq> set moved \<union> headNumber ` set hs)
     (\<lambda>e s. held Seen N to s \<and> outside e)"
proof (induction hs arbitrary: moved)
  case Nil
  show ?case by (auto intro!: triple_ret)
next
  case (Cons h hs)
  have b: "blkNumber (block_of h) = headNumber h" by (simp add: block_of_def)
  have ask: "triple (held Seen N to) (onErr (\<lambda>e. Wrapf w e '''') (canonicalHead S (headNumber h))) (\<lambda>_. held Seen N to) (\<lambda>e s. held Seen N to s \<and> outside e)" for w
    by (rule triple_onErr, rule triple_head [OF F]) auto
  have rest: "triple (held Seen N to) (recheck_loop S withLogs moved2 (map block_of hs))
     (\<lambda>moved' s. held Seen N to s \<and> set moved' \<subseteq> set moved \<union> headNumber ` set (h # hs))
     (\<lambda>e s. held Seen N to s \<and> outside e)" if "set moved2 \<subseteq> insert (headNumber h) (set moved)" for moved2
    by (rule triple_conseq [OF Cons]) (use that in auto)
  show ?case
    unfolding list.map recheck_loop.simps b
    by (intro triple_if triple_andThen [OF ask] rest) auto
qed

text \<open>Heads at or above the position may be forgotten.\<close>

lemma on_track_delete:
  "on_track Seen N s \<Longrightarrow> (\<And>k. P k \<Longrightarrow> N \<le> k) \<Longrightarrow> on_track Seen N (s\<lparr>stream := delete_heads P (stream s)\<rparr>)"
proof -
  assume s: "on_track Seen N s" and P: "\<And>k. P k \<Longrightarrow> N \<le> k"
  have "\<not> P (N - 1)" if "N \<noteq> 0" using P [of "N - 1"] pred_le [OF order_refl that] by auto
  then show ?thesis
    using s by (auto simp: on_track_def at_position_def stream_ok_delete intro!: anchored_delete)
qed

lemma forget_range_track:
  assumes "N \<le> from" and to: "plausible to"
  shows "triple (on_track Seen N) (forget_range from to) (\<lambda>_. on_track Seen N) stopped"
proof -
  have "triple (on_track Seen N) (for_up Diverges fuel 1 n to (\<lambda>n. position (delete_heads (\<lambda>k. k = n))))
      (\<lambda>_. on_track Seen N) stopped" if "N \<le> n" "unat to + 1 - unat n < fuel" for fuel n
    using that
  proof (induction fuel arbitrary: n)
    case 0
    then show ?case by simp
  next
    case (Suc fuel)
    have one: "triple (on_track Seen N) (position (delete_heads (\<lambda>k. k = n))) (\<lambda>_. on_track Seen N) stopped"
      by (rule triple_position, rule on_track_delete) (use Suc.prems in auto)
    have "N \<le> n + 1" "unat to + 1 - unat (n + 1) < fuel" if "n \<le> to"
    proof -
      have "unat (n + 1) = Suc (unat n)"
        using that to by (subst unat_add_no_wrap) (auto simp: plausible_nat word_le_nat_alt)
      then show "N \<le> n + 1" "unat to + 1 - unat (n + 1) < fuel"
        using Suc.prems that by (simp_all add: word_le_nat_alt)
    qed
    then show ?case
      unfolding for_up.simps by (intro triple_if triple_andThen [OF one Suc.IH] triple_ret)
  qed
  then show ?thesis unfolding forget_range_def using assms(1) loop_fuel_enough by blast
qed
text \<open>An error of a batch or a range: stopped, or the replan signal with the position moved.\<close>

definition interrupted :: "(block_head \<Rightarrow> bool) \<Rightarrow> err \<Rightarrow> ('p, 'd) run \<Rightarrow> bool" where
  "interrupted Seen e s \<longleftrightarrow> Inv (warehouse s) \<and> \<not> goes_on e \<and> (errors_Is e ErrReplan \<longrightarrow> at_position Seen s)"

lemma stopped_interrupted: "stopped e s \<Longrightarrow> interrupted Seen e s"
  by (simp add: stopped_def interrupted_def outside_def)

lemma on_track_at: "on_track Seen N s \<Longrightarrow> at_position Seen s"
  by (simp add: on_track_def)

lemma at_interrupted: "at_position Seen s \<Longrightarrow> \<not> goes_on e \<Longrightarrow> interrupted Seen e s"
  by (simp add: interrupted_def at_position_def)

lemma tip_plausible:
  assumes "follows sink Good S Seen" "on_track Seen N s"
  shows "plausible (st_tip (stream s))"
proof -
  have "st_tip (stream s) = 0 \<or> (\<exists>h. Seen h \<and> st_tip (stream s) \<le> headNumber h)"
    using assms(2) by (simp add: on_track_def at_position_def stream_ok_def)
  moreover have "plausible (headNumber h)" if "Seen h" for h
    using assms(1) that by (simp add: follows_def node_heads_def)
  ultimately show ?thesis using plausible_mono by (auto simp: plausible_nat)
qed

lemma boundaryMoved_track:
  assumes F: "follows sink Good (S :: ('p, 'd) subscriber) Seen"
  shows "triple (on_track Seen from) (boundaryMoved S from) Q (interrupted Seen)"
proof -
  have sink: "s_sink S = sink" using F by (simp add: follows_def)
  have soft: "triple P m Q (interrupted Seen)" if "triple P m Q stopped" for P m Q
    by (rule triple_conseq [OF that]) (auto intro: stopped_interrupted)
  let ?A = "\<lambda>a s. on_track Seen from s \<and> headNumber a = from - 1 \<and> Seen a"
  have recover: "triple (on_track Seen from) (andThen (recoverDeepReorg S n) (\<lambda>_. throw (Sentinel z))) Q (interrupted Seen)" for n z
    by (rule triple_andThen [OF soft [OF recoverDeepReorg_track [OF F]]]) (auto intro!: triple_throw at_interrupted)
  have put: "triple (?A a) (position (put_head (from - 1) a)) (\<lambda>_. ?A a) (interrupted Seen)" for a
    by (rule triple_position) (auto intro: on_track_put)
  have forget: "triple (\<lambda>s :: ('p, 'd) run. ?A a s \<and> stream s = st) (forget_range from (st_tip st)) (\<lambda>_. ?A a) (interrupted Seen)" for a st
  proof (cases "(\<exists>s :: ('p, 'd) run. on_track Seen from s \<and> stream s = st) \<and> headNumber a = from - 1 \<and> Seen a")
    case True
    then have "plausible (st_tip st)" using tip_plausible [OF F] by blast
    from soft [OF forget_range_track [OF order_refl this]] show ?thesis
      by (rule triple_conseq) (use True in auto)
  next
    case False
    then show ?thesis by (intro triple_vacuous) blast
  qed
  have last: "triple (?A a) (andThen (position (\<lambda>st. st\<lparr>st_tip := from - 1\<rparr>)) (\<lambda>_. throw (Sentinel z))) Q (interrupted Seen)" for a z
    by (rule triple_andThen [where R = "\<lambda>_. at_position Seen"], rule triple_position)
      (auto simp: on_track_def at_position_def stream_ok_def anchored_def intro!: triple_throw at_interrupted)
  have after: "triple (?A a) (andThen (gets stream) (\<lambda>st. andThen (forget_range from (st_tip st)) (\<lambda>_.
      andThen (position (\<lambda>st. st\<lparr>st_tip := from - 1\<rparr>)) (\<lambda>_. throw (Sentinel z))))) Q (interrupted Seen)" for a z
    by (rule triple_andThen [OF triple_gets [where Q = "\<lambda>st s. ?A a s \<and> stream s = st"]], simp,
        rule triple_andThen [OF forget last])
  show ?thesis
    unfolding boundaryMoved_def sink
    by (rule triple_andThen [OF soft [OF stored_track]], rule triple_if [OF recover],
        rule triple_andThen [OF soft [OF head_track [OF F]]], rule triple_andThen [OF put after])
qed

definition written :: "(block_head \<Rightarrow> bool) \<Rightarrow> u64 \<Rightarrow> ('p, 'd) run \<Rightarrow> bool" where
  "written Seen to s \<longleftrightarrow> Inv (warehouse s) \<and> At (warehouse s) (to + 1) \<and> stream_ok Seen (stream s) \<and> head_of (stream s) to \<noteq> None"

lemma written_advance: "written Seen to s \<Longrightarrow> on_track Seen (to + 1) (s\<lparr>stream := advance to (stream s)\<rparr>)"
  by (auto simp: written_def on_track_def at_position_def anchored_def stream_ok_advance head_of_advance)

lemma write_track:
  assumes F: "follows sink Good S Seen" and g: "good_batch S Seen from to blocks logs"
  shows "triple (held Seen from to) (onErr (\<lambda>e. Wrapf w e '''') (store (WriteRangeOp sink from to blocks logs)))
    (\<lambda>_. written Seen to) stopped"
proof -
  have good: "Good from to blocks logs" using F g by (simp add: follows_def)
  have "triple (held Seen from to) (store (WriteRangeOp sink from to blocks logs)) (\<lambda>_. written Seen to) stopped"
  proof (rule tripleI)
    fix s x t assume s: "held Seen from to s" "store (WriteRangeOp sink from to blocks logs) s = (Inr x, t)"
    then obtain d where d: "WriteRangeOp sink from to blocks logs (warehouse s) = (Inr x, d)" "t = s\<lparr>warehouse := d\<rparr>"
      by (auto simp: store_def step_simps)
    from triple_value [OF write_law [OF good] on_track_inv [OF held_track [OF s(1)]] d(1)] s(1) d(2)
    show "written Seen to t" by (simp add: written_def held_def on_track_def at_position_def)
  next
    fix s e t assume s: "held Seen from to s" "store (WriteRangeOp sink from to blocks logs) s = (Inl e, t)"
    then obtain d where d: "WriteRangeOp sink from to blocks logs (warehouse s) = (Inl e, d)" "t = s\<lparr>warehouse := d\<rparr>"
      by (auto simp: store_def step_simps)
    from triple_error [OF write_law [OF good] on_track_inv [OF held_track [OF s(1)]] d(1)] d(2)
    show "stopped e t" by (simp add: stopped_def)
  qed
  then show ?thesis by (intro triple_onErr) simp
qed

lemma plausible_confirmed: "follows sink Good S Seen \<Longrightarrow> confirmed c Seen n \<Longrightarrow> plausible n"
proof -
  assume F: "follows sink Good S Seen" "confirmed c Seen n"
  have "plausible (headNumber h)" if "Seen h" for h
    using F(1) that by (simp add: follows_def node_heads_def)
  then show ?thesis using F(2) by (fastforce simp: confirmed_def plausible_nat)
qed

lemma batch_loop_track:
  assumes F: "follows sink Good (S :: ('p, 'd) subscriber) Seen" and range: "from \<le> to" "to - from < 10"
    and conf: "confirmed (ConfirmationBlocks (s_cfg S)) Seen to"
  shows "0 < left \<Longrightarrow> triple (on_track Seen from) (batch_loop S from to left) (\<lambda>_. written Seen to) (interrupted Seen)"
proof (induction left)
  case 0
  then show ?case by simp
next
  case (Suc left)
  have sink: "s_sink S = sink" using F by (simp add: follows_def)
  have to: "plausible to" by (rule plausible_confirmed [OF F conf])
  have soft: "triple P m Q (interrupted Seen)" if "triple P m Q stopped" for P m and Q :: "'b \<Rightarrow> ('p, 'd) run \<Rightarrow> bool"
    by (rule triple_conseq [OF that]) (auto intro: stopped_interrupted)
  have again: "triple (on_track Seen from) (batch_loop S from to left) (\<lambda>_. written Seen to) (interrupted Seen)" if "left \<noteq> 0"
    using Suc.IH that by simp
  define tried where "tried r s \<longleftrightarrow> (case r of
      Inr blocks \<Rightarrow> held Seen from to s \<and> (\<exists>hs. headers_ok Seen from to hs \<and> blocks = map block_of hs)
    | Inl e \<Rightarrow> on_track Seen from s \<and> (outside e \<or> (\<exists>m. e = DiscontinuityError m \<and> from \<le> m \<and> m \<le> to)))"
    for r and s :: "('p, 'd) run"
  have metadata: "triple (on_track Seen from) (attempt_of (blockMetadata S from to)) tried (interrupted Seen)"
    unfolding tried_def by (rule triple_attempt_of) (simp add: blockMetadata_track [OF F to range(1)])
  have failed: "triple (tried (Inl e)) (case errors_As as_gap e of
      Some height \<Rightarrow>
        if height = from then boundaryMoved S from
        else if left = 0 then throw (Wrapf a e b)
        else andThen (forget_range (height - 1) to) (\<lambda>_. batch_loop S from to left)
    | None \<Rightarrow> throw e) (\<lambda>_. written Seen to) (interrupted Seen)" for e a b
  proof (rule triple_case_option)
    show "triple (tried (Inl e)) (throw e) (\<lambda>_. written Seen to) (interrupted Seen)"
      by (rule triple_throw) (auto simp: tried_def intro: at_interrupted on_track_at)
  next
    fix m assume m: "errors_As as_gap e = Some m"
    have pre: "on_track Seen from s" "from \<le> m" and ends: "\<not> goes_on e" if "tried (Inl e) s" for s
      using that m by (auto simp: tried_def outside_def)
    have "triple (tried (Inl e)) (boundaryMoved S from) (\<lambda>_. written Seen to) (interrupted Seen)"
      by (rule triple_conseq [OF boundaryMoved_track [OF F]]) (use pre in auto)
    moreover have "triple (tried (Inl e)) (throw (Wrapf a e b)) (\<lambda>_ :: unit. written Seen to) (interrupted Seen)"
      by (rule triple_throw, rule at_interrupted [OF on_track_at [OF pre(1)]]) (auto simp: ends)
    moreover have "triple (tried (Inl e)) (andThen (forget_range (m - 1) to) (\<lambda>_. batch_loop S from to left)) (\<lambda>_. written Seen to) (interrupted Seen)"
      if "m \<noteq> from" "left \<noteq> 0"
    proof (cases "from \<le> m")
      case True
      then have "m \<noteq> 0" "unat from < unat m" using that(1) by (auto simp: word_less_nat_alt [symmetric])
      then have "from \<le> m - 1" by (simp add: word_le_nat_alt unat_minus_one)
      show ?thesis
        by (rule triple_conseq [OF triple_andThen [OF soft [OF forget_range_track [OF \<open>from \<le> m - 1\<close> to]] again [OF that(2)]]]) (use pre in auto)
    next
      case False
      then show ?thesis using pre by (auto simp: triple_def)
    qed
    ultimately show "triple (tried (Inl e)) (if m = from then boundaryMoved S from
        else if left = 0 then throw (Wrapf a e b)
        else andThen (forget_range (m - 1) to) (\<lambda>_. batch_loop S from to left)) (\<lambda>_. written Seen to) (interrupted Seen)"
      by simp
  qed
  have fetched: "triple (held Seen from to) (andThen (onErr (\<lambda>e. Wrapf a e '''')
           (ask (FetchIngestionLogs (s_keccak S) (s_client S) (s_spanCap S) from to))) (\<lambda>logs.
         let disagree = disagreeingHeights logs blocks in
         andThen (if disagree = [] then recheckLoglessBlocks S logs blocks else ret disagree) (\<lambda>moved.
         let kept = filter (\<lambda>l. Keep (s_keccak S) (logTopics l) (logAddress l)) logs in
         if moved = []
         then onErr (\<lambda>e. Wrapf b e '''') (store (WriteRangeOp sink from to blocks kept))
         else if left = 0 then throw (ErrNew (c moved))
         else andThen (position (delete_heads (\<lambda>k. k \<in> set moved))) (\<lambda>_. batch_loop S from to left))))
      (\<lambda>_. written Seen to) (interrupted Seen)"
    if hs: "headers_ok Seen from to hs" "blocks = map block_of hs" for hs blocks a b c
  proof -
    let ?F = "\<lambda>logs (s :: ('p, 'd) run). held Seen from to s \<and> (\<exists>raw. fetched (s_keccak S) (s_client S) from to raw \<and> logs = sort_key log_key raw)"
    have numbers: "headNumber ` set hs = {from..to}" by (rule headers_numbers [OF hs(1)])
    have fetch: "triple (held Seen from to) (onErr (\<lambda>e. Wrapf a e '''')
           (ask (FetchIngestionLogs (s_keccak S) (s_client S) (s_spanCap S) from to))) ?F (interrupted Seen)"
      by (rule triple_onErr, rule triple_fetch [OF F range(1) to])
        (auto simp: held_def on_track_def at_position_def interrupted_def)
    let ?M = "\<lambda>logs moved s. ?F logs s \<and> set moved \<subseteq> {from..to} \<and>
      (moved = [] \<longrightarrow> disagreeingHeights logs blocks = [])"
    have check: "triple (?F logs) (if disagreeingHeights logs blocks = [] then recheckLoglessBlocks S logs blocks
        else ret (disagreeingHeights logs blocks)) (?M logs) (interrupted Seen)" for logs
    proof (cases "\<exists>raw. fetched (s_keccak S) (s_client S) from to raw \<and> logs = sort_key log_key raw")
      case True
      have "blkNumber (block_of h) = headNumber h" for h by (simp add: block_of_def)
      then have ins: "set (disagreeingHeights logs blocks) \<subseteq> {from..to}"
        using disagreeingHeights_in [of logs blocks] by (simp add: hs(2) image_image numbers)
      show ?thesis
      proof (rule triple_if)
        assume none: "disagreeingHeights logs blocks = []"
        show "triple (?F logs) (recheckLoglessBlocks S logs blocks) (?M logs) (interrupted Seen)"
          unfolding recheckLoglessBlocks_def hs(2)
          by (rule triple_conseq [OF recheck_loop_held [OF F]])
            (use True none numbers hs(2) in \<open>auto intro: at_interrupted [OF on_track_at [OF held_track] goes_on_more(4)]\<close>)
      next
        assume "disagreeingHeights logs blocks \<noteq> []"
        then show "triple (?F logs) (ret (disagreeingHeights logs blocks)) (?M logs) (interrupted Seen)"
          by (intro triple_ret) (use ins in auto)
      qed
    qed (auto simp: triple_def)
    have finish: "triple (?M logs moved) (let kept = filter (\<lambda>l. Keep (s_keccak S) (logTopics l) (logAddress l)) logs in
         if moved = []
         then onErr (\<lambda>e. Wrapf b e '''') (store (WriteRangeOp sink from to blocks kept))
         else if left = 0 then throw (ErrNew (c moved))
         else andThen (position (delete_heads (\<lambda>k. k \<in> set moved))) (\<lambda>_. batch_loop S from to left))
        (\<lambda>_. written Seen to) (interrupted Seen)" for logs moved
    proof (cases "moved = []")
      case False
      have del: "triple (?M logs moved) (position (delete_heads (\<lambda>k. k \<in> set moved))) (\<lambda>_. on_track Seen from) (interrupted Seen)"
        by (rule triple_position, rule on_track_delete) (auto simp: held_def)
      have "triple (?M logs moved) (throw (ErrNew (c moved))) (\<lambda>_ :: unit. written Seen to) (interrupted Seen)"
        by (rule triple_throw) (auto simp: held_def intro: at_interrupted on_track_at)
      then show ?thesis using False triple_andThen [OF del again] by simp
    next
      case True
      let ?kept = "filter (\<lambda>l. Keep (s_keccak S) (logTopics l) (logAddress l)) logs"
      show ?thesis
      proof (cases "\<exists>s. ?M logs moved s")
        case False
        then show ?thesis by (auto simp: triple_def)
      next
        case more: True
        then obtain raw where raw: "fetched (s_keccak S) (s_client S) from to raw" "logs = sort_key log_key raw" by blast
        have agree: "disagreeingHeights logs (map block_of hs) = []"
          using more True hs(2) by auto
        have "logBlockHash l \<noteq> 0 \<and> (\<exists>h \<in> set hs. headNumber h = logBlockNumber l \<and> headHash h = logBlockHash l)"
          if "l \<in> set raw" "from \<le> logBlockNumber l" "logBlockNumber l \<le> to" for l
          by (rule disagreeingHeights_Nil [OF agree]) (use that raw(2) numbers in auto)
        then have "good_batch S Seen from to blocks ?kept"
          unfolding good_batch_def using range conf hs raw by (intro conjI exI [of _ hs] exI [of _ raw]) auto
        from soft [OF write_track [OF F this, of b]] have
          "triple (held Seen from to :: ('p, 'd) run \<Rightarrow> bool) (onErr (\<lambda>e. Wrapf b e '''') (store (WriteRangeOp sink from to blocks ?kept))) (\<lambda>_. written Seen to) (interrupted Seen)" .
        then have "triple (?M logs moved) (onErr (\<lambda>e. Wrapf b e '''') (store (WriteRangeOp sink from to blocks ?kept))) (\<lambda>_. written Seen to) (interrupted Seen)"
          by (rule triple_conseq) auto
        then show ?thesis using True by simp
      qed
    qed
    show ?thesis
      unfolding Let_def [where s = "disagreeingHeights x y" for x y]
      by (rule triple_andThen [OF fetch], rule triple_andThen [OF check finish])
  qed
  have succeeded: "triple (tried (Inr blocks)) m (\<lambda>_. written Seen to) (interrupted Seen)"
    if "\<And>hs. headers_ok Seen from to hs \<Longrightarrow> blocks = map block_of hs \<Longrightarrow> triple (held Seen from to) m (\<lambda>_. written Seen to) (interrupted Seen)"
    for m blocks
    using that unfolding triple_def tried_def by fastforce
  show ?case
    unfolding batch_loop.simps sink
  proof (rule triple_andThen [OF metadata])
    fix r
    show "triple (tried r) (case r of
       Inl e \<Rightarrow>
         (case errors_As as_gap e of
            Some height \<Rightarrow>
              if height = from then boundaryMoved S from
              else if left = 0
              then throw (Wrapf (''batch '' @ range_text from to @ '': '') e
                     ('' after '' @ dec batchConsistencyAttempts @ '' attempts; the chain is unstable at the confirmation depth''))
              else andThen (forget_range (height - 1) to) (\<lambda>_. batch_loop S from to left)
          | None \<Rightarrow> throw e)
     | Inr blocks \<Rightarrow>
         andThen (onErr (\<lambda>e. Wrapf (''fetch ingestion logs for blocks '' @ range_text from to @ '': '') e '''')
           (ask (FetchIngestionLogs (s_keccak S) (s_client S) (s_spanCap S) from to))) (\<lambda>logs.
         let disagree = disagreeingHeights logs blocks in
         andThen (if disagree = [] then recheckLoglessBlocks S logs blocks else ret disagree) (\<lambda>moved.
         let kept = filter (\<lambda>l. Keep (s_keccak S) (logTopics l) (logAddress l)) logs in
         if moved = []
         then onErr (\<lambda>e. Wrapf (''write blocks '' @ range_text from to @ '': '') e '''')
                (store (WriteRangeOp sink from to blocks kept))
         else if left = 0
         then throw (ErrNew (''blocks ['' @ show_heights moved @ ''] kept changing between log and header fetches for batch ''
                @ range_text from to @ '' ('' @ dec batchConsistencyAttempts @ '' attempts); the chain is unstable at the confirmation depth''))
         else andThen (position (delete_heads (\<lambda>k. k \<in> set moved))) (\<lambda>_. batch_loop S from to left)))) (\<lambda>_. written Seen to) (interrupted Seen)"
    proof (cases r)
      case (Inl e)
      show ?thesis unfolding Inl sum.case by (rule failed)
    next
      case (Inr blocks)
      show ?thesis unfolding Inr sum.case by (rule succeeded, rule fetched)
    qed
  qed
qed
subsection \<open>The loop\<close>

lemma confirmed_mono: "confirmed c Seen to \<Longrightarrow> n \<le> to \<Longrightarrow> confirmed c Seen n"
  unfolding confirmed_def word_le_nat_alt by (elim disjE exE) (simp add: unat_eq_zero, meson add_le_mono1 order_trans)

lemma batch_window:
  assumes "i \<le> to" "plausible to"
  defines "ct \<equiv> min (i + catchupBatchBlocks - 1) to"
  shows "i \<le> ct" "ct \<le> to" "ct - i < 10" "(if i + catchupBatchBlocks \<le> to then i + catchupBatchBlocks else to + 1) = ct + 1"
proof -
  have s: "0 < catchupBatchBlocks" and nw: "unat to + unat catchupBatchBlocks < 2 ^ 64"
    using assms(2) by (simp_all add: catchupBatchBlocks_def plausible_nat)
  from window [OF assms(1) s nw] show "i \<le> ct" "ct \<le> to" "ct - i < 10"
    by (simp_all add: ct_def catchupBatchBlocks_def)
  have i10: "unat (i + 10) = unat i + 10" "unat (i + 9) = unat i + 9"
    using assms(1,2) by (subst unat_add_no_wrap; simp add: plausible_nat word_le_nat_alt)+
  have nine: "i + 10 - 1 = i + 9" by simp
  have "min (i + 9) to = (if i + 10 \<le> to then i + 9 else to)"
    using i10 by (auto simp: min_def word_le_nat_alt word_unat_eq_iff)
  then show "(if i + catchupBatchBlocks \<le> to then i + catchupBatchBlocks else to + 1) = ct + 1"
    unfolding ct_def catchupBatchBlocks_def nine by simp
qed

lemma ingestRange_track:
  assumes F: "follows sink Good (S :: ('p, 'd) subscriber) Seen" and le: "from \<le> to"
    and conf: "confirmed (ConfirmationBlocks (s_cfg S)) Seen to"
  shows "triple (on_track Seen from) (ingestRange S from to) (\<lambda>_. on_track Seen (to + 1)) (interrupted Seen)"
proof -
  have to: "plausible to" by (rule plausible_confirmed [OF F conf])
  let ?I = "\<lambda>i. on_track Seen (if i \<le> to then i else to + 1) :: ('p, 'd) run \<Rightarrow> bool"
  have ctx: "triple (on_track Seen i) (ctx_check S) (\<lambda>_. on_track Seen i) (interrupted Seen)" for i
  proof -
    have "triple (on_track Seen i :: ('p, 'd) run \<Rightarrow> bool) (case CtxErr (s_client S) p of Some e \<Rightarrow> throw e | None \<Rightarrow> ret ()) (\<lambda>_ :: unit. on_track Seen i) (interrupted Seen)" for p
    proof (rule triple_case_option)
      fix e assume "CtxErr (s_client S) p = Some e"
      moreover have "client_errors outside (s_client S)" using F by (simp add: follows_def)
      ultimately have "outside e" by (rule client_errorsD(7) [rotated])
      then show "triple (on_track Seen i :: ('p, 'd) run \<Rightarrow> bool) (throw e) (\<lambda>_ :: unit. on_track Seen i) (interrupted Seen)"
        by (auto intro!: triple_throw at_interrupted on_track_at)
    qed (auto intro!: triple_ret)
    then show ?thesis
      unfolding ctx_check_def by (intro triple_andThen [OF triple_gets [where Q = "\<lambda>_. on_track Seen i"]])
  qed
  have body: "triple (?I i) (andThen (ctx_check S) (\<lambda>_.
       let batchTo = min (i + catchupBatchBlocks - 1) to in
       andThen (ingestBatch S i batchTo) (\<lambda>_. position (advance batchTo)))) (\<lambda>_. ?I (i + catchupBatchBlocks)) (interrupted Seen)"
    if i: "i \<le> to" for i
  proof -
    let ?ct = "min (i + catchupBatchBlocks - 1) to"
    note w = batch_window [OF i to]
    have batch: "triple (on_track Seen i) (ingestBatch S i ?ct) (\<lambda>_. written Seen ?ct) (interrupted Seen)"
      unfolding ingestBatch_def batchConsistencyAttempts_def
      by (rule batch_loop_track [OF F w(1,3) confirmed_mono [OF conf w(2)]]) simp
    have adv: "triple (written Seen ?ct) (position (advance ?ct)) (\<lambda>_. on_track Seen (?ct + 1)) (interrupted Seen)"
      by (rule triple_position) (rule written_advance)
    show ?thesis
      unfolding Let_def w(4) if_P [OF i]
      by (rule triple_andThen [OF ctx triple_andThen [OF batch adv]])
  qed
  have "triple (?I from) (ingestRange S from to) (\<lambda>_ s. \<exists>j. to < j \<and> ?I j s) (interrupted Seen)"
    unfolding ingestRange_def
    by (rule triple_for_up [where I = ?I, OF _ _ _ loop_fuel_enough], rule body) (use to in \<open>auto simp: catchupBatchBlocks_def plausible_nat\<close>)
  then show ?thesis
    by (rule triple_conseq) (use le in \<open>auto split: if_splits simp: not_le\<close>)
qed

lemma advance_again: "on_track Seen (to + 1) s \<Longrightarrow> to + 1 \<noteq> 0 \<Longrightarrow> at_position Seen (s\<lparr>stream := advance to (stream s)\<rparr>)"
  by (auto simp: on_track_def at_position_def stream_ok_advance anchored_def head_of_advance)

text \<open>\<open>ended e s\<close>: how \<open>Run\<close> returns an error.\<close>

definition ended :: "err \<Rightarrow> ('p, 'd) run \<Rightarrow> bool" where
  "ended e s \<longleftrightarrow> Inv (warehouse s) \<and> \<not> goes_on e"

lemma on_heads_track:
  assumes F: "follows sink Good (S :: ('p, 'd) subscriber) Seen" and batch: "\<forall>h \<in> set batch. Seen h"
  shows "triple (at_position Seen) (on_heads S batch) (\<lambda>_. at_position Seen) ended"
proof -
  let ?E = "ended :: err \<Rightarrow> ('p, 'd) run \<Rightarrow> bool"
  have plan: "triple (at_position Seen) (planRange S batch) (planned Seen S) ?E"
    by (rule triple_conseq [OF planRange_track [OF F batch]]) (auto simp: stopped_def ended_def)
  let ?R = "\<lambda>to (r :: err + unit) (s :: ('p, 'd) run). case r of Inl e \<Rightarrow> interrupted Seen e s | Inr _ \<Rightarrow> on_track Seen (to + 1) s"
  have act: "triple (?R to r) (case r of
      Inl e \<Rightarrow> if errors_Is e ErrReplan then ret () else throw e
    | Inr _ \<Rightarrow> position (advance to)) (\<lambda>_. at_position Seen) ?E" if "plausible to" for to r
  proof (cases r)
    case (Inl e)
    then show ?thesis by (auto simp: interrupted_def ended_def intro!: triple_ret triple_throw)
  next
    case (Inr x)
    have "to + 1 \<noteq> 0" using that unat_add_no_wrap [of to 1] by (auto simp: plausible_nat)
    then show ?thesis using Inr by (auto intro!: triple_position advance_again)
  qed
  have range: "triple (planned Seen S (Some (f, t))) (andThen (attempt_of (ingestRange S f t)) (\<lambda>r.
      case r of
        Inl e \<Rightarrow> if errors_Is e ErrReplan then ret () else throw e
      | Inr _ \<Rightarrow> position (advance t))) (\<lambda>_. at_position Seen) ?E" for f t
  proof (cases "f \<le> t \<and> confirmed (ConfirmationBlocks (s_cfg S)) Seen t")
    case True
    then have t: "plausible t" using plausible_confirmed [OF F] by blast
    have "triple (on_track Seen f) (attempt_of (ingestRange S f t)) (?R t) ?E"
      by (rule triple_attempt_of) (use ingestRange_track [OF F] True in simp)
    then have "triple (on_track Seen f) (andThen (attempt_of (ingestRange S f t)) (\<lambda>r.
      case r of
        Inl e \<Rightarrow> if errors_Is e ErrReplan then ret () else throw e
      | Inr _ \<Rightarrow> position (advance t))) (\<lambda>_. at_position Seen) ?E"
      by (rule triple_andThen) (rule act [OF t])
    then show ?thesis by (rule triple_conseq) (auto simp: planned_def on_track_def)
  qed (auto simp: planned_def intro!: triple_vacuous)
  show ?thesis
    unfolding on_heads_def
  proof (rule triple_andThen [OF plan], rule triple_case_option)
    fix p :: "(u64 \<times> u64) option" assume "p = None"
    show "triple (planned Seen S p) (ret ()) (\<lambda>_. at_position Seen) ?E"
      by (rule triple_ret) (simp add: planned_def)
  next
    fix p and x :: "u64 \<times> u64" assume p: "p = Some x"
    show "triple (planned Seen S p) (case x of (f, t) \<Rightarrow> andThen (attempt_of (ingestRange S f t)) (\<lambda>r.
      case r of
        Inl e \<Rightarrow> if errors_Is e ErrReplan then ret () else throw e
      | Inr _ \<Rightarrow> position (advance t))) (\<lambda>_. at_position Seen) ?E"
      unfolding p by (cases x) (simp only: prod.case, rule range)
  qed
qed

text \<open>The heads of an event, and the error it carries.\<close>

lemma on_event_track:
  assumes F: "follows sink Good (S :: ('p, 'd) subscriber) Seen" and ev: "event_ok Seen ev"
  shows "triple (at_position Seen) (on_event S ev) (\<lambda>_. at_position Seen) ended"
proof (cases ev)
  case (Heads h queued)
  then show ?thesis using on_heads_track [OF F, of "h # queued"] ev by (simp add: on_event_def event_ok_def event_heads_def)
next
  case Silent
  have inv: "at_position Seen s \<Longrightarrow> \<not> goes_on e \<Longrightarrow> ended e s" for e and s :: "('p, 'd) run" by (simp add: at_position_def ended_def)
  show ?thesis
    unfolding on_event_def Silent event.case
    by (intro triple_if triple_ret triple_andThen [OF triple_gets [where Q = "\<lambda>_. at_position Seen"]] triple_throw) (auto intro: inv)
qed (use ev in \<open>auto simp: on_event_def event_ok_def at_position_def ended_def intro!: triple_throw\<close>)

lemma verifyResumePoint_track:
  assumes F: "follows sink Good (S :: ('p, 'd) subscriber) Seen"
  shows "triple (\<lambda>s. Inv (warehouse s) \<and> At (warehouse s) (st_next (stream s)) \<and> stream_ok Seen (stream s))
    (verifyResumePoint S) (\<lambda>_. at_position Seen) stopped"
proof -
  have sink: "s_sink S = sink" using F by (simp add: follows_def)
  have anchor: "triple (\<lambda>s :: ('p, 'd) run. ready Seen N s \<and> headNumber h = N - 1 \<and> Seen h) (position (\<lambda>st. (put_head (N - 1) h st)\<lparr>st_tip := N - 1\<rparr>))
      (\<lambda>_. at_position Seen) stopped" for N h
  proof (rule triple_position)
    fix s :: "('p, 'd) run" assume s: "ready Seen N s \<and> headNumber h = N - 1 \<and> Seen h"
    then have "stream_ok Seen (put_head (N - 1) h (stream s))" by (auto simp: ready_def intro: stream_ok_put)
    then show "at_position Seen (s\<lparr>stream := (put_head (N - 1) h (stream s))\<lparr>st_tip := N - 1\<rparr>\<rparr>)"
      using s by (auto simp: ready_def at_position_def anchored_def head_of_put stream_ok_def)
  qed
  show ?thesis
    unfolding verifyResumePoint_def Let_def sink
  proof (rule triple_andThen [OF triple_gets [where Q = "\<lambda>st s. ready Seen (st_next st) s \<and> stream s = st"]], simp add: ready_def)
    fix st :: stream_state
    let ?n = "st_next st - 1"
    have lower: "triple (at_position Seen :: ('p, 'd) run \<Rightarrow> bool) (position (\<lambda>st. st\<lparr>st_lowerBound := min (st_lowerBound st) (st_next st)\<rparr>)) (\<lambda>_. at_position Seen) stopped"
      by (rule triple_position) (simp add: at_position_def stream_ok_def anchored_def)
    have judge: "triple (\<lambda>s :: ('p, 'd) run. ready Seen (st_next st) s \<and> headNumber h = ?n \<and> Seen h)
        (if x = None \<or> x = Some (headHash h) then position (\<lambda>st'. (put_head ?n h st')\<lparr>st_tip := ?n\<rparr>)
         else andThen (recoverDeepReorg S ?n) (\<lambda>_. position (\<lambda>st. st\<lparr>st_lowerBound := min (st_lowerBound st) (st_next st)\<rparr>)))
        (\<lambda>_. at_position Seen) stopped" for x h
      by (rule triple_if [OF anchor], rule triple_andThen [OF _ lower], rule triple_conseq [OF recoverDeepReorg_ready [OF F]]) auto
    have go: "triple (ready Seen (st_next st) :: ('p, 'd) run \<Rightarrow> bool) (andThen (store (StoredBlockHashOp sink ?n)) (\<lambda>x.
        andThen (onErr (\<lambda>e. Wrapf w e '''') (canonicalHead S ?n)) (\<lambda>h.
        if x = None \<or> x = Some (headHash h) then position (\<lambda>st'. (put_head ?n h st')\<lparr>st_tip := ?n\<rparr>)
         else andThen (recoverDeepReorg S ?n) (\<lambda>_. position (\<lambda>st. st\<lparr>st_lowerBound := min (st_lowerBound st) (st_next st)\<rparr>)))))
        (\<lambda>_. at_position Seen) stopped" for w
      by (rule triple_andThen [OF stored_steady [OF steady_ready]], rule triple_andThen [OF head_steady [OF F steady_ready] judge])
    show "triple (\<lambda>s :: ('p, 'd) run. ready Seen (st_next st) s \<and> stream s = st)
     (if st_next st = 0 then ret ()
      else andThen (store (StoredBlockHashOp sink ?n)) (\<lambda>x.
        andThen (onErr (\<lambda>e. Wrapf (''verify resume point '' @ show_u64 ?n @ '': '') e '''') (canonicalHead S ?n)) (\<lambda>h.
        if x = None \<or> x = Some (headHash h) then position (\<lambda>st'. (put_head ?n h st')\<lparr>st_tip := ?n\<rparr>)
         else andThen (recoverDeepReorg S ?n) (\<lambda>_. position (\<lambda>st. st\<lparr>st_lowerBound := min (st_lowerBound st) (st_next st)\<rparr>)))))
     (\<lambda>_. at_position Seen) stopped"
      by (rule triple_if, rule triple_ret, (auto simp: ready_def at_position_def anchored_def)[1], rule triple_conseq [OF go]) auto
  qed
qed

lemma Run_track:
  assumes F: "follows sink Good (S :: ('p, 'd) subscriber) Seen" and evs: "\<forall>ev \<in> set events. event_ok Seen ev"
  shows "triple (\<lambda>s. Inv (warehouse s) \<and> At (warehouse s) from) (Run S from events) (\<lambda>_. at_position Seen) ended"
proof -
  let ?P = "\<lambda>s :: ('p, 'd) run. Inv (warehouse s) \<and> At (warehouse s) from"
  let ?E = "ended :: err \<Rightarrow> ('p, 'd) run \<Rightarrow> bool"
  have sub: "triple ?P (onErr (\<lambda>e. Wrapf w e '''') (ask (SubscribeNewHeadOp (s_client S)))) (\<lambda>_. ?P) ?E" for w
  proof (rule triple_onErr, rule tripleI)
    fix s e t assume s: "?P s" "ask (SubscribeNewHeadOp (s_client S)) s = (Inl e, t)"
    then obtain q where q: "SubscribeNewHeadOp (s_client S) (provider s) = (Inl e, q)" "t = s\<lparr>provider := q\<rparr>"
      by (auto simp: ask_def step_simps)
    then have "outside e" using F client_errorsD [of outside "s_client S"] unfolding follows_def by blast
    then show "ended (Wrapf w e '''') t" using s(1) q(2) by (simp add: ended_def)
  qed (auto simp: ask_def step_simps)
  have start: "triple ?P (position (\<lambda>_. \<lparr>st_next = from, st_lowerBound = from, st_tip = 0, st_heads = []\<rparr>))
      (\<lambda>_ s. Inv (warehouse s) \<and> At (warehouse s) (st_next (stream s)) \<and> stream_ok Seen (stream s)) ?E"
    by (rule triple_position) (simp add: stream_ok_def)
  have verify: "triple (\<lambda>s. Inv (warehouse s) \<and> At (warehouse s) (st_next (stream s)) \<and> stream_ok Seen (stream s))
      (verifyResumePoint S) (\<lambda>_. at_position Seen) ?E"
    by (rule triple_conseq [OF verifyResumePoint_track [OF F]]) (auto simp: stopped_def ended_def)
  have loop: "triple (at_position Seen) (for_each events (on_event S)) (\<lambda>_. at_position Seen) ?E"
    by (rule triple_for_each [where I = "\<lambda>_. at_position Seen"], rule on_event_track [OF F]) (use evs in auto)
  show ?thesis
    unfolding Run_def
    by (rule triple_andThen [OF sub], rule triple_andThen [OF start], rule triple_andThen [OF verify loop])
qed

end

end
