(* ===== verification/Requests.thy ===== *)
theory Requests
  imports IngestFacts
begin

text \<open>
  What the loop of \<open>internal/ingestion/subscriber.go\<close> asks of the node, in the order of its requests.

  \<open>asked\<close> relates the state in which the node is at the start of a run to its states during the run:
  it is asked for heads, for the logs of a range and for the subscription, and for nothing else.
  \<open>reads_batch\<close> is the order of the requests behind one write: first the fetch of the logs, then,
  from the very state the fetch leaves, the second reading of every block without a log. The locale
  carries any invariant of the node's states and of what was written through the whole loop.
\<close>

section \<open>Requests\<close>

inductive request :: "('p, 'd) subscriber \<Rightarrow> 'p \<Rightarrow> 'p \<Rightarrow> bool" for S where
  subscription: "SubscribeNewHeadOp (s_client S) p = (r, q) \<Longrightarrow> request S p q"
| head: "HeadByNumberOp (s_client S) n p = (r, q) \<Longrightarrow> request S p q"
| logs: "FetchIngestionLogs (s_keccak S) (s_client S) (s_spanCap S) from to p = (r, q) \<Longrightarrow> request S p q"

definition asked :: "('p, 'd) subscriber \<Rightarrow> 'p \<Rightarrow> 'p \<Rightarrow> bool" where
  "asked S = (request S)\<^sup>*\<^sup>*"

lemma asked_start: "asked S p p"
  by (simp add: asked_def)

lemma asked_next: "asked S p q \<Longrightarrow> request S q r \<Longrightarrow> asked S p r"
  unfolding asked_def by (rule rtranclp.rtrancl_into_rtrancl)

text \<open>Blocks read one after the other, from the state \<open>p\<close> of the node, each with the hash it had.\<close>

fun reread_in_turn :: "'p eth_client \<Rightarrow> block list \<Rightarrow> 'p \<Rightarrow> bool" where
  "reread_in_turn c [] p = True"
| "reread_in_turn c (b # blocks) p =
     (case HeadByNumberOp c (blkNumber b) p of
        (Inl e, q) \<Rightarrow> False
      | (Inr h, q) \<Rightarrow> headHash h = blkHash b \<and> reread_in_turn c blocks q)"

text \<open>The blocks of which no log was fetched.\<close>

definition logless :: "log list \<Rightarrow> block list \<Rightarrow> block list" where
  "logless logs blocks = filter (\<lambda>b. blkNumber b \<notin> set (map logBlockNumber logs)) blocks"

definition reads_batch :: "('p, 'd) subscriber \<Rightarrow> 'p \<Rightarrow> u64 \<Rightarrow> u64 \<Rightarrow> block list \<Rightarrow> log list \<Rightarrow> bool" where
  "reads_batch S p from to blocks kept \<longleftrightarrow>
     (\<exists>logs q. FetchIngestionLogs (s_keccak S) (s_client S) (s_spanCap S) from to p = (Inr logs, q) \<and>
        disagreeingHeights logs blocks = [] \<and> reread_in_turn (s_client S) (logless logs blocks) q \<and>
        kept = filter (\<lambda>l. Keep (s_keccak S) (logTopics l) (logAddress l)) logs)"

text \<open>The code's loop over the blocks without logs leaves no height exactly when each had its hash.\<close>

lemma recheck_loop_grows: "recheck_loop S withLogs moved blocks s = (Inr out, t) \<Longrightarrow> set moved \<subseteq> set out"
proof (induction blocks arbitrary: moved s)
  case (Cons b blocks)
  show ?case
  proof (cases "blkNumber b \<in> set withLogs")
    case False
    then have "\<exists>(h :: block_head) u. recheck_loop S withLogs (if headHash h \<noteq> blkHash b then moved @ [blkNumber b] else moved) blocks u = (Inr out, t)"
      using Cons.prems by (simp only: recheck_loop.simps if_False andThen_Inr) blast
    then obtain h :: block_head and u where "recheck_loop S withLogs (if headHash h \<noteq> blkHash b then moved @ [blkNumber b] else moved) blocks u = (Inr out, t)"
      by blast
    from Cons.IH [OF this] show ?thesis by (auto split: if_splits)
  qed (use Cons in simp)
qed (simp add: step_simps)

lemma recheck_loop_reads:
  assumes "recheck_loop S (map logBlockNumber logs) moved blocks s = (Inr [], t)"
  shows "reread_in_turn (s_client S) (logless logs blocks) (provider s)"
  using assms
proof (induction blocks arbitrary: moved s)
  case Nil
  then show ?case by (simp add: logless_def)
next
  case (Cons b blocks)
  show ?case
  proof (cases "blkNumber b \<in> set (map logBlockNumber logs)")
    case True
    then show ?thesis using Cons by (simp add: logless_def)
  next
    case False
    then obtain h q where h: "HeadByNumberOp (s_client S) (blkNumber b) (provider s) = (Inr h, q)"
      and rest: "recheck_loop S (map logBlockNumber logs) (if headHash h \<noteq> blkHash b then moved @ [blkNumber b] else moved)
        blocks (s\<lparr>provider := q\<rparr>) = (Inr [], t)"
      using Cons.prems by (auto simp: canonicalHead_def ask_def step_simps)
    have "headHash h = blkHash b" using recheck_loop_grows [OF rest] by (auto split: if_splits)
    then show ?thesis using h Cons.IH [OF rest] False by (simp add: logless_def)
  qed
qed

section \<open>An invariant of the requests and of the writes\<close>

locale requests_and_writes =
  fixes S :: "('p, 'd) subscriber" and Asked :: "'p \<Rightarrow> bool" and Written :: "'d \<Rightarrow> bool"
  assumes request_keeps: "Asked p \<Longrightarrow> request S p q \<Longrightarrow> Asked q"
    and stored_keeps: "Written d \<Longrightarrow> StoredBlockHashOp (s_sink S) n d = (x, d') \<Longrightarrow> Written d'"
    and rewind_keeps: "Written d \<Longrightarrow> RewindOp (s_sink S) n d = (r, d') \<Longrightarrow> Written d'"
    and write_keeps: "Asked p \<Longrightarrow> reads_batch S p from to blocks logs \<Longrightarrow> Written d \<Longrightarrow>
      WriteRangeOp (s_sink S) from to blocks logs d = (r, d') \<Longrightarrow> Written d'"
begin

definition both :: "('p, 'd) run \<Rightarrow> bool" where
  "both s \<longleftrightarrow> Asked (provider s) \<and> Written (warehouse s)"

definition keeps :: "('p, 'd, 'a) act \<Rightarrow> bool" where
  "keeps m \<longleftrightarrow> (\<forall>s r t. both s \<longrightarrow> m s = (r, t) \<longrightarrow> both t)"

lemma keepsD: "keeps m \<Longrightarrow> both s \<Longrightarrow> m s = (r, t) \<Longrightarrow> both t"
  by (simp add: keeps_def)

lemma keeps_plain: "keeps (ret x)" "keeps (throw e)" "keeps (gets f)"
  by (simp_all add: keeps_def step_simps)

lemma keeps_position: "keeps (position f)"
  by (simp add: keeps_def both_def position_def step_simps)

lemma keeps_andThen: "keeps m \<Longrightarrow> (\<And>x. keeps (f x)) \<Longrightarrow> keeps (andThen m f)"
proof (unfold keeps_def, intro allI impI)
  fix s r t assume m: "\<forall>s r t. both s \<longrightarrow> m s = (r, t) \<longrightarrow> both t" and f: "\<And>x. \<forall>s r t. both s \<longrightarrow> f x s = (r, t) \<longrightarrow> both t"
    and s: "both s" "andThen m f s = (r, t)"
  obtain x u where u: "m s = (x, u)" by fastforce
  then have "both u" using m s(1) by blast
  then show "both t" using u f s(2) by (cases x) (auto simp: andThen_def)
qed

lemma keeps_onErr: "keeps m \<Longrightarrow> keeps (onErr g m)"
  unfolding keeps_def onErr_def by (auto split: prod.splits sum.splits)

lemma keeps_attempt_of: "keeps m \<Longrightarrow> keeps (attempt_of m)"
  unfolding keeps_def attempt_of_def by (fastforce split: prod.splits)

lemma keeps_if: "(b \<Longrightarrow> keeps m) \<Longrightarrow> (\<not> b \<Longrightarrow> keeps m') \<Longrightarrow> keeps (if b then m else m')"
  by simp

lemma keeps_let: "keeps (f x) \<Longrightarrow> keeps (Let x f)"
  by (simp add: Let_def)

lemma keeps_cases:
  "keeps m \<Longrightarrow> (\<And>y. keeps (g y)) \<Longrightarrow> keeps (case x of None \<Rightarrow> m | Some y \<Rightarrow> g y)"
  "(\<And>a. keeps (h a)) \<Longrightarrow> (\<And>b. keeps (k b)) \<Longrightarrow> keeps (case z of Inl a \<Rightarrow> h a | Inr b \<Rightarrow> k b)"
  "(\<And>a b. keeps (l a b)) \<Longrightarrow> keeps (case w of (a, b) \<Rightarrow> l a b)"
  by (auto split: option.splits sum.splits prod.splits)

lemma keeps_for_up: "(\<And>i. keeps (body i)) \<Longrightarrow> keeps (for_up dv fuel k i to body)"
  by (induction fuel arbitrary: i) (auto intro!: keeps_plain keeps_andThen keeps_if)

lemma keeps_for_each: "(\<And>x. keeps (body x)) \<Longrightarrow> keeps (for_each xs body)"
  by (induction xs) (auto intro!: keeps_plain keeps_andThen)

lemma keeps_ask:
  assumes "\<And>p r q. m p = (r, q) \<Longrightarrow> request S p q"
  shows "keeps (ask m)"
  using assms request_keeps by (auto simp: keeps_def both_def ask_def step_simps)

lemma keeps_canonicalHead: "keeps (canonicalHead S n)"
  unfolding canonicalHead_def by (rule keeps_ask) (rule request.head)

lemma keeps_subscribe: "keeps (ask (SubscribeNewHeadOp (s_client S)))"
  by (rule keeps_ask) (rule request.subscription)

lemma keeps_fetch: "keeps (ask (FetchIngestionLogs (s_keccak S) (s_client S) (s_spanCap S) from to))"
  by (rule keeps_ask) (rule request.logs)

lemma keeps_stored: "keeps (store (StoredBlockHashOp (s_sink S) n))"
  using stored_keeps by (auto simp: keeps_def both_def store_def step_simps)

lemma keeps_rewind: "keeps (store (RewindOp (s_sink S) n))"
  using rewind_keeps by (auto simp: keeps_def both_def store_def step_simps)

lemmas keeps_rules = keeps_plain keeps_position keeps_andThen keeps_onErr keeps_attempt_of keeps_if keeps_let
  keeps_cases keeps_for_up keeps_for_each keeps_canonicalHead keeps_subscribe keeps_fetch keeps_stored keeps_rewind

lemma keeps_reconcile_at: "keeps (reconcile_at S bridge k expected replaced)"
  unfolding reconcile_at_def by (intro keeps_rules)

lemma keeps_reconcile_loop: "keeps (reconcile_loop S bridge k expected replaced)"
  by (induction k arbitrary: expected replaced)
    (simp_all only: reconcile_loop.simps, (intro keeps_rules keeps_reconcile_at | assumption)+)

lemma keeps_reconcile: "keeps (reconcile S h)"
  unfolding reconcile_def by (intro keeps_rules keeps_reconcile_loop)

lemma keeps_fork_loop: "keeps (fork_loop S height k)"
  by (induction k) (simp_all only: fork_loop.simps, (intro keeps_rules | assumption)+)

lemma keeps_recoverDeepReorg: "keeps (recoverDeepReorg S height)"
  unfolding recoverDeepReorg_def findForkPoint_def by (intro keeps_rules keeps_fork_loop)

lemma keeps_record_loop: "keeps (record_loop S fuel h)"
proof (induction fuel)
  case (Suc fuel)
  then show ?case
    unfolding record_loop.simps handleWrittenHeightHead_def
    by (intro keeps_rules keeps_reconcile keeps_recoverDeepReorg)
qed (simp add: keeps_plain)

lemma keeps_planRange: "keeps (planRange S batch)"
  unfolding planRange_def checkCatchupBound_def recordHead_def by (intro keeps_rules keeps_record_loop)

lemma keeps_metadata_loop: "keeps (metadata_loop S fuel n to prev blocks)"
  by (induction fuel arbitrary: n prev blocks) (simp_all only: metadata_loop.simps, (intro keeps_rules | assumption)+)

lemma keeps_recheck_loop: "keeps (recheck_loop S withLogs moved blocks)"
  by (induction blocks arbitrary: moved) (simp_all only: recheck_loop.simps, (intro keeps_rules | assumption)+)

lemma keeps_forget_range: "keeps (forget_range from to)"
  unfolding forget_range_def by (intro keeps_rules)

lemma keeps_boundaryMoved: "keeps (boundaryMoved S from)"
  unfolding boundaryMoved_def by (intro keeps_rules keeps_recoverDeepReorg keeps_forget_range)

text \<open>The one place that writes: the fetch, the second reading, and the write, in this order.\<close>

lemma keeps_write:
  assumes again: "keeps again"
  shows "keeps (andThen (onErr g (ask (FetchIngestionLogs (s_keccak S) (s_client S) (s_spanCap S) from to))) (\<lambda>logs.
         let disagree = disagreeingHeights logs blocks in
         andThen (if disagree = [] then recheckLoglessBlocks S logs blocks else ret disagree) (\<lambda>moved.
         let kept = filter (\<lambda>l. Keep (s_keccak S) (logTopics l) (logAddress l)) logs in
         if moved = []
         then onErr h (store (WriteRangeOp (s_sink S) from to blocks kept))
         else if stop then throw (e moved)
         else andThen (position (delete_heads (\<lambda>k. k \<in> set moved))) (\<lambda>_. again))))"
    (is "keeps (andThen (onErr g ?fetch) ?rest)")
  unfolding keeps_def
proof (intro allI impI)
  fix s r t assume s: "both s" "andThen (onErr g ?fetch) ?rest s = (r, t)"
  obtain x u where u: "?fetch s = (x, u)" by fastforce
  have "both u" by (rule keepsD [OF keeps_fetch s(1) u])
  show "both t"
  proof (cases x)
    case (Inl e)
    then show ?thesis using s(2) u \<open>both u\<close> by (auto simp: andThen_def onErr_def)
  next
    case (Inr logs)
    let ?check = "if disagreeingHeights logs blocks = [] then recheckLoglessBlocks S logs blocks else ret (disagreeingHeights logs blocks)"
    obtain y v where v: "?check u = (y, v)" by fastforce
    have "keeps ?check" unfolding recheckLoglessBlocks_def by (intro keeps_rules keeps_recheck_loop)
    from keepsD [OF this \<open>both u\<close> v] have "both v" .
    show ?thesis
    proof (cases "y = Inr []")
      case True
      let ?kept = "filter (\<lambda>l. Keep (s_keccak S) (logTopics l) (logAddress l)) logs"
      have agree: "disagreeingHeights logs blocks = []" and "reread_in_turn (s_client S) (logless logs blocks) (provider u)"
        using v True recheck_loop_reads [of S logs "[]" blocks u v]
        by (auto simp: recheckLoglessBlocks_def step_simps split: if_splits)
      moreover have "FetchIngestionLogs (s_keccak S) (s_client S) (s_spanCap S) from to (provider s) = (Inr logs, provider u)"
        using u Inr by (auto simp: ask_def step_simps)
      ultimately have reads: "reads_batch S (provider s) from to blocks ?kept" unfolding reads_batch_def by blast
      have "onErr h (store (WriteRangeOp (s_sink S) from to blocks ?kept)) v = (r, t)"
        using s(2) u v True Inr agree by (simp add: andThen_def onErr_def Let_def)
      then obtain r' where "WriteRangeOp (s_sink S) from to blocks ?kept (warehouse v) = (r', warehouse t)" "provider t = provider v"
        by (auto simp: onErr_def store_def zoom_def split: prod.splits)
      with write_keeps [OF _ reads] s(1) \<open>both v\<close> show ?thesis by (auto simp: both_def)
    next
      case False
      have "keeps (if stop then throw (e moved) else andThen (position (delete_heads (\<lambda>k. k \<in> set moved))) (\<lambda>_. again))" for moved
        by (intro keeps_rules again)
      note more = keepsD [OF this \<open>both v\<close>]
      show ?thesis using s(2) u v Inr False \<open>both v\<close> more by (cases y) (auto simp: andThen_def onErr_def Let_def)
    qed
  qed
qed

lemma keeps_batch_loop: "keeps (batch_loop S from to left)"
proof (induction left)
  case (Suc left)
  then show ?case
    unfolding batch_loop.simps blockMetadata_def
    by (intro keeps_andThen keeps_attempt_of keeps_cases keeps_write keeps_rules keeps_metadata_loop keeps_boundaryMoved keeps_forget_range)
qed (simp add: keeps_plain)

lemma keeps_ingestRange: "keeps (ingestRange S from to)"
  unfolding ingestRange_def ctx_check_def ingestBatch_def by (intro keeps_rules keeps_batch_loop)

lemma keeps_verifyResumePoint: "keeps (verifyResumePoint S)"
  unfolding verifyResumePoint_def by (intro keeps_rules keeps_recoverDeepReorg)

lemma keeps_on_event: "keeps (on_event S ev)"
  by (cases ev)
    (simp_all only: on_event_def on_heads_def event.case, (intro keeps_rules keeps_planRange keeps_ingestRange)+)

lemma keeps_Run: "keeps (Run S from events)"
  unfolding Run_def by (intro keeps_rules keeps_verifyResumePoint keeps_on_event)

end

end
