(* ===== verification/Following.thy ===== *)
theory Following
  imports Requests Warehouse
begin

text \<open>
  The head-following loop on the warehouse of \<open>logstore\<close>: \<open>store_sink\<close> is the store as a sink,
  and the interpretation \<open>on_store\<close> discharges the contract of \<open>IngestFacts\<close> for it, so that the
  loop's lemmas hold of the program as it is put together. A second interpretation, on a ledger
  of the batches handed over, shows what every one of them is, and the interpretation \<open>in_order\<close> of
  \<open>Requests\<close> on the same ledger in which order the node was asked for it.
\<close>

section \<open>Errors of the store\<close>

definition quiet_faults :: "pg \<Rightarrow> bool" where
  "quiet_faults s \<longleftrightarrow> (\<forall>n e. faults s n = Some (Failed e) \<or> faults s n = Some (ReplyLost e) \<longrightarrow> outside e)"

text \<open>A step whose errors are all \<open>outside\<close> when the connection's are.\<close>

definition clean :: "(pg, err, 'a) step \<Rightarrow> bool" where
  "clean m \<longleftrightarrow> triple quiet_faults m (\<lambda>_. quiet_faults) (\<lambda>e s. quiet_faults s \<and> outside e)"

named_theorems clean_rules \<open>steps whose errors are none of the loop's signals\<close>

lemma clean_ret [clean_rules]: "clean (ret x)" and clean_throw [clean_rules]: "outside e \<Longrightarrow> clean (throw e)"
  by (auto simp: clean_def intro: triple_ret triple_throw)

lemma clean_andThen [clean_rules]: "clean m \<Longrightarrow> (\<And>x. clean (f x)) \<Longrightarrow> clean (andThen m f)"
  unfolding clean_def by (rule triple_andThen)

lemma clean_onErr [clean_rules]: "clean m \<Longrightarrow> clean (onErr (\<lambda>e. Wrapf a e b) m)"
  "clean m \<Longrightarrow> clean (onErr (\<lambda>e. Wrapf (g e) e b) m)"
  unfolding clean_def by (rule triple_onErr, simp)+

lemma clean_if [clean_rules]: "(b \<Longrightarrow> clean m) \<Longrightarrow> (\<not> b \<Longrightarrow> clean m') \<Longrightarrow> clean (if b then m else m')"
  by simp

lemma clean_option [clean_rules]:
  "(x = None \<Longrightarrow> clean m) \<Longrightarrow> (\<And>y. x = Some y \<Longrightarrow> clean (f y)) \<Longrightarrow> clean (case x of None \<Rightarrow> m | Some y \<Rightarrow> f y)"
  by (cases x) auto

lemma clean_exec:
  assumes "\<And>t e. f t = Inl e \<Longrightarrow> outside e"
  shows "clean (exec f)"
  using assms
  by (auto simp: clean_def triple_def exec_def Let_def quiet_faults_def split: sum.splits option.splits fault.splits)

lemma clean_query [clean_rules]: "clean (query f)" and clean_update [clean_rules]: "clean (update g)"
  unfolding query_def update_def by (rule clean_exec, simp)+

lemma clean_commit: "clean (commit t x)"
  by (auto simp: clean_def triple_def commit_def Let_def quiet_faults_def split: option.splits fault.splits)

lemma clean_cases:
  assumes "clean m" "quiet_faults s" "m s = (r, t)"
  shows "quiet_faults t" "r = Inl e \<Longrightarrow> outside e"
  using triple_value [OF assms(1) [unfolded clean_def] assms(2)] triple_error [OF assms(1) [unfolded clean_def] assms(2)] assms(3)
  by (cases r; simp)+

lemma cleanI: "(\<And>s r t. quiet_faults s \<Longrightarrow> m s = (r, t) \<Longrightarrow> quiet_faults t \<and> (\<forall>e. r = Inl e \<longrightarrow> outside e)) \<Longrightarrow> clean m"
  unfolding clean_def by (rule tripleI) blast+

lemma clean_in_tx [clean_rules]:
  assumes m: "clean m"
  shows "clean (in_tx m)"
proof (rule cleanI)
  fix s r t assume s: "quiet_faults s" "in_tx m s = (r, t)"
  have start: "clean (exec (\<lambda>t. Inr ((), t)))" by (rule clean_exec) simp
  have keep: "quiet_faults (rollback b u) = quiet_faults u" for b u by (simp add: quiet_faults_def rollback_def)
  obtain r1 u where u: "exec (\<lambda>t. Inr ((), t)) s = (r1, u)" by fastforce
  note u' = clean_cases [OF start s(1) u]
  show "quiet_faults t \<and> (\<forall>e. r = Inl e \<longrightarrow> outside e)"
  proof (cases r1)
    case (Inl e1)
    then show ?thesis using u u' s(2) by (auto simp: in_tx_def)
  next
    case (Inr y)
    obtain r2 v where v: "m u = (r2, v)" by fastforce
    note v' = clean_cases [OF m u'(1) v]
    show ?thesis
    proof (cases r2)
      case (Inl e2)
      then show ?thesis using u v v' s(2) \<open>r1 = Inr y\<close> by (auto simp: in_tx_def keep)
    next
      case (Inr z)
      then have "commit (tab s) z v = (r, t)" using u v s(2) \<open>r1 = Inr y\<close> by (simp add: in_tx_def)
      from clean_cases [OF clean_commit v'(1) this] show ?thesis by blast
    qed
  qed
qed

lemma clean_for_up:
  assumes "\<And>i. clean (body i)" "0 < k" "unat to + unat k < 2 ^ 64"
  shows "clean (for_up dv (loop_fuel i to) k i to body)"
  unfolding clean_def
  by (rule triple_conseq [OF triple_for_up [where I = "\<lambda>_. quiet_faults"]])
    (use assms in \<open>auto simp: clean_def loop_fuel_def\<close>)

lemma clean_ensure_partition [clean_rules]: "clean (ensure_partition i)"
  unfolding ensure_partition_def
  by (intro clean_rules clean_exec) (auto simp: create_partition_def split: if_splits)

lemma clean_ensurePartitions: "plausible to \<Longrightarrow> clean (ensurePartitions from to)"
  unfolding ensurePartitions_def Let_def
  by (rule clean_for_up) (auto simp: plausible_nat intro: clean_rules)

lemma clean_tables [clean_rules]: "clean readCoverage" "clean (setCoverage c)" "clean (copyBlocks bs)" "clean (copyLogs ls)"
  unfolding readCoverage_def setCoverage_def copyBlocks_def copyLogs_def
  by (intro clean_rules clean_exec; auto simp: upsert_cursor_def copy_block_rows_def copy_log_rows_def split: if_splits)+

lemma clean_write_range_body: "plausible to \<Longrightarrow> clean (write_range_body from to blocks logs)"
  unfolding write_range_body_def by (intro clean_rules clean_ensurePartitions) simp_all

lemma logsMatch_outside: "logsMatch by_number ls = Some e \<Longrightarrow> outside e"
  by (induction ls) (auto split: if_splits option.splits)

lemma clean_WriteRange: "plausible to \<Longrightarrow> clean (WriteRange from to blocks logs)"
  unfolding WriteRange_def
  by (intro clean_rules clean_write_range_body) (auto simp: logsMatchBlocks_def dest: logsMatch_outside)

lemma clean_Rewind: "clean (Rewind n)"
  unfolding Rewind_def by (intro clean_rules) simp_all

lemma clean_StoredBlockHash: "clean (StoredBlockHash n)"
  unfolding StoredBlockHash_def by (intro clean_rules)

section \<open>The store as a sink\<close>

definition store_sink :: "pg sink" where
  "store_sink = \<lparr>WriteRangeOp = WriteRange, StoredBlockHashOp = StoredBlockHash, RewindOp = Rewind\<rparr>"

definition store_ok :: "pg \<Rightarrow> bool" where
  "store_ok s \<longleftrightarrow> warehouse_ok (tab s) \<and> quiet_faults s"

text \<open>\<open>n\<close> is the block after the cursor; a warehouse without a cursor takes any block.\<close>

definition next_is :: "pg \<Rightarrow> u64 \<Rightarrow> bool" where
  "next_is s n \<longleftrightarrow> (case coverage_of (tab s) of None \<Rightarrow> True | Some c \<Rightarrow> covHead c + 1 = n)"

lemma same_tables: "tab t = tab s \<Longrightarrow> next_is t n = next_is s n"
  by (simp add: next_is_def)

lemma StoredBlockHash_tables: "StoredBlockHash n s = (r, t) \<Longrightarrow> tab t = tab s"
  by (auto simp: StoredBlockHash_def query_def exec_def onErr_def Let_def split: prod.splits sum.splits option.splits fault.splits)

lemma committed_next:
  assumes fits: "\<And>c. coverage_of t0 = Some c \<Longrightarrow> fits_int64 (covHead c)"
    and b: "batch_covers from to blocks logs" and w: "write_committed from to blocks logs t0 t"
    and at: "\<And>c. coverage_of t0 = Some c \<Longrightarrow> covHead c + 1 = from"
  shows "coverage_of t = Some c \<Longrightarrow> covHead c = to"
proof -
  assume c: "coverage_of t = Some c"
  then have c: "c = extended_coverage (coverage_of t0) from to" using write_committed_fields(4) [OF w] by simp
  show "covHead c = to"
  proof (cases "coverage_of t0")
    case (Some d)
    have "covHead d < from"
      using at [OF Some] int64_suc [of "covHead d"] fits [OF Some] by (auto simp: word_less_def int64_eq_uint)
    moreover have "from \<le> to" using b by (simp add: batch_covers_def)
    ultimately have "covHead d \<le> to" by simp
    then show ?thesis using c Some by (simp add: extended_coverage_def max_def)
  qed (simp add: c extended_coverage_def)
qed

lemma rewound_head: "rewound n t0 t \<Longrightarrow> \<exists>c. coverage_of t = Some c \<and> covHead c = n"
  by (auto simp: rewound_def coverage_of_def)

text \<open>
  An invariant of the tables that the rewind keeps, and the writer with \<open>Good\<close> batches, makes the
  store a sink for such batches.
\<close>

locale table_invariant =
  fixes I :: "tables \<Rightarrow> bool"
    and Good :: "u64 \<Rightarrow> u64 \<Rightarrow> block list \<Rightarrow> log list \<Rightarrow> bool"
  assumes write_keeps: "I t0 \<Longrightarrow> Good f t bs ls \<Longrightarrow> write_committed f t bs ls t0 t1 \<Longrightarrow> I t1"
    and good_covers: "Good f t bs ls \<Longrightarrow> batch_covers f t bs ls"
    and rewind_keeps: "I t0 \<Longrightarrow> rewound n t0 t1 \<Longrightarrow> I t1"
    and head_fits: "I t0 \<Longrightarrow> coverage_of t0 = Some c \<Longrightarrow> fits_int64 (covHead c)"
begin

lemma tables_write:
  assumes good: "Good f t bs ls"
  shows "triple (\<lambda>d. (I (tab d) \<and> quiet_faults d) \<and> next_is d f) (WriteRange f t bs ls)
    (\<lambda>_ d. (I (tab d) \<and> quiet_faults d) \<and> next_is d (t + 1)) (\<lambda>e d. (I (tab d) \<and> quiet_faults d) \<and> outside e)"
proof -
  have b: "batch_covers f t bs ls" using good by (rule good_covers)
  then have cl: "clean (WriteRange f t bs ls)" by (intro clean_WriteRange) (simp add: batch_covers_def)
  have ok: "I (tab d')" if "I (tab d)" "WriteRange f t bs ls d = (r, d')" for d r d'
    using WriteRange_tables [OF that(2)] write_keeps [OF that(1) good] that(1) by auto
  show ?thesis
  proof (rule tripleI)
    fix d x d' assume d: "(I (tab d) \<and> quiet_faults d) \<and> next_is d f" "WriteRange f t bs ls d = (Inr x, d')"
    have "write_committed f t bs ls (tab d) (tab d')"
      using WriteRange_commits [of f t bs ls d] d(2) by (simp add: all_or_nothing_def)
    then have "next_is d' (t + 1)"
      using committed_next [OF _ b, of "tab d" "tab d'"] head_fits d(1) by (auto simp: next_is_def split: option.splits)
    then show "(I (tab d') \<and> quiet_faults d') \<and> next_is d' (t + 1)"
      using clean_cases [OF cl _ d(2)] ok [OF _ d(2)] d(1) by simp
  next
    fix d e d' assume d: "(I (tab d) \<and> quiet_faults d) \<and> next_is d f" "WriteRange f t bs ls d = (Inl e, d')"
    then show "(I (tab d') \<and> quiet_faults d') \<and> outside e"
      using clean_cases [OF cl _ d(2)] ok [OF _ d(2)] by simp
  qed
qed

lemma tables_rewind:
  "triple (\<lambda>d. (I (tab d) \<and> quiet_faults d) \<and> next_is d m) (Rewind n)
    (\<lambda>_ d. (I (tab d) \<and> quiet_faults d) \<and> next_is d (n + 1)) (\<lambda>e d. (I (tab d) \<and> quiet_faults d) \<and> outside e)"
proof -
  have ok: "I (tab d')" if "I (tab d)" "Rewind n d = (r, d')" for d r d'
    using Rewind_commits [of n d] rewind_keeps [OF that(1)] that by (auto simp: all_or_nothing_def split: sum.splits)
  show ?thesis
  proof (rule tripleI)
    fix d x d' assume d: "(I (tab d) \<and> quiet_faults d) \<and> next_is d m" "Rewind n d = (Inr x, d')"
    have "rewound n (tab d) (tab d')" using Rewind_commits [of n d] d(2) by (simp add: all_or_nothing_def)
    from rewound_head [OF this] have "next_is d' (n + 1)" by (auto simp: next_is_def)
    then show "(I (tab d') \<and> quiet_faults d') \<and> next_is d' (n + 1)"
      using clean_cases [OF clean_Rewind _ d(2)] ok [OF _ d(2)] d(1) by simp
  next
    fix d e d' assume d: "(I (tab d) \<and> quiet_faults d) \<and> next_is d m" "Rewind n d = (Inl e, d')"
    then show "(I (tab d') \<and> quiet_faults d') \<and> outside e"
      using clean_cases [OF clean_Rewind _ d(2)] ok [OF _ d(2)] by simp
  qed
qed

lemma tables_stored:
  "triple (\<lambda>d. (I (tab d) \<and> quiet_faults d) \<and> next_is d m) (StoredBlockHash n)
    (\<lambda>_ d. (I (tab d) \<and> quiet_faults d) \<and> next_is d m) (\<lambda>e d. (I (tab d) \<and> quiet_faults d) \<and> outside e)"
proof (rule tripleI)
  fix d x d' assume d: "(I (tab d) \<and> quiet_faults d) \<and> next_is d m" "StoredBlockHash n d = (Inr x, d')"
  then show "(I (tab d') \<and> quiet_faults d') \<and> next_is d' m"
    using clean_cases [OF clean_StoredBlockHash _ d(2)] StoredBlockHash_tables [OF d(2)]
      same_tables [OF StoredBlockHash_tables [OF d(2)]] by simp
next
  fix d e d' assume d: "(I (tab d) \<and> quiet_faults d) \<and> next_is d m" "StoredBlockHash n d = (Inl e, d')"
  then show "(I (tab d') \<and> quiet_faults d') \<and> outside e"
    using clean_cases [OF clean_StoredBlockHash _ d(2)] StoredBlockHash_tables [OF d(2)] by simp
qed

end

sublocale table_invariant \<subseteq> sink_contract store_sink "\<lambda>d. I (tab d) \<and> quiet_faults d" next_is Good
  by unfold_locales (simp_all only: store_sink_def sink.simps tables_write tables_rewind tables_stored)

interpretation ordered: table_invariant warehouse_ok batch_covers
  using write_committed_ok rewound_ok coverage_of_Some(1) by unfold_locales blast+

lemmas WriteRange_law = ordered.tables_write [folded store_ok_def]
lemmas Rewind_law = ordered.tables_rewind [folded store_ok_def]
lemmas StoredBlockHash_law = ordered.tables_stored [folded store_ok_def]

section \<open>What is asked of the node\<close>

text \<open>
  Every log answered can be a row: at most four topics (the EVM emits no more), indices below
  2 ^ 31, and a block number that is a \<open>bigint\<close>.
\<close>

definition evm_log :: "log \<Rightarrow> bool" where
  "evm_log l \<longleftrightarrow> length (logTopics l) \<le> 4 \<and> unat (logIndex l) < 2 ^ 31 \<and> unat (logTxIndex l) < 2 ^ 31 \<and>
     fits_int64 (logBlockNumber l)"

definition node_logs :: "'p eth_client \<Rightarrow> bool" where
  "node_logs c \<longleftrightarrow>
     (\<forall>f t ts p ls q. FilterLogsOp c f t ts p = (Inr ls, q) \<longrightarrow> (\<forall>l \<in> set ls. evm_log l)) \<and>
     (\<forall>n p rs q. BlockReceiptsOp c n p = (Inr rs, q) \<longrightarrow> (\<forall>l \<in> set (concat rs). evm_log l))"

text \<open>
  The node, of which nothing else is asked: heads have the number they were asked by and no
  absurd number, errors of the client are not the loop's own signals, logs can be rows. Any
  reorganisation, at any moment and of any depth, and any failure is allowed. The span cap is
  not the one value for which the walk does not advance.
\<close>

definition ordinary :: "('p, 'd) subscriber \<Rightarrow> (block_head \<Rightarrow> bool) \<Rightarrow> bool" where
  "ordinary S Seen \<longleftrightarrow> node_heads (s_client S) Seen \<and> client_errors outside (s_client S) \<and>
     plain_errors (s_client S) (Topics (s_keccak S)) \<and> node_logs (s_client S) \<and> s_spanCap S \<noteq> - 1"

lemma fetched_evm: "fetched kc c f t ls \<Longrightarrow> node_logs c \<Longrightarrow> l \<in> set ls \<Longrightarrow> evm_log l"
proof (induction rule: fetched.induct)
  case (by_query f t p ls q)
  then show ?case unfolding node_logs_def by blast
next
  case (by_receipts n p rs q)
  then have "\<forall>l \<in> set (concat rs). evm_log l" unfolding node_logs_def by blast
  then show ?case using by_receipts(3) by auto
qed auto

lemma good_batch_covers:
  assumes S: "ordinary S Seen" and g: "good_batch S Seen f t bs ls"
  shows "batch_covers f t bs ls"
proof -
  obtain hs raw where le: "f \<le> t" and conf: "confirmed (ConfirmationBlocks (s_cfg S)) Seen t"
    and hs: "headers_ok Seen f t hs" "bs = map block_of hs"
    and raw: "fetched (s_keccak S) (s_client S) f t raw"
    and ls: "ls = filter (\<lambda>l. Keep (s_keccak S) (logTopics l) (logAddress l)) (sort_key log_key raw)"
    using g by (auto simp: good_batch_def)
  have "plausible (headNumber h)" if "Seen h" for h
    using S that by (simp add: ordinary_def node_heads_def)
  then have "plausible t" using conf by (fastforce simp: confirmed_def plausible_nat)
  moreover have "map blkNumber bs = heights f t"
    using hs by (simp add: headers_ok_def block_of_def comp_def)
  then have "set (map blkNumber bs) = {f..t}" by (simp add: set_heights set_eq_iff)
  moreover have "wf_log l" if "l \<in> set ls" for l
  proof -
    have "evm_log l" using fetched_evm [OF raw] S that by (auto simp: ls ordinary_def)
    moreover have "logTopics l \<noteq> []" using that by (auto simp: ls Keep_def)
    ultimately show ?thesis by (simp add: wf_log_def evm_log_def)
  qed
  ultimately show ?thesis using le by (simp add: batch_covers_def)
qed

lemma ordinary_follows: "ordinary S Seen \<Longrightarrow> s_sink S = sink \<Longrightarrow> (\<And>f t bs ls. good_batch S Seen f t bs ls \<Longrightarrow> Good f t bs ls) \<Longrightarrow>
    follows sink Good S Seen"
  by (simp add: ordinary_def follows_def)

section \<open>A ledger of what is written\<close>

text \<open>A sink that also notes every batch handed to \<open>WriteRange\<close>, before it is known whether it is accepted.\<close>

type_synonym batch = "u64 \<times> u64 \<times> block list \<times> log list"

definition beside :: "('d, err, 'a) step \<Rightarrow> (batch list \<Rightarrow> batch list) \<Rightarrow> ('d \<times> batch list, err, 'a) step" where
  "beside m g = (\<lambda>(d, l). case m d of (r, d') \<Rightarrow> (r, (d', g l)))"

definition with_ledger :: "'d sink \<Rightarrow> ('d \<times> batch list) sink" where
  "with_ledger k =
     \<lparr>WriteRangeOp = (\<lambda>f t bs ls. beside (WriteRangeOp k f t bs ls) (\<lambda>l. l @ [(f, t, bs, ls)])),
      StoredBlockHashOp = (\<lambda>n. beside (StoredBlockHashOp k n) (\<lambda>l. l)),
      RewindOp = (\<lambda>n. beside (RewindOp k n) (\<lambda>l. l))\<rparr>"

definition ledger_ok :: "(u64 \<Rightarrow> u64 \<Rightarrow> block list \<Rightarrow> log list \<Rightarrow> bool) \<Rightarrow> pg \<times> batch list \<Rightarrow> bool" where
  "ledger_ok G = (\<lambda>(d, l). store_ok d \<and> (\<forall>(f, t, bs, ls) \<in> set l. G f t bs ls))"

definition ledger_at :: "pg \<times> batch list \<Rightarrow> u64 \<Rightarrow> bool" where
  "ledger_at = (\<lambda>(d, l). next_is d)"

lemma triple_beside:
  assumes "triple P m Q E" and "\<And>d l. P' (d, l) \<Longrightarrow> P d"
    and "\<And>d l x d'. P' (d, l) \<Longrightarrow> Q x d' \<Longrightarrow> Q' x (d', g l)"
    and "\<And>d l e d'. P' (d, l) \<Longrightarrow> E e d' \<Longrightarrow> E' e (d', g l)"
  shows "triple P' (beside m g) Q' E'"
  using assms(2-) triple_value [OF assms(1)] triple_error [OF assms(1)]
  by (intro tripleI; clarsimp simp: beside_def split: prod.splits) blast+

interpretation ledger: sink_contract "with_ledger store_sink" "ledger_ok G" ledger_at
    "\<lambda>f t bs ls. G f t bs ls \<and> batch_covers f t bs ls"
  for G :: "u64 \<Rightarrow> u64 \<Rightarrow> block list \<Rightarrow> log list \<Rightarrow> bool"
proof unfold_locales
  show "triple (\<lambda>d. ledger_ok G d \<and> ledger_at d m) (StoredBlockHashOp (with_ledger store_sink) n)
      (\<lambda>_ d. ledger_ok G d \<and> ledger_at d m) (\<lambda>e d. ledger_ok G d \<and> outside e)" for m n
    unfolding with_ledger_def sink.simps store_sink_def
    by (rule triple_beside [OF StoredBlockHash_law [of m]]) (auto simp: ledger_ok_def ledger_at_def)
  show "triple (\<lambda>d. ledger_ok G d \<and> ledger_at d m) (RewindOp (with_ledger store_sink) n)
      (\<lambda>_ d. ledger_ok G d \<and> ledger_at d (n + 1)) (\<lambda>e d. ledger_ok G d \<and> outside e)" for m n
    unfolding with_ledger_def sink.simps store_sink_def
    by (rule triple_beside [OF Rewind_law [of m]]) (auto simp: ledger_ok_def ledger_at_def)
  show "triple (\<lambda>d. ledger_ok G d \<and> ledger_at d f) (WriteRangeOp (with_ledger store_sink) f t bs ls)
      (\<lambda>_ d. ledger_ok G d \<and> ledger_at d (t + 1)) (\<lambda>e d. ledger_ok G d \<and> outside e)"
    if "G f t bs ls \<and> batch_covers f t bs ls" for f t bs ls
    unfolding with_ledger_def sink.simps store_sink_def
    by (rule triple_beside [OF WriteRange_law [OF conjunct2 [OF that]]]) (use that in \<open>auto simp: ledger_ok_def ledger_at_def\<close>)
qed

text \<open>
  The ledger and the node's states: every batch noted was read, requests in order, from a state the
  node was in during this run.
\<close>

definition batches_read :: "('p, 'd) subscriber \<Rightarrow> 'p \<Rightarrow> 'e \<times> batch list \<Rightarrow> bool" where
  "batches_read S p0 = (\<lambda>(d, l). \<forall>(f, t, bs, ls) \<in> set l. \<exists>p. asked S p0 p \<and> reads_batch S p f t bs ls)"

lemma beside_eq: "beside m g dl = (r, dl') \<Longrightarrow> \<exists>d'. m (fst dl) = (r, d') \<and> dl' = (d', g (snd dl))"
  by (auto simp: beside_def split: prod.splits)

interpretation in_order: requests_and_writes "S\<lparr>s_sink := with_ledger k\<rparr>" "asked (S\<lparr>s_sink := with_ledger k\<rparr>) p0"
    "batches_read (S\<lparr>s_sink := with_ledger k\<rparr>) p0"
  for S :: "('p, 'd \<times> batch list) subscriber" and k p0
proof unfold_locales
  let ?S = "S\<lparr>s_sink := with_ledger k\<rparr>"
  show "asked ?S p0 p \<Longrightarrow> request ?S p q \<Longrightarrow> asked ?S p0 q" for p q by (rule asked_next)
  show "batches_read ?S p0 d'" if "batches_read ?S p0 d" "StoredBlockHashOp (s_sink ?S) n d = (x, d')" for n d x d'
    using that by (auto simp: with_ledger_def batches_read_def dest!: beside_eq)
  show "batches_read ?S p0 d'" if "batches_read ?S p0 d" "RewindOp (s_sink ?S) n d = (r, d')" for n d r d'
    using that by (auto simp: with_ledger_def batches_read_def dest!: beside_eq)
  show "batches_read ?S p0 d'" if "asked ?S p0 p" "reads_batch ?S p f t bs ls" "batches_read ?S p0 d"
      "WriteRangeOp (s_sink ?S) f t bs ls d = (r, d')" for p f t bs ls d r d'
    using that by (auto simp: with_ledger_def batches_read_def dest!: beside_eq)
qed

section \<open>Properties\<close>

context table_invariant begin

lemma Run_on_tables:
  assumes "\<And>f t bs ls. good_batch S Seen f t bs ls \<Longrightarrow> Good f t bs ls"
    and "s_sink S = store_sink" "ordinary S Seen" "\<forall>ev \<in> set events. event_ok Seen ev"
    and "I (tab (warehouse s)) \<and> quiet_faults (warehouse s)" "next_is (warehouse s) from"
  shows "case Run S from events s of
      (Inr _, t) \<Rightarrow> (I (tab (warehouse t)) \<and> quiet_faults (warehouse t)) \<and> next_is (warehouse t) (st_next (stream t)) \<and>
        stream_ok Seen (stream t) \<and> anchored (stream t)
    | (Inl e, t) \<Rightarrow> (I (tab (warehouse t)) \<and> quiet_faults (warehouse t)) \<and> \<not> goes_on e"
proof -
  obtain r t where run: "Run S from events s = (r, t)" by fastforce
  note T = Run_track [OF ordinary_follows [OF assms(3,2,1)] assms(4)]
  show ?thesis
    using triple_value [OF T conjI [OF assms(5,6)]] triple_error [OF T conjI [OF assms(5,6)]] run
    by (cases r) (auto simp: at_position_def ended_def)
qed

end

lemma Run_on_store:
  assumes "s_sink S = store_sink" "ordinary S Seen" "\<forall>ev \<in> set events. event_ok Seen ev"
    and "store_ok (warehouse s)" "next_is (warehouse s) from"
  shows "case Run S from events s of
      (Inr _, t) \<Rightarrow> store_ok (warehouse t) \<and> next_is (warehouse t) (st_next (stream t)) \<and>
        stream_ok Seen (stream t) \<and> anchored (stream t)
    | (Inl e, t) \<Rightarrow> store_ok (warehouse t) \<and> \<not> goes_on e"
  unfolding store_ok_def
  by (rule ordered.Run_on_tables [OF _ assms(1-3) _ assms(5)])
    (use assms(4) good_batch_covers [OF assms(2)] in \<open>simp_all add: store_ok_def\<close>)

text \<open>
  Following the head keeps the warehouse: whatever the node answers or fails to answer,
  however the chain is reorganised, however often the database fails and at whichever event the
  process ends, the tables satisfy the warehouse invariant: unique keys, readable rows, and a
  block row for every height of the published coverage.
\<close>

theorem Run_keeps_warehouse_ok:
  assumes "s_sink S = store_sink" "ordinary S Seen" "\<forall>ev \<in> set events. event_ok Seen ev"
    and "warehouse_ok (tab (warehouse s))" "quiet_faults (warehouse s)" "next_is (warehouse s) from"
  shows "warehouse_ok (tab (warehouse (snd (Run S from events s))))"
  using Run_on_store [OF assms(1-3), of s "from"] assms(4-)
  by (auto simp: store_ok_def split: prod.splits sum.splits)

text \<open>
  C15. The subscriber never loses its place: while it runs, its next block is the one after the
  durable cursor (also after a recovery that rewound the warehouse), and unless that is block 0,
  it holds a head of the block below, to which the next batch must link.
\<close>

theorem Run_position:
  assumes "s_sink S = store_sink" "ordinary S Seen" "\<forall>ev \<in> set events. event_ok Seen ev"
    and "warehouse_ok (tab (warehouse s))" "quiet_faults (warehouse s)" "next_is (warehouse s) from"
  shows "case Run S from events s of
      (Inr _, t) \<Rightarrow>
        (case coverage_of (tab (warehouse t)) of None \<Rightarrow> True | Some c \<Rightarrow> st_next (stream t) = covHead c + 1) \<and>
        (st_next (stream t) = 0 \<or> (\<exists>h. head_of (stream t) (st_next (stream t) - 1) = Some h \<and> Seen h))
    | (Inl e, t) \<Rightarrow> True"
proof -
  have seen: "Seen h" if "stream_ok Seen st" "head_of st n = Some h" for st n h
    using stream_ok_head [OF that] by blast
  show ?thesis
    using Run_on_store [OF assms(1-3), of s "from"] assms(4-) seen
    by (fastforce simp: store_ok_def next_is_def anchored_def split: prod.splits sum.splits option.splits)
qed

text \<open>
  C16. The loop ends or waits: no call of it runs for ever, for every \<open>ordinary\<close> node (it answers the
  height it was asked for, no head is at 2 ^ 62 or above, the span cap is not 2 ^ 64 - 1) and every
  sequence of events that announces such heads. The bounds of the model (fuel for \<open>record\<close>, for the
  attempts of a batch, for the walks and loops) are enough there, so an error that ends \<open>Run\<close> is one of
  the code's own. With the span cap 2 ^ 64 - 1 the paginator's walk does not advance.
\<close>

theorem Run_ends:
  assumes "s_sink S = store_sink" "ordinary S Seen" "\<forall>ev \<in> set events. event_ok Seen ev"
    and "warehouse_ok (tab (warehouse s))" "quiet_faults (warehouse s)" "next_is (warehouse s) from"
    and "Run S from events s = (Inl e, t)"
  shows "Diverges \<notin> set (err_chain e)"
  using Run_on_store [OF assms(1-3), of s "from"] assms(4-)
  by (auto simp: store_ok_def goes_on_def)

text \<open>
  A batch as it is handed over: of at most ten consecutive heights, confirmed; the headers of its
  heights, linked; and, in this order and in this run, whose node was in the state \<open>p0\<close> at its start,
  a fetch of the logs of exactly these heights, whose every log carries the hash of its header, and
  directly after it the second reading of every block that has no log.
\<close>

definition written_batch ::
  "('p, 'd) subscriber \<Rightarrow> (block_head \<Rightarrow> bool) \<Rightarrow> 'p \<Rightarrow> u64 \<Rightarrow> u64 \<Rightarrow> block list \<Rightarrow> log list \<Rightarrow> bool" where
  "written_batch S Seen p0 from to blocks kept \<longleftrightarrow>
     from \<le> to \<and> to - from < 10 \<and> confirmed (ConfirmationBlocks (s_cfg S)) Seen to \<and>
     (\<exists>hs. headers_ok Seen from to hs \<and> blocks = map block_of hs \<and>
       (\<exists>p raw logs q. asked S p0 p \<and>
          FetchIngestionLogs (s_keccak S) (s_client S) (s_spanCap S) from to p = (Inr logs, q) \<and>
          fetched (s_keccak S) (s_client S) from to raw \<and> logs = sort_key log_key raw \<and>
          kept = filter (\<lambda>l. Keep (s_keccak S) (logTopics l) (logAddress l)) logs \<and>
          (\<forall>l \<in> set logs. from \<le> logBlockNumber l \<and> logBlockNumber l \<le> to \<longrightarrow>
             logBlockHash l \<noteq> 0 \<and> (\<exists>h \<in> set hs. headNumber h = logBlockNumber l \<and> headHash h = logBlockHash l)) \<and>
          reread_in_turn (s_client S) (filter (\<lambda>b. \<forall>l \<in> set logs. logBlockNumber l \<noteq> blkNumber b) blocks) q))"

lemma written_batchI:
  assumes S: "ordinary S Seen" and g: "good_batch S Seen f t bs ls" and a: "asked S p0 p" and r: "reads_batch S p f t bs ls"
  shows "written_batch S Seen p0 f t bs ls"
proof -
  obtain hs where le: "f \<le> t" "t - f < 10" and conf: "confirmed (ConfirmationBlocks (s_cfg S)) Seen t"
    and hs: "headers_ok Seen f t hs" "bs = map block_of hs"
    using g by (auto simp: good_batch_def)
  obtain logs q where q: "FetchIngestionLogs (s_keccak S) (s_client S) (s_spanCap S) f t p = (Inr logs, q)"
    and agree: "disagreeingHeights logs bs = []" and again: "reread_in_turn (s_client S) (logless logs bs) q"
    and ls: "ls = filter (\<lambda>l. Keep (s_keccak S) (logTopics l) (logAddress l)) logs"
    using r by (auto simp: reads_batch_def)
  have "plausible (headNumber h)" if "Seen h" for h
    using S that by (simp add: ordinary_def node_heads_def)
  then have "plausible t" using conf by (fastforce simp: confirmed_def plausible_nat)
  then have bound: "unat t + 1000000 < 2 ^ 64" by (simp add: plausible_nat)
  have plain: "plain_errors (s_client S) (Topics (s_keccak S))" and cap: "s_spanCap S \<noteq> - 1"
    using S by (simp_all add: ordinary_def)
  obtain raw where raw: "fetched (s_keccak S) (s_client S) f t raw" "logs = sort_key log_key raw"
    using fetch_loop_fetched [OF q [unfolded FetchIngestionLogs_def] le(1) cap bound plain] by blast
  have hash: "logBlockHash l \<noteq> 0 \<and> (\<exists>h \<in> set hs. headNumber h = logBlockNumber l \<and> headHash h = logBlockHash l)"
    if "l \<in> set logs" "f \<le> logBlockNumber l" "logBlockNumber l \<le> t" for l
    by (rule disagreeingHeights_Nil [OF agree [unfolded hs(2)] that(1)]) (use that headers_numbers [OF hs(1)] in simp)
  have "logless logs bs = filter (\<lambda>b. \<forall>l \<in> set logs. logBlockNumber l \<noteq> blkNumber b) bs"
    unfolding logless_def by (rule filter_cong [OF refl]) force
  with again have "reread_in_turn (s_client S) (filter (\<lambda>b. \<forall>l \<in> set logs. logBlockNumber l \<noteq> blkNumber b) bs) q" by simp
  then show ?thesis
    unfolding written_batch_def using le conf hs a q raw ls hash by blast
qed

text \<open>
  C14. What is written: every batch handed to the writer covers at most ten consecutive heights, all
  buried under the confirmation lag; its block rows are headers of the node, each the child of
  the one below and the first the child of the held head below the batch; its logs are what
  \<open>eth_getLogs\<close> and receipts answered for exactly these heights, fetched in this run, less the shapes
  that are not kept; every log carries the hash of its header; and the blocks without any log were
  read again after that fetch, one after the other from the state the fetch left the node in, and
  each still had its hash.
\<close>

theorem Run_writes_good:
  assumes "s_sink S = with_ledger store_sink" "ordinary S Seen" "\<forall>ev \<in> set events. event_ok Seen ev"
    and "warehouse s = (d, [])" "warehouse_ok (tab d)" "quiet_faults d" "next_is d from"
  shows "\<forall>(f, t, blocks, logs) \<in> set (snd (warehouse (snd (Run S from events s)))).
    written_batch S Seen (provider s) f t blocks logs"
proof -
  obtain r t where run: "Run S from events s = (r, t)" by fastforce
  have F: "follows (with_ledger store_sink) (\<lambda>f t bs ls. good_batch S Seen f t bs ls \<and> batch_covers f t bs ls) S Seen"
    by (rule ordinary_follows [OF assms(2,1)]) (use good_batch_covers [OF assms(2)] in blast)
  have start: "ledger_ok (good_batch S Seen) (warehouse s) \<and> ledger_at (warehouse s) from"
    using assms(4-) by (simp add: ledger_ok_def ledger_at_def store_ok_def)
  note T = ledger.Run_track [OF F assms(3)]
  have good: "ledger_ok (good_batch S Seen) (warehouse t)"
    using triple_value [OF T start] triple_error [OF T start] run
    by (cases r) (auto simp: ledger.at_position_def ledger.ended_def)
  have S: "S\<lparr>s_sink := with_ledger store_sink\<rparr> = S" using assms(1) by simp
  have "in_order.both store_sink S (provider s) s"
    unfolding in_order.both_def using assms(4) by (simp add: S asked_start batches_read_def)
  from in_order.keepsD [OF in_order.keeps_Run this] have "in_order.both store_sink S (provider s) t"
    using run by (simp only: S)
  then have read: "batches_read S (provider s) (warehouse t)"
    unfolding in_order.both_def unfolding S by (rule conjunct2)
  show ?thesis
    using good read written_batchI [OF assms(2)] by (fastforce simp: run ledger_ok_def batches_read_def)
qed

section \<open>A node, a start and a run\<close>

text \<open>A chain of 21 blocks with one log each, kept when every signature is the hash 1.\<close>

definition kept_at :: "u64 \<Rightarrow> log" where
  "kept_at n = (log_at n)\<lparr>logTopics := [1, 2]\<rparr>"

definition small_node :: "unit eth_client" where
  "small_node = (capped_node 0)\<lparr>
     FilterLogsOp := \<lambda>f t topics. if t \<le> 20 then ret (map kept_at (heights f t)) else throw (ErrNew ''unknown block''),
     HeadByNumberOp := \<lambda>n. if n \<le> 20 then ret (head_at n) else throw (ErrNew ''unknown block''),
     BlockReceiptsOp := \<lambda>n. throw (ErrNew ''unavailable'')\<rparr>"

definition small_heads :: "block_head \<Rightarrow> bool" where
  "small_heads h \<longleftrightarrow> h \<in> head_at ` {..20}"

definition follower :: "'d sink \<Rightarrow> (unit, 'd) subscriber" where
  "follower k = \<lparr>s_client = small_node, s_spanCap = 0, s_keccak = \<lambda>_. 1, s_sink = k,
     s_cfg = \<lparr>MaxCatchupBlocks = 0, ConfirmationBlocks = 2, HeadTimeout = 60, HeadTimeoutText = ''1m0s''\<rparr>\<rparr>"

definition start_from :: "'d \<Rightarrow> (unit, 'd) run" where
  "start_from d = \<lparr>provider = (), warehouse = d, stream = \<lparr>st_next = 0, st_lowerBound = 0, st_tip = 0, st_heads = []\<rparr>\<rparr>"

lemma small_node_heads: "node_heads small_node small_heads"
proof -
  have "n \<le> 20 \<Longrightarrow> plausible n" for n by (rule plausible_mono [of n 20]) (simp_all add: plausible_nat)
  then show ?thesis
    by (auto simp: node_heads_def small_node_def capped_node_def small_heads_def head_at_def ret_def throw_def split: if_splits)
qed

lemma small_node_errors: "client_errors outside small_node" "plain_errors small_node topics"
  by (auto simp: client_errors_def plain_errors_def small_node_def capped_node_def ret_def throw_def outside_def
      errors_Is_def errors_As_def as_deep_def as_gap_def as_overflow_def goes_on_def split: if_splits)

lemma small_node_logs: "node_logs small_node"
proof -
  have fits: "n \<le> t \<Longrightarrow> t \<le> 20 \<Longrightarrow> fits_int64 n" for n t :: u64
    by (rule fits_int64_mono [of n 20]) (simp_all add: fits_int64_nat)
  show ?thesis
    by (auto simp: node_logs_def small_node_def capped_node_def ret_def throw_def set_heights kept_at_def log_at_def
        evm_log_def split: if_splits intro: fits)
qed

lemma follower_ordinary: "ordinary (follower k) small_heads"
  using small_node_heads small_node_errors small_node_logs by (simp add: ordinary_def follower_def)

definition some_events :: "event list" where
  "some_events = [Heads (head_at 6) [head_at 7], Silent]"

lemma some_events_ok: "\<forall>ev \<in> set some_events. event_ok small_heads ev"
proof -
  have "small_heads (head_at n)" if "n \<le> 20" for n using that by (simp add: small_heads_def)
  then show ?thesis by (simp add: some_events_def event_ok_def event_heads_def)
qed

lemma start_ok: "warehouse_ok (tab (connect fresh_tables))" "quiet_faults (connect fresh_tables)"
  "next_is (connect fresh_tables) n"
  using fresh_ok by (simp_all add: quiet_faults_def next_is_def fresh_coverage connect_def)

definition started :: "(unit, pg) run" where
  "started = start_from (connect fresh_tables)"

lemma started_ok: "warehouse_ok (tab (warehouse started))" "quiet_faults (warehouse started)" "next_is (warehouse started) n"
  using start_ok by (simp_all add: started_def start_from_def)

lemma follower_store: "s_sink (follower k) = k"
  by (simp add: follower_def)

definition some_run :: "(err + unit) \<times> (unit, pg) run" where
  "some_run = Run (follower store_sink) 5 some_events started"

theorem Run_keeps_warehouse_ok_witness:
  "warehouse_ok (tab (warehouse (snd some_run))) \<and> map b_number (eth_blocks (tab (warehouse (snd some_run)))) = [5]"
proof
  show "warehouse_ok (tab (warehouse (snd some_run)))"
    unfolding some_run_def
    by (rule Run_keeps_warehouse_ok [OF follower_store follower_ordinary some_events_ok started_ok])
  show "map b_number (eth_blocks (tab (warehouse (snd some_run)))) = [5]"
    by code_simp
qed

theorem Run_position_witness:
  "\<exists>t. Run (follower store_sink) 5 [Heads (head_at 6) [head_at 7]] started = (Inr (), t) \<and>
     st_next (stream t) = 6 \<and> (\<exists>h. head_of (stream t) 5 = Some h \<and> small_heads h)"
proof -
  let ?run = "Run (follower store_sink) 5 [Heads (head_at 6) [head_at 7]] started"
  have "fst ?run = Inr ()" "st_next (stream (snd ?run)) = 6" by code_simp+
  moreover have "\<forall>ev \<in> set [Heads (head_at 6) [head_at 7]]. event_ok small_heads ev"
    using some_events_ok by (simp add: some_events_def)
  note Run_position [OF follower_store follower_ordinary this started_ok, of 5]
  ultimately show ?thesis by (cases ?run) auto
qed

theorem Run_ends_witness:
  "\<exists>e t. some_run = (Inl e, t) \<and> Diverges \<notin> set (err_chain e)"
proof -
  have "isl (fst some_run)" by code_simp
  then obtain e where "fst some_run = Inl e" by (auto simp: isl_def)
  then have run: "some_run = (Inl e, snd some_run)" by (simp add: prod_eq_iff)
  with Run_ends [OF follower_store follower_ordinary some_events_ok started_ok run [unfolded some_run_def]] show ?thesis by blast
qed

theorem Run_writes_good_witness:
  "written_batch (follower (with_ledger store_sink)) small_heads () 5 5 [block_of (head_at 5)] [kept_at 5]"
proof -
  let ?run = "Run (follower (with_ledger store_sink)) 5 some_events (start_from (connect fresh_tables, []))"
  have run: "snd (warehouse (snd ?run)) = [(5, 5, [block_of (head_at 5)], [kept_at 5])]"
    by code_simp
  have "warehouse (start_from (connect fresh_tables, [])) = (connect fresh_tables, [])" by (simp add: start_from_def)
  from Run_writes_good [OF follower_store follower_ordinary some_events_ok this start_ok, of 5] run show ?thesis by simp
qed

end
