(* ===== verification/Mirror.thy ===== *)
theory Mirror
  imports Following ApiErrors
begin

text \<open>
  The whole path from the chain to an answer. When the node serves one chain, the tables are at all
  times the mirror of that chain over the published coverage: \<open>mirror\<close> is the abstract
  specification of the warehouse, a function of the chain and an interval, and the interpretation
  \<open>mirrored\<close> shows that every operation of the store refines it. With the exactness of
  \<open>eth_getLogs\<close> this gives what a client of the API sees.
\<close>

section \<open>The mirror of a chain\<close>

text \<open>A chain is its headers \<open>H\<close> and, at each height, the logs \<open>K\<close> that are to be stored.\<close>

definition chain_ok :: "(u64 \<Rightarrow> block_head) \<Rightarrow> (u64 \<Rightarrow> log list) \<Rightarrow> bool" where
  "chain_ok H K \<longleftrightarrow> (\<forall>n. headNumber (H n) = n) \<and> (\<forall>n. \<forall>l \<in> set (K n). logBlockNumber l = n)"

definition chain_blocks :: "(u64 \<Rightarrow> block_head) \<Rightarrow> u64 set \<Rightarrow> block_row set" where
  "chain_blocks H N = (\<lambda>n. BlockRow (block_of (H n))) ` N"

definition chain_rows :: "(u64 \<Rightarrow> log list) \<Rightarrow> u64 set \<Rightarrow> log_row set" where
  "chain_rows K N = (\<Union>n \<in> N. LogRow ` set (K n))"

definition mirror :: "(u64 \<Rightarrow> block_head) \<Rightarrow> (u64 \<Rightarrow> log list) \<Rightarrow> tables \<Rightarrow> bool" where
  "mirror H K t \<longleftrightarrow>
     (case coverage_of t of
        None \<Rightarrow> eth_blocks t = [] \<and> eth_logs t = []
      | Some c \<Rightarrow>
          set (eth_blocks t) = chain_blocks H {covStart c..covHead c} \<and>
          set (eth_logs t) = chain_rows K {covStart c..covHead c} \<and>
          (\<forall>n \<in> {covStart c..covHead c}. \<forall>l \<in> set (K n). wf_log l))"

definition chain_batch :: "(u64 \<Rightarrow> block_head) \<Rightarrow> (u64 \<Rightarrow> log list) \<Rightarrow> u64 \<Rightarrow> u64 \<Rightarrow> block list \<Rightarrow> log list \<Rightarrow> bool" where
  "chain_batch H K f t bs ls \<longleftrightarrow> batch_covers f t bs ls \<and> chain_ok H K \<and>
     bs = map (\<lambda>n. block_of (H n)) (heights f t) \<and> ls = concat (map K (heights f t))"

lemma set_heights_interval: "set (heights f t) = {f..t}"
  by (simp add: set_heights set_eq_iff)

lemma chain_Un: "chain_blocks H (M \<union> N) = chain_blocks H M \<union> chain_blocks H N"
  "chain_rows K (M \<union> N) = chain_rows K M \<union> chain_rows K N"
  by (simp_all add: chain_blocks_def chain_rows_def image_Un)

lemma chain_batch_rows:
  "chain_batch H K f t bs ls \<Longrightarrow> BlockRow ` set bs = chain_blocks H {f..t}"
  "chain_batch H K f t bs ls \<Longrightarrow> LogRow ` set ls = chain_rows K {f..t}"
  "chain_batch H K f t bs ls \<Longrightarrow> \<forall>n \<in> {f..t}. \<forall>l \<in> set (K n). wf_log l"
  by (auto simp: chain_batch_def chain_blocks_def chain_rows_def set_heights_interval batch_covers_def)

text \<open>A condition on the height of a row selects heights of the chain.\<close>

lemma chain_blocks_filter:
  assumes "chain_ok H K" "\<And>n. n \<in> N \<Longrightarrow> P (int64 n) = Q n"
  shows "{b \<in> chain_blocks H N. P (b_number b)} = chain_blocks H {n \<in> N. Q n}"
  using assms by (auto simp: chain_blocks_def chain_ok_def block_of_def)

lemma chain_rows_filter:
  assumes "chain_ok H K" "\<And>n. n \<in> N \<Longrightarrow> P (int64 n) = Q n"
  shows "{r \<in> chain_rows K N. P (r_block_number r)} = chain_rows K {n \<in> N. Q n}"
proof -
  have "r_block_number (LogRow l) = int64 n" if "l \<in> set (K n)" for l n
    using assms(1) that by (simp add: chain_ok_def)
  then show ?thesis
    using assms(2) by (auto simp: chain_rows_def)
qed

lemma suc_le_iff: "fits_int64 (a :: u64) \<Longrightarrow> a + 1 \<le> n \<longleftrightarrow> a < n"
  using int64_suc [of a] by (auto simp: word_le_def word_less_def int64_eq_uint)

lemma join_intervals:
  assumes "fits_int64 h" "a \<le> h" "h \<le> t"
  shows "{a..t} = {a..h} \<union> {h + 1..(t :: u64)}"
proof (rule set_eqI)
  fix n
  show "n \<in> {a..t} \<longleftrightarrow> n \<in> {a..h} \<union> {h + 1..t}"
  proof (cases "n \<le> h")
    case True
    then show ?thesis using suc_le_iff [OF assms(1), of n] order_trans [OF True assms(3)] leD by auto
  next
    case False
    then have "h < n" "a \<le> n" using assms(2) by simp_all
    then show ?thesis using suc_le_iff [OF assms(1), of n] False by simp
  qed
qed

lemma cleared_rows:
  "set (eth_blocks (cleared f t t0)) = {b \<in> set (eth_blocks t0). \<not> (int64 f \<le> b_number b \<and> b_number b \<le> int64 t)}"
  "set (eth_logs (cleared f t t0)) = {r \<in> set (eth_logs t0). \<not> (int64 f \<le> r_block_number r \<and> r_block_number r \<le> int64 t)}"
  by (auto simp: cleared_def delete_blocks_between_def delete_logs_between_def)

lemma mirror_write:
  assumes ok: "warehouse_ok t0" and m: "mirror H K t0" and b: "chain_batch H K f t bs ls"
    and w: "write_committed f t bs ls t0 t1" and at: "\<And>c. coverage_of t0 = Some c \<Longrightarrow> covHead c + 1 = f"
  shows "mirror H K t1"
proof -
  note fields = write_committed_fields [OF w]
  have ch: "chain_ok H K" and le: "f \<le> t" and pl: "plausible t"
    using b by (auto simp: chain_batch_def batch_covers_def)
  show ?thesis
  proof (cases "coverage_of t0")
    case None
    then have "eth_blocks t0 = []" "eth_logs t0 = []" using m by (simp_all add: mirror_def)
    then have "eth_blocks (cleared f t t0) = []" "eth_logs (cleared f t t0) = []"
      by (simp_all add: cleared_def delete_blocks_between_def delete_logs_between_def)
    then show ?thesis
      using None fields(1,2,4) chain_batch_rows [OF b] by (simp add: mirror_def extended_coverage_def)
  next
    case (Some c)
    have fc: "fits_int64 (covHead c)" "covStart c \<le> covHead c" using coverage_of_Some [OF ok Some] by blast+
    have f: "f = covHead c + 1" using at [OF Some] by simp
    have below: "n < f" if "n \<le> covHead c" for n
      using that suc_le_iff [OF fc(1), of n] f by (metis not_le)
    have ft: "fits_int64 f" using plausible_fits [OF pl] le fits_int64_mono by blast
    have old: "\<not> (int64 f \<le> int64 n \<and> int64 n \<le> int64 t)" if "n \<in> {covStart c..covHead c}" for n
      using below [of n] fits_int64_mono [OF _ fc(1), of n] ft that by (auto simp: int64_le_iff dest: leD)
    have interval: "{n. covStart c \<le> n \<and> n \<le> covHead c} = {covStart c..covHead c}" by auto
    have "set (eth_blocks (cleared f t t0)) = chain_blocks H {covStart c..covHead c}"
      "set (eth_logs (cleared f t t0)) = chain_rows K {covStart c..covHead c}"
      using m Some chain_blocks_filter [OF ch, where N = "{covStart c..covHead c}" and Q = "\<lambda>_. True"
          and P = "\<lambda>i. \<not> (int64 f \<le> i \<and> i \<le> int64 t)"]
        chain_rows_filter [OF ch, where N = "{covStart c..covHead c}" and Q = "\<lambda>_. True"
          and P = "\<lambda>i. \<not> (int64 f \<le> i \<and> i \<le> int64 t)"] old
      by (simp_all add: mirror_def cleared_rows interval)
    moreover have ends: "covStart c \<le> f" "covHead c \<le> t"
      using below [OF fc(2)] below [of "covHead c"] le by simp_all
    then have "coverage_of t1 = Some \<lparr>covStart = covStart c, covHead = t\<rparr>"
      using fields(4) by (simp add: Some extended_coverage_def min_absorb1 max_absorb2)
    moreover have "{covStart c..t} = {covStart c..covHead c} \<union> {f..t}"
      using join_intervals [OF fc(1,2)] ends(2) le unfolding f by blast
    ultimately show ?thesis
      using fields(1,2) chain_batch_rows [OF b] m Some by (simp add: mirror_def chain_Un ball_Un)
  qed
qed

lemma mirror_rewind:
  assumes ok: "warehouse_ok t0" and m: "mirror H K t0" and ch: "chain_ok H K" and r: "rewound n t0 t1"
  shows "mirror H K t1"
proof -
  obtain c where c: "coverage_of t0 = Some c" "covStart c \<le> n" "n < covHead c"
    and t1: "t1 = (delete_blocks_above (int64 n) (delete_logs_above (int64 n) t0))
           \<lparr>ingest_cursor := Some (int64 (covStart c), int64 n)\<rparr>"
    using r by (auto simp: rewound_by_deletes)
  have fc: "fits_int64 (covHead c)" using coverage_of_Some [OF ok c(1)] by blast
  have "int64 n < int64 k \<longleftrightarrow> n < k" if "k \<le> covHead c" for k
    using that fits_int64_mono [OF _ fc] c(3) by (simp add: int64_less_iff)
  then have above: "(\<not> int64 n < int64 k) = (k \<le> n)" if "k \<in> {covStart c..covHead c}" for k
    using that by (simp add: not_less)
  have rows: "set (eth_blocks t1) = {b \<in> set (eth_blocks t0). \<not> int64 n < b_number b}"
    "set (eth_logs t1) = {r \<in> set (eth_logs t0). \<not> int64 n < r_block_number r}"
    by (auto simp: t1 delete_blocks_above_def delete_logs_above_def)
  have "coverage_of t1 = Some \<lparr>covStart = covStart c, covHead = n\<rparr>" by (simp add: t1 coverage_of_def)
  moreover have "{k \<in> {covStart c..covHead c}. k \<le> n} = {covStart c..n}" using c(3) by auto
  moreover have "wf_log l" if "k \<in> {covStart c..n}" "l \<in> set (K k)" for k l
    using m c(1,3) that by (auto simp: mirror_def)
  then have wf: "\<forall>k \<in> {covStart c..n}. \<forall>l \<in> set (K k). wf_log l" by blast
  ultimately show ?thesis
    using m c(1) wf chain_blocks_filter [OF ch, where P = "\<lambda>i. \<not> int64 n < i" and N = "{covStart c..covHead c}", OF above]
      chain_rows_filter [OF ch, where P = "\<lambda>i. \<not> int64 n < i" and N = "{covStart c..covHead c}", OF above]
    by (simp add: mirror_def rows)
qed

section \<open>Following a chain keeps the mirror\<close>

text \<open>
  The invariant of the loop over the store, strengthened by the mirror; the laws of the sink hold
  of it for the batches cut from the chain.
\<close>

definition mirror_ok :: "(u64 \<Rightarrow> block_head) \<Rightarrow> (u64 \<Rightarrow> log list) \<Rightarrow> pg \<Rightarrow> bool" where
  "mirror_ok H K d \<longleftrightarrow> store_ok d \<and> chain_ok H K \<and> mirror H K (tab d)"

lemma mirror_ok_tables: "mirror_ok H K d \<Longrightarrow> store_ok d' \<Longrightarrow> tab d' = tab d \<or> mirror H K (tab d') \<Longrightarrow> mirror_ok H K d'"
  by (auto simp: mirror_ok_def)

lemma mirror_WriteRange:
  assumes d: "mirror_ok H K d" "next_is d f" and b: "chain_batch H K f t bs ls" and run: "WriteRange f t bs ls d = (r, d')"
  shows "tab d' = tab d \<or> mirror H K (tab d')"
proof -
  have ok: "warehouse_ok (tab d)" "mirror H K (tab d)" using d(1) by (simp_all add: mirror_ok_def store_ok_def)
  have at: "covHead c + 1 = f" if "coverage_of (tab d) = Some c" for c using d(2) that by (simp add: next_is_def)
  show ?thesis using WriteRange_tables [OF run] mirror_write [OF ok b _ at] by blast
qed

lemma mirror_Rewind:
  assumes d: "mirror_ok H K d" and run: "Rewind n d = (r, d')"
  shows "tab d' = tab d \<or> mirror H K (tab d')"
proof -
  have ok: "warehouse_ok (tab d)" "mirror H K (tab d)" "chain_ok H K" using d by (simp_all add: mirror_ok_def store_ok_def)
  show ?thesis
    using Rewind_commits [of n d] run mirror_rewind [OF ok] by (cases r) (auto simp: all_or_nothing_def)
qed

text \<open>A law of the store that keeps an extra fact of the tables.\<close>

lemma triple_strengthen:
  assumes "triple (\<lambda>d. store_ok d \<and> At d) m (\<lambda>_ d. store_ok d \<and> At' d) (\<lambda>e d. store_ok d \<and> outside e)"
    and "\<And>d r d'. mirror_ok H K d \<Longrightarrow> At d \<Longrightarrow> m d = (r, d') \<Longrightarrow> tab d' = tab d \<or> mirror H K (tab d')"
  shows "triple (\<lambda>d. mirror_ok H K d \<and> At d) m (\<lambda>_ d. mirror_ok H K d \<and> At' d) (\<lambda>e d. mirror_ok H K d \<and> outside e)"
proof (rule tripleI)
  fix d x d' assume d: "mirror_ok H K d \<and> At d" "m d = (Inr x, d')"
  have "store_ok d' \<and> At' d'" using triple_value [OF assms(1) _ d(2)] d(1) by (simp add: mirror_ok_def)
  then show "mirror_ok H K d' \<and> At' d'" using assms(2) [OF _ _ d(2)] d(1) mirror_ok_tables by blast
next
  fix d e d' assume d: "mirror_ok H K d \<and> At d" "m d = (Inl e, d')"
  have "store_ok d' \<and> outside e" using triple_error [OF assms(1) _ d(2)] d(1) by (simp add: mirror_ok_def)
  then show "mirror_ok H K d' \<and> outside e" using assms(2) [OF _ _ d(2)] d(1) mirror_ok_tables by blast
qed

interpretation mirrored: sink_contract store_sink "mirror_ok H K" next_is "chain_batch H K"
  for H :: "u64 \<Rightarrow> block_head" and K :: "u64 \<Rightarrow> log list"
proof unfold_locales
  show "triple (\<lambda>d. mirror_ok H K d \<and> next_is d m) (StoredBlockHashOp store_sink n)
      (\<lambda>_ d. mirror_ok H K d \<and> next_is d m) (\<lambda>e d. mirror_ok H K d \<and> outside e)" for m n
    unfolding store_sink_def sink.simps
    by (rule triple_strengthen [OF StoredBlockHash_law]) (auto dest: StoredBlockHash_tables)
  show "triple (\<lambda>d. mirror_ok H K d \<and> next_is d f) (WriteRangeOp store_sink f t bs ls)
      (\<lambda>_ d. mirror_ok H K d \<and> next_is d (t + 1)) (\<lambda>e d. mirror_ok H K d \<and> outside e)"
    if "chain_batch H K f t bs ls" for f t bs ls
    unfolding store_sink_def sink.simps
    by (rule triple_strengthen [OF WriteRange_law mirror_WriteRange [OF _ _ that]]) (use that in \<open>auto simp: chain_batch_def\<close>)
  show "triple (\<lambda>d. mirror_ok H K d \<and> next_is d m) (RewindOp store_sink n)
      (\<lambda>_ d. mirror_ok H K d \<and> next_is d (n + 1)) (\<lambda>e d. mirror_ok H K d \<and> outside e)" for m n
    unfolding store_sink_def sink.simps
    by (rule triple_strengthen [OF Rewind_law]) (auto dest: mirror_Rewind)
qed

text \<open>
  A node that serves one chain: every head it answers or announces is the chain's, and every log
  query and block of receipts are the chain's logs. It may fail at any time.
\<close>

definition kept_logs :: "keccak \<Rightarrow> (u64 \<Rightarrow> log list) \<Rightarrow> u64 \<Rightarrow> log list" where
  "kept_logs kc L n = filter (\<lambda>l. Keep kc (logTopics l) (logAddress l)) (L n)"

lemma kept_logs_fun: "kept_logs kc L = (\<lambda>n. filter (\<lambda>l. Keep kc (logTopics l) (logAddress l)) (L n))"
  by (rule ext) (simp add: kept_logs_def)

definition one_chain :: "('p, 'd) subscriber \<Rightarrow> (block_head \<Rightarrow> bool) \<Rightarrow> (u64 \<Rightarrow> block_head) \<Rightarrow> (u64 \<Rightarrow> log list) \<Rightarrow> bool" where
  "one_chain S Seen H L \<longleftrightarrow> (\<forall>h. Seen h \<longrightarrow> h = H (headNumber h)) \<and> (\<forall>n. headNumber (H n) = n) \<and>
     node_chain (s_keccak S) (s_client S) L"

lemma one_chain_ok: "one_chain S Seen H L \<Longrightarrow> chain_ok H (kept_logs (s_keccak S) L)"
  by (simp add: one_chain_def chain_ok_def node_chain_def kept_logs_def)

lemma good_batch_chain:
  assumes S: "ordinary S Seen" and C: "one_chain S Seen H L" and g: "good_batch S Seen f t bs ls"
  shows "chain_batch H (kept_logs (s_keccak S) L) f t bs ls"
proof -
  obtain hs raw where hs: "headers_ok Seen f t hs" "bs = map block_of hs"
    and raw: "fetched (s_keccak S) (s_client S) f t raw"
    and ls: "ls = filter (\<lambda>l. Keep (s_keccak S) (logTopics l) (logAddress l)) (sort_key log_key raw)"
    using g unfolding good_batch_def by blast
  have nums: "map headNumber hs = heights f t" using hs(1) by (simp add: headers_ok_def)
  have "map (\<lambda>h. H (headNumber h)) hs = map (\<lambda>h. h) hs"
    by (rule map_cong [OF refl]) (use hs(1) C in \<open>simp add: headers_ok_def one_chain_def\<close>)
  then have H: "map H (heights f t) = hs" by (simp add: comp_def flip: nums)
  then have bs: "bs = map (\<lambda>n. block_of (H n)) (heights f t)"
    using hs(2) by (simp add: comp_def flip: H)
  have node: "node_chain (s_keccak S) (s_client S) L" using C by (simp add: one_chain_def)
  have sorted: "sorted (map log_key (concat (map L (heights f t))))"
    by (rule chain_sorted [OF _ sorted_heights]) (use node in \<open>simp add: node_chain_def\<close>)
  have "sort_key log_key raw = concat (map L (heights f t))"
    using fetched_chain [OF raw node] sorted by (simp add: sort_key_id_if_sorted)
  then have "ls = concat (map (kept_logs (s_keccak S) L) (heights f t))"
    by (simp add: ls filter_concat comp_def kept_logs_fun)
  then show ?thesis
    using bs good_batch_covers [OF S g] one_chain_ok [OF C] by (simp add: chain_batch_def)
qed

lemma Run_mirror:
  assumes "s_sink S = store_sink" "ordinary S Seen" "one_chain S Seen H L" "\<forall>ev \<in> set events. event_ok Seen ev"
    and "store_ok (warehouse s)" "mirror H (kept_logs (s_keccak S) L) (tab (warehouse s))" "next_is (warehouse s) from"
    and run: "Run S from events s = (r, t)"
  shows "mirror H (kept_logs (s_keccak S) L) (tab (warehouse t)) \<and> store_ok (warehouse t)"
proof -
  let ?K = "kept_logs (s_keccak S) L"
  note T = mirrored.Run_track [OF ordinary_follows [OF assms(2,1) good_batch_chain [OF assms(2,3)]] assms(4)]
  have start: "mirror_ok H ?K (warehouse s) \<and> next_is (warehouse s) from"
    using assms(5-7) one_chain_ok [OF assms(3)] by (simp add: mirror_ok_def)
  have "mirror_ok H ?K (warehouse t)"
    using triple_value [OF T start] triple_error [OF T start] run
    by (cases r) (auto simp: mirrored.at_position_def mirrored.ended_def)
  then show ?thesis by (simp add: mirror_ok_def)
qed

section \<open>The answer to a client\<close>

text \<open>The logs of a chain as they are served: in chain order, each under its header.\<close>

definition chain_answer :: "(u64 \<Rightarrow> block_head) \<Rightarrow> (u64 \<Rightarrow> log list) \<Rightarrow> u64 \<Rightarrow> u64 \<Rightarrow> log list" where
  "chain_answer H K from to = concat (map (\<lambda>n. map (served (block_of (H n))) (K n)) (heights from to))"

definition strict_chain :: "(u64 \<Rightarrow> log list) \<Rightarrow> bool" where
  "strict_chain K \<longleftrightarrow> (\<forall>n. sorted_wrt (<) (map logIndex (K n)))"

lemma same_by_key:
  assumes "sorted_wrt (<) (map (key :: 'a \<Rightarrow> 'k :: linorder) xs)" "sorted_wrt (<) (map key ys)" "set xs = set ys"
  shows "xs = ys"
proof -
  have keys: "map key xs = map key ys"
    using assms by (intro sorted_distinct_set_unique) (auto simp: strict_sorted_iff)
  have "inj_on key (set xs \<union> set ys)"
    using assms(1,3) by (simp add: strict_sorted_iff distinct_map)
  then show ?thesis using keys map_inj_on by blast
qed

lemma chain_concat_strict:
  assumes "strict_chain K" "chain_ok H K" and "\<And>n l. logBlockNumber (f n l) = logBlockNumber l \<and> logIndex (f n l) = logIndex l"
  shows "sorted_wrt (<) ns \<Longrightarrow> sorted_wrt (<) (map log_key (concat (map (\<lambda>n. map (f n) (K n)) ns)))"
proof (induction ns)
  case (Cons n ns)
  have key: "log_key (f m l) = (m, logIndex l)" if "l \<in> set (K m)" for m l
    using assms(2,3) that by (simp add: log_key_def chain_ok_def)
  have "sorted_wrt (\<lambda>x y. log_key (f n x) < log_key (f n y)) (K n)"
    using assms(1) unfolding strict_chain_def sorted_wrt_map
    by (rule sorted_wrt_mono_rel [rotated, OF spec [of _ n]]) (simp add: key less_prod_def)
  moreover have "log_key (f n x) < log_key (f m y)" if "x \<in> set (K n)" "m \<in> set ns" "y \<in> set (K m)" for x m y
    using that Cons.prems by (simp add: key less_prod_def)
  ultimately show ?case
    using Cons by (auto simp: sorted_wrt_append sorted_wrt_map)
qed simp

lemma joined_iff: "(r, b) \<in> set (joined t) \<longleftrightarrow> r \<in> set (eth_logs t) \<and> b \<in> set (eth_blocks t) \<and> b_number b = r_block_number r"
  by (auto simp: joined_def)

lemma stored_logs_mirror:
  assumes ok: "warehouse_ok t" and m: "mirror H K t" and ch: "chain_ok H K" "strict_chain K" and c: "coverage_of t = Some c"
  shows "stored_logs t = chain_answer H K (covStart c) (covHead c)"
proof (rule same_by_key [where key = log_key])
  show "sorted_wrt (<) (map log_key (stored_logs t))" by (rule stored_logs_sorted [OF ok])
  show "sorted_wrt (<) (map log_key (chain_answer H K (covStart c) (covHead c)))"
    unfolding chain_answer_def by (rule chain_concat_strict [OF ch(2,1) _ sorted_heights]) (simp add: served_def)
  have blocks: "set (eth_blocks t) = chain_blocks H {covStart c..covHead c}"
    and rows: "set (eth_logs t) = chain_rows K {covStart c..covHead c}"
    and wf: "\<And>n l. n \<in> {covStart c..covHead c} \<Longrightarrow> l \<in> set (K n) \<Longrightarrow> wf_log l"
    using m c by (auto simp: mirror_def)
  have number: "r_block_number (LogRow l) = int64 n" if "l \<in> set (K n)" for l n
    using ch(1) that by (simp add: chain_ok_def)
  have "set (joined t) = {(LogRow l, BlockRow (block_of (H n))) | n l. n \<in> {covStart c..covHead c} \<and> l \<in> set (K n)}"
    (is "_ = ?J")
  proof
    show "set (joined t) \<subseteq> ?J"
    proof
      fix rb assume rb: "rb \<in> set (joined t)"
      obtain r b where rb1: "rb = (r, b)" by force
      then have rb2: "r \<in> chain_rows K {covStart c..covHead c}" "b \<in> chain_blocks H {covStart c..covHead c}"
        "b_number b = r_block_number r" using rb joined_iff [of r b t] blocks rows by simp_all
      then obtain n l k where nl: "r = LogRow l" "l \<in> set (K n)" "n \<in> {covStart c..covHead c}"
        and k: "b = BlockRow (block_of (H k))"
        by (auto simp: chain_rows_def chain_blocks_def)
      have "int64 n = r_block_number r" using number [OF nl(2)] nl(1) by simp
      also have "\<dots> = int64 k" using rb2(3) ch(1) by (simp add: k block_of_def chain_ok_def)
      finally have "b = BlockRow (block_of (H n))" using k by simp
      then show "rb \<in> ?J" using rb1 nl by blast
    qed
    show "?J \<subseteq> set (joined t)"
    proof
      fix rb assume "rb \<in> ?J"
      then obtain n l where rb: "rb = (LogRow l, BlockRow (block_of (H n)))" "n \<in> {covStart c..covHead c}" "l \<in> set (K n)" by blast
      then have "LogRow l \<in> chain_rows K {covStart c..covHead c}" "BlockRow (block_of (H n)) \<in> chain_blocks H {covStart c..covHead c}"
        by (auto simp: chain_rows_def chain_blocks_def)
      moreover have "b_number (BlockRow (block_of (H n))) = r_block_number (LogRow l)"
        using ch(1) number [OF rb(3)] by (simp add: block_of_def chain_ok_def)
      ultimately show "rb \<in> set (joined t)" by (simp add: rb(1) joined_iff blocks rows)
    qed
  qed
  then have "set (stored_logs t) = scanLog ` ?J"
    by (simp add: stored_logs_def)
  also have "\<dots> = (\<Union>n \<in> {covStart c..covHead c}. (\<lambda>l. scanLog (LogRow l, BlockRow (block_of (H n)))) ` set (K n))"
    by blast
  also have "\<dots> = (\<Union>n \<in> {covStart c..covHead c}. served (block_of (H n)) ` set (K n))"
    by (intro SUP_cong refl image_cong scanLog_LogRow wf)
  also have "\<dots> = set (chain_answer H K (covStart c) (covHead c))"
    by (simp add: chain_answer_def set_heights_interval)
  finally show "set (stored_logs t) = set (chain_answer H K (covStart c) (covHead c))" .
qed

lemma chain_answer_within:
  assumes "chain_ok H K" "a \<le> from" "to \<le> h" "from \<le> to" and P: "\<And>l. P l \<Longrightarrow> from \<le> logBlockNumber l \<and> logBlockNumber l \<le> to"
  shows "filter P (chain_answer H K a h) = filter P (chain_answer H K from to)"
proof -
  let ?ans = "\<lambda>n. filter P (map (served (block_of (H n))) (K n))"
  have out: "?ans n = []" if "\<not> (from \<le> n \<and> n \<le> to)" for n
  proof -
    have "logBlockNumber x = n" if "x \<in> set (map (served (block_of (H n))) (K n))" for x
      using that assms(1) by (auto simp: served_def chain_ok_def)
    then show ?thesis using that P by (fastforce simp: filter_empty_conv)
  qed
  have answer: "filter P (chain_answer H K f t) = concat (map ?ans (heights f t))" for f t
    by (simp add: chain_answer_def filter_concat comp_def)
  have drop: "concat (map ?ans ns) = concat (map ?ans (filter (\<lambda>n. from \<le> n \<and> n \<le> to) ns))" for ns
    by (induction ns) (auto simp: out)
  have "filter (\<lambda>n. from \<le> n \<and> n \<le> to) (heights a h) = heights from to"
  proof (rule sorted_distinct_set_unique)
    show "sorted (filter (\<lambda>n. from \<le> n \<and> n \<le> to) (heights a h))" "distinct (filter (\<lambda>n. from \<le> n \<and> n \<le> to) (heights a h))"
      using sorted_heights [of a h] by (simp_all add: strict_sorted_iff sorted_wrt_filter)
    show "sorted (heights from to)" "distinct (heights from to)"
      using sorted_heights [of "from" to] by (simp_all add: strict_sorted_iff)
    show "set (filter (\<lambda>n. from \<le> n \<and> n \<le> to) (heights a h)) = set (heights from to)"
      using assms(2-4) by (auto simp: set_heights)
  qed
  then show ?thesis by (simp add: answer drop [of "heights a h"])
qed

section \<open>Properties\<close>

text \<open>
  C3. Tail ingestion refines its specification: from a node that serves one chain, whatever fails
  on the way and at whichever event the process ends, the tables are the mirror of that chain
  over the published coverage: exactly its headers as block rows and exactly its kept logs as
  log rows, none missing, none stale, none outside.
\<close>

theorem Run_mirrors_chain:
  assumes "s_sink S = store_sink" "ordinary S Seen" "one_chain S Seen H L" "\<forall>ev \<in> set events. event_ok Seen ev"
    and "warehouse_ok (tab (warehouse s))" "quiet_faults (warehouse s)" "next_is (warehouse s) from"
    and "mirror H (kept_logs (s_keccak S) L) (tab (warehouse s))"
  shows "mirror H (kept_logs (s_keccak S) L) (tab (warehouse (snd (Run S from events s))))"
proof -
  obtain r t where run: "Run S from events s = (r, t)" by fastforce
  have "store_ok (warehouse s)" using assms(5,6) by (simp add: store_ok_def)
  from Run_mirror [OF assms(1-4) this assms(8,7) run] run show ?thesis by simp
qed

text \<open>
  C2. From the chain to the client: after any run of tail ingestion against a node that serves one
  chain, an \<open>eth_getLogs\<close> answered from the tables it left is the list of exactly that chain's
  kept logs of the range the request names that match its filter, in chain order, each under
  the hash and timestamp of its header.
\<close>

theorem GetLogs_serves_chain:
  assumes "s_sink S = store_sink" "ordinary S Seen" "one_chain S Seen H L" "\<forall>ev \<in> set events. event_ok Seen ev"
    and "strict_chain (kept_logs (s_keccak S) L)"
    and "warehouse_ok (tab (warehouse s))" "quiet_faults (warehouse s)" "next_is (warehouse s) from"
    and "mirror H (kept_logs (s_keccak S) L) (tab (warehouse s))"
    and "tab d = tab (warehouse (snd (Run S from events s)))" and "tags_ok tags"
    and "GetLogs kc tags cfg crit d = (Inr logs, d')"
  shows "\<exists>c f t. coverage_of (tab d) = Some c \<and> names_range tags crit (tab d) c f t \<and>
    logs = (if t < f then []
      else filter (log_matches kc (query_of crit f t)) (chain_answer H (kept_logs (s_keccak S) L) f t))"
proof -
  let ?K = "kept_logs (s_keccak S) L"
  obtain r t where run: "Run S from events s = (r, t)" by fastforce
  have "store_ok (warehouse s)" using assms(6,7) by (simp add: store_ok_def)
  note R = Run_mirror [OF assms(1-4) this assms(9,8) run]
  have ok: "warehouse_ok (tab d)" "mirror H ?K (tab d)" using R assms(10) run by (simp_all add: store_ok_def)
  from GetLogs_answers [OF assms(11) ok(1) assms(12)] obtain c f t where
    c: "coverage_of (tab d) = Some c" "names_range tags crit (tab d) c f t" and
    logs: "if t < f then logs = []
       else covStart c \<le> f \<and> t \<le> covHead c \<and>
         logs = filter (log_matches kc (query_of crit f t)) (stored_logs (tab d))"
    by (auto split: if_splits)
  have "filter (log_matches kc (query_of crit f t)) (stored_logs (tab d)) =
      filter (log_matches kc (query_of crit f t)) (chain_answer H ?K f t)" if "f \<le> t" "covStart c \<le> f" "t \<le> covHead c"
    unfolding stored_logs_mirror [OF ok one_chain_ok [OF assms(3)] assms(5) c(1)]
    by (rule chain_answer_within [OF one_chain_ok [OF assms(3)] that(2,3,1)]) (simp add: log_matches_def query_of_def)
  then show ?thesis using c logs by (auto split: if_splits)
qed

section \<open>A chain, followed and served\<close>

lemma follower_chain: "one_chain (follower k) small_heads head_at (\<lambda>n. [kept_at n])"
  by (auto simp: one_chain_def small_heads_def follower_def node_chain_def serves_def small_node_def capped_node_def
      ret_def throw_def head_at_def kept_at_def log_at_def concat_singletons split: if_splits)

lemma started_mirror: "mirror H K (tab (warehouse started))"
  by (simp add: started_def start_from_def mirror_def fresh_coverage, simp add: fresh_tables_def)

lemma follower_kept: "kept_logs (s_keccak (follower k)) (\<lambda>n. [kept_at n]) = (\<lambda>n. [kept_at n])"
proof -
  have "Keep (\<lambda>_. 1) [1, 2] 0" by code_simp
  then show ?thesis by (simp add: kept_logs_fun follower_def kept_at_def log_at_def)
qed

theorem Run_mirrors_chain_witness:
  "mirror head_at (\<lambda>n. [kept_at n]) (tab (warehouse (snd some_run)))"
  using Run_mirrors_chain [OF follower_store follower_ordinary follower_chain some_events_ok started_ok started_mirror, of 5]
  by (simp only: follower_kept some_run_def)

definition chain_request :: FilterCriteria where
  "chain_request = metadata_request\<lparr>cFromBlock := Some 5, cToBlock := Some 5, cTopics := [[1]]\<rparr>"

theorem GetLogs_serves_chain_witness:
  "\<exists>d logs d' c f t. GetLogs (\<lambda>_. 1) go_tags \<lparr>ChainID = 1, MaxResults = 10\<rparr> chain_request d = (Inr logs, d') \<and>
     tab d = tab (warehouse (snd some_run)) \<and> length logs = 1 \<and> coverage_of (tab d) = Some c \<and>
     names_range go_tags chain_request (tab d) c f t \<and>
     logs = (if t < f then [] else filter (log_matches (\<lambda>_. 1) (query_of chain_request f t)) (chain_answer head_at (\<lambda>n. [kept_at n]) f t))"
proof -
  let ?d = "connect (tab (warehouse (snd some_run)))"
  let ?get = "GetLogs (\<lambda>_. 1) go_tags \<lparr>ChainID = 1, MaxResults = 10\<rparr> chain_request ?d"
  have "(case fst ?get of Inr logs \<Rightarrow> length logs = 1 | Inl e \<Rightarrow> False)" by code_simp
  then obtain logs where logs: "fst ?get = Inr logs" "length logs = 1" by (auto split: sum.splits)
  then have get: "?get = (Inr logs, snd ?get)" by (simp add: prod_eq_iff)
  have strict: "strict_chain (kept_logs (s_keccak (follower store_sink)) (\<lambda>n. [kept_at n]))"
    by (simp add: strict_chain_def follower_kept)
  have tabs: "tab ?d = tab (warehouse (snd (Run (follower store_sink) 5 some_events started)))"
    by (simp add: some_run_def)
  from GetLogs_serves_chain [OF follower_store follower_ordinary follower_chain some_events_ok strict started_ok started_mirror
      tabs go_tags_ok get, unfolded follower_kept]
  show ?thesis using get logs(2) by force
qed

end
