(* ===== verification/Runner.thy ===== *)
theory Runner
  imports Mirror
begin

text \<open>
  \<open>internal/ingestion/runner.go\<close>: what happens before the loop starts. The provider's chain is
  checked, the start block is resolved from the durable cursor, the configuration or the chain
  head, and the subscriber runs from there on the store.
\<close>

section \<open>The runner\<close>

record run_config =
  LoopConfig :: ingest_config
  RunChainID :: u64
  StartBlock :: u64
  SpanCap :: u64

text \<open>\<open>Store\<close>: the cursor and the sink.\<close>

record 'd ingest_store = "'d sink" +
  CursorOp :: "('d, err, u64 option) step"

definition verifyChain :: "u64 \<Rightarrow> 'p eth_client \<Rightarrow> ('p, 'd, unit) act" where
  "verifyChain want client =
     andThen (onErr (\<lambda>e. Wrapf ''read provider chain id: '' e '''') (ask (ChainIDOp client))) (\<lambda>got.
     if got \<noteq> want
     then throw (ErrNew (''provider chain id '' @ show_u64 got @ '' does not match configured ethereum.chain_id '' @ show_u64 want))
     else ret ())"

definition resolveStartBlock :: "run_config \<Rightarrow> 'p eth_client \<Rightarrow> 'd ingest_store \<Rightarrow> ('p, 'd, u64) act" where
  "resolveStartBlock cfg client st =
     andThen (onErr (\<lambda>e. Wrapf ''read ingestion cursor: '' e '''') (store (CursorOp st))) (\<lambda>cursor.
     case cursor of
       Some n \<Rightarrow>
         if StartBlock cfg \<noteq> 0
         then throw (ErrNew (''ethereum.start_block='' @ show_u64 (StartBlock cfg) @ '' is set but the warehouse already has a cursor at ''
                @ show_u64 n @ ''; unset it (to resume at '' @ show_u64 (n + 1)
                @ '') or stop the service and run `ff-eth-logs rewind -to '' @ show_u64 (StartBlock cfg - 1) @ ''` to re-ingest from it''))
         else ret (n + 1)
     | None \<Rightarrow>
         if StartBlock cfg \<noteq> 0 then ret (StartBlock cfg)
         else onErr (\<lambda>e. Wrapf ''read chain head for first start: '' e '''') (ask (BlockNumberOp client)))"

definition subscriber_of :: "keccak \<Rightarrow> run_config \<Rightarrow> 'p eth_client \<Rightarrow> 'd ingest_store \<Rightarrow> ('p, 'd) subscriber" where
  "subscriber_of kc cfg client st =
     \<lparr>s_client = client, s_spanCap = SpanCap cfg, s_keccak = kc, s_sink = sink.truncate st, s_cfg = LoopConfig cfg\<rparr>"

definition RunIngestion :: "keccak \<Rightarrow> run_config \<Rightarrow> 'p eth_client \<Rightarrow> 'd ingest_store \<Rightarrow> event list \<Rightarrow> ('p, 'd, unit) act" where
  "RunIngestion kc cfg client st events =
     andThen (verifyChain (RunChainID cfg) client) (\<lambda>_.
     andThen (resolveStartBlock cfg client st) (\<lambda>from.
     Run (subscriber_of kc cfg client st) from events))"

section \<open>On the store\<close>

definition pg_store :: "pg ingest_store" where
  "pg_store = \<lparr>WriteRangeOp = WriteRange, StoredBlockHashOp = StoredBlockHash, RewindOp = Rewind, CursorOp = Cursor\<rparr>"

lemma subscriber_sink: "s_sink (subscriber_of kc cfg client pg_store) = store_sink"
  by (simp add: subscriber_of_def pg_store_def store_sink_def sink.truncate_def)

lemma clean_Cursor: "clean Cursor"
  unfolding Cursor_def by (intro clean_rules)

lemma Cursor_tables: "Cursor s = (r, t) \<Longrightarrow> tab t = tab s \<and> (\<forall>x. r = Inr x \<longrightarrow> x = map_option covHead (coverage_of (tab s)))"
  by (auto simp: Cursor_def readCoverage_def query_def exec_def onErr_def andThen_def ret_def Let_def
      split: prod.splits sum.splits option.splits fault.splits)

text \<open>The start block: it continues the coverage, and reading it changes no table.\<close>

definition start_ok :: "pg \<Rightarrow> ('p, pg) run \<Rightarrow> bool" where
  "start_ok d s \<longleftrightarrow> tab (warehouse s) = tab d \<and> quiet_faults (warehouse s)"

lemma verifyChain_start:
  "triple (start_ok d) (verifyChain want client) (\<lambda>_. start_ok d) (\<lambda>e. start_ok d)"
proof -
  have "triple (start_ok d) (ask (ChainIDOp client)) (\<lambda>_. start_ok d) (\<lambda>e. start_ok d)"
    by (rule tripleI) (auto simp: ask_def step_simps start_ok_def)
  then show ?thesis
    unfolding verifyChain_def
    by (intro triple_andThen [OF triple_onErr] triple_if triple_throw triple_ret) auto
qed

lemma resolveStartBlock_start:
  "triple (start_ok d) (resolveStartBlock cfg client pg_store) (\<lambda>from s. start_ok d s \<and> next_is d from) (\<lambda>e. start_ok d)"
proof -
  have cursor: "triple (start_ok d) (store Cursor)
      (\<lambda>x s. start_ok d s \<and> x = map_option covHead (coverage_of (tab d))) (\<lambda>e. start_ok d)"
  proof (rule tripleI)
    fix s x t assume s: "start_ok d s" "store Cursor s = (Inr x, t)"
    then obtain u where u: "Cursor (warehouse s) = (Inr x, u)" "t = s\<lparr>warehouse := u\<rparr>" by (auto simp: store_def step_simps)
    show "start_ok d t \<and> x = map_option covHead (coverage_of (tab d))"
      using clean_cases(1) [OF clean_Cursor _ u(1)] Cursor_tables [OF u(1)] s(1) u(2) by (simp add: start_ok_def)
  next
    fix s e t assume s: "start_ok d s" "store Cursor s = (Inl e, t)"
    then obtain u where u: "Cursor (warehouse s) = (Inl e, u)" "t = s\<lparr>warehouse := u\<rparr>" by (auto simp: store_def step_simps)
    show "start_ok d t"
      using clean_cases(1) [OF clean_Cursor _ u(1)] Cursor_tables [OF u(1)] s(1) u(2) by (simp add: start_ok_def)
  qed
  have head: "triple (\<lambda>s. start_ok d s \<and> None = map_option covHead (coverage_of (tab d))) (ask (BlockNumberOp client))
      (\<lambda>from s. start_ok d s \<and> next_is d from) (\<lambda>e. start_ok d)"
    by (rule tripleI) (auto simp: ask_def step_simps start_ok_def next_is_def)
  show ?thesis
    unfolding resolveStartBlock_def
  proof (rule triple_andThen)
    show "triple (start_ok d) (onErr (\<lambda>e. Wrapf w e '''') (store (CursorOp pg_store)))
        (\<lambda>x s. start_ok d s \<and> x = map_option covHead (coverage_of (tab d))) (\<lambda>e. start_ok d)" for w
      by (rule triple_onErr) (simp add: pg_store_def cursor)
    show "triple (\<lambda>s. start_ok d s \<and> x = map_option covHead (coverage_of (tab d)))
        (case x of None \<Rightarrow> if StartBlock cfg \<noteq> 0 then ret (StartBlock cfg) else onErr g (ask (BlockNumberOp client))
         | Some n \<Rightarrow> if StartBlock cfg \<noteq> 0 then throw (ErrNew (m n)) else ret (n + 1))
        (\<lambda>from s. start_ok d s \<and> next_is d from) (\<lambda>e. start_ok d)" for x g m
      by (intro triple_case_option triple_if triple_throw triple_ret triple_onErr)
        (use head in \<open>auto simp: next_is_def\<close>)
  qed
qed

lemma RunIngestion_parts:
  assumes "RunIngestion kc cfg client pg_store events s = (r, t)" "quiet_faults (warehouse s)"
  obtains (refused) "tab (warehouse t) = tab (warehouse s)" "quiet_faults (warehouse t)"
  | (ran) "from" u where "Run (subscriber_of kc cfg client pg_store) from events u = (r, t)"
      "tab (warehouse u) = tab (warehouse s)" "quiet_faults (warehouse u)" "next_is (warehouse u) from"
proof -
  let ?d = "warehouse s"
  have s: "start_ok ?d s" using assms(2) by (simp add: start_ok_def)
  obtain r1 s1 where v: "verifyChain (RunChainID cfg) client s = (r1, s1)" by fastforce
  show thesis
  proof (cases r1)
    case (Inl e)
    have "start_ok ?d s1" using triple_error [OF verifyChain_start s v [unfolded Inl]] .
    then show thesis using assms(1) v Inl refused by (auto simp: RunIngestion_def andThen_def start_ok_def)
  next
    case (Inr x)
    have s1: "start_ok ?d s1" using triple_value [OF verifyChain_start s v [unfolded Inr]] .
    obtain r2 s2 where f: "resolveStartBlock cfg client pg_store s1 = (r2, s2)" by fastforce
    show thesis
    proof (cases r2)
      case (Inl e)
      have "start_ok ?d s2" using triple_error [OF resolveStartBlock_start s1 f [unfolded Inl]] .
      then show thesis using assms(1) v f Inr Inl refused by (auto simp: RunIngestion_def andThen_def start_ok_def)
    next
      case (Inr n)
      have "start_ok ?d s2 \<and> next_is ?d n" using triple_value [OF resolveStartBlock_start s1 f [unfolded Inr]] .
      moreover from this have "next_is (warehouse s2) n" using same_tables [of "warehouse s2" ?d n] by (simp add: start_ok_def)
      moreover have "Run (subscriber_of kc cfg client pg_store) n events s2 = (r, t)"
        using assms(1) v f Inr \<open>r1 = Inr x\<close> by (simp add: RunIngestion_def andThen_def)
      ultimately show thesis using ran by (simp add: start_ok_def)
    qed
  qed
qed

section \<open>Properties\<close>

text \<open>
  A provider on another chain never touches the warehouse: when it does not report the
  configured chain id, ingestion ends with an error before a single statement is sent to the
  database.
\<close>

theorem RunIngestion_refuses_wrong_chain:
  assumes "\<forall>p id q. ChainIDOp client p = (Inr id, q) \<longrightarrow> id \<noteq> RunChainID cfg"
    and "RunIngestion kc cfg client st events s = (r, t)"
  shows "warehouse t = warehouse s \<and> stream t = stream s \<and> (\<exists>e. r = Inl e)"
proof -
  obtain x q where x: "ChainIDOp client (provider s) = (x, q)" by fastforce
  then have "x = Inr b \<Longrightarrow> b \<noteq> RunChainID cfg" for b using assms(1) by blast
  then show ?thesis
    using assms(2) x
    by (cases x) (auto simp: RunIngestion_def verifyChain_def ask_def zoom_def andThen_def onErr_def throw_def)
qed

text \<open>
  The start block: with a durable cursor it is the block after it, and a configured start block
  is then refused; without one it is the configured block, or else the head the node reported.
  Resolving it changes no table, and the result always continues the coverage.
\<close>

theorem resolveStartBlock_continues:
  "case resolveStartBlock cfg client pg_store s of (r, t) \<Rightarrow>
     tab (warehouse t) = tab (warehouse s) \<and>
     (case r of
       Inl e \<Rightarrow> True
     | Inr from \<Rightarrow>
         (case coverage_of (tab (warehouse s)) of
            Some c \<Rightarrow> StartBlock cfg = 0 \<and> from = covHead c + 1
          | None \<Rightarrow> if StartBlock cfg \<noteq> 0 then from = StartBlock cfg else (\<exists>p q. BlockNumberOp client p = (Inr from, q))))"
proof -
  obtain r t where run: "resolveStartBlock cfg client pg_store s = (r, t)" by fastforce
  obtain x u where c: "Cursor (warehouse s) = (x, u)" by fastforce
  note tabs = Cursor_tables [OF c]
  show ?thesis
  proof (cases x)
    case (Inl e)
    then show ?thesis using run c tabs
      by (auto simp: resolveStartBlock_def pg_store_def store_def zoom_def andThen_def onErr_def)
  next
    case (Inr cur)
    show ?thesis
    proof (cases cur)
      case None
      then show ?thesis
        using run c tabs Inr
        by (auto simp: resolveStartBlock_def pg_store_def store_def ask_def zoom_def andThen_def onErr_def ret_def
            split: if_splits prod.splits sum.splits)
    next
      case (Some n)
      then show ?thesis
        using run c tabs Inr
        by (auto simp: resolveStartBlock_def pg_store_def store_def zoom_def andThen_def onErr_def ret_def throw_def
            split: if_splits option.splits)
    qed
  qed
qed

text \<open>
  The process as it is started: from any state of the warehouse in order, with any node,
  configuration and events, ingestion leaves the warehouse in order, and it ends or waits.
\<close>

theorem RunIngestion_keeps_warehouse_ok:
  assumes "ordinary (subscriber_of kc cfg client pg_store) Seen" "\<forall>ev \<in> set events. event_ok Seen ev"
    and "warehouse_ok (tab (warehouse s))" "quiet_faults (warehouse s)"
  shows "warehouse_ok (tab (warehouse (snd (RunIngestion kc cfg client pg_store events s))))"
proof -
  obtain r t where run: "RunIngestion kc cfg client pg_store events s = (r, t)" by fastforce
  then show ?thesis
    using assms(4)
  proof (rule RunIngestion_parts)
    fix "from" u assume u: "Run (subscriber_of kc cfg client pg_store) from events u = (r, t)"
      "tab (warehouse u) = tab (warehouse s)" "quiet_faults (warehouse u)" "next_is (warehouse u) from"
    then have "store_ok (warehouse u)" using assms(3) by (simp add: store_ok_def)
    from Run_on_store [OF subscriber_sink assms(1,2) this u(4)] u(1) run show ?thesis
      by (cases r) (simp_all add: store_ok_def)
  qed (use assms(3) run in simp)
qed

fun restarts :: "keccak \<Rightarrow> 'p eth_client \<Rightarrow> (run_config \<times> event list) list \<Rightarrow> ('p, pg) run \<Rightarrow> ('p, pg) run" where
  "restarts kc client [] s = s"
| "restarts kc client ((cfg, events) # lives) s =
     restarts kc client lives (snd (RunIngestion kc cfg client pg_store events s))"

lemma restarts_mirror:
  assumes C: "\<And>cfg events. (cfg, events) \<in> set lives \<Longrightarrow> ordinary (subscriber_of kc cfg client pg_store) Seen \<and>
      (\<forall>ev \<in> set events. event_ok Seen ev)"
    and chain: "\<And>cfg. one_chain (subscriber_of kc cfg client pg_store) Seen H L"
  shows "store_ok (warehouse s) \<Longrightarrow> mirror H (kept_logs kc L) (tab (warehouse s)) \<Longrightarrow>
    store_ok (warehouse (restarts kc client lives s)) \<and> mirror H (kept_logs kc L) (tab (warehouse (restarts kc client lives s)))"
  using C
proof (induction lives arbitrary: s)
  case (Cons life lives)
  obtain cfg events where life: "life = (cfg, events)" by force
  obtain r t where run: "RunIngestion kc cfg client pg_store events s = (r, t)" by fastforce
  have q: "quiet_faults (warehouse s)" using Cons.prems(1) by (simp add: store_ok_def)
  have "store_ok (warehouse t) \<and> mirror H (kept_logs kc L) (tab (warehouse t))"
    using run q
  proof (rule RunIngestion_parts)
    assume "tab (warehouse t) = tab (warehouse s)" "quiet_faults (warehouse t)"
    then show ?thesis using Cons.prems(1,2) by (simp add: store_ok_def)
  next
    fix "from" u assume u: "Run (subscriber_of kc cfg client pg_store) from events u = (r, t)"
      "tab (warehouse u) = tab (warehouse s)" "quiet_faults (warehouse u)" "next_is (warehouse u) from"
    have k: "s_keccak (subscriber_of kc cfg client pg_store) = kc" by (simp add: subscriber_of_def)
    have "store_ok (warehouse u)" "mirror H (kept_logs kc L) (tab (warehouse u))"
      using Cons.prems(1,2) u(2,3) by (simp_all add: store_ok_def)
    with Run_mirror [OF subscriber_sink _ chain _ _ _ u(4,1), unfolded k] Cons.prems(3) [of cfg events] life
    show ?thesis by auto
  qed
  moreover have "ordinary (subscriber_of kc c client pg_store) Seen \<and> (\<forall>ev \<in> set es. event_ok Seen ev)"
    if "(c, es) \<in> set lives" for c es using Cons.prems(3) [of c es] that by simp
  ultimately show ?case using Cons.IH [of t] by (simp add: life run)
qed simp

text \<open>
  C17. Restarts keep the mirror: from a node that serves one chain, a process that starts on the
  mirror of the chain, fails at any point, and starts again, any number of times and with any
  configuration, leaves the mirror of the chain over the published coverage.
\<close>

theorem restarts_mirror_chain:
  assumes "\<And>cfg events. (cfg, events) \<in> set lives \<Longrightarrow> ordinary (subscriber_of kc cfg client pg_store) Seen \<and>
      (\<forall>ev \<in> set events. event_ok Seen ev)"
    and "\<And>cfg. one_chain (subscriber_of kc cfg client pg_store) Seen H L"
    and "warehouse_ok (tab (warehouse s))" "quiet_faults (warehouse s)" "mirror H (kept_logs kc L) (tab (warehouse s))"
  shows "mirror H (kept_logs kc L) (tab (warehouse (restarts kc client lives s)))"
  using restarts_mirror [OF assms(1,2)] assms(3-) by (simp add: store_ok_def)

section \<open>A start, a refusal and a restart\<close>

definition some_config :: run_config where
  "some_config = \<lparr>LoopConfig = \<lparr>MaxCatchupBlocks = 0, ConfirmationBlocks = 2, HeadTimeout = 60, HeadTimeoutText = ''1m0s''\<rparr>,
     RunChainID = 1, StartBlock = 5, SpanCap = 0\<rparr>"

lemma some_subscriber_sink: "s_client (subscriber_of kc cfg c st) = c" "s_keccak (subscriber_of kc cfg c st) = kc"
  "s_spanCap (subscriber_of kc cfg c st) = SpanCap cfg"
  by (simp_all add: subscriber_of_def)

lemma some_ordinary: "SpanCap cfg = 0 \<Longrightarrow> ordinary (subscriber_of kc cfg small_node st) small_heads"
  using small_node_heads small_node_errors small_node_logs by (simp add: ordinary_def some_subscriber_sink)

lemma some_chain: "one_chain (subscriber_of (\<lambda>_. 1) cfg small_node st) small_heads head_at (\<lambda>n. [kept_at n])"
  using follower_chain by (simp add: one_chain_def some_subscriber_sink follower_def)

theorem RunIngestion_refuses_wrong_chain_witness:
  "warehouse (snd (RunIngestion (\<lambda>_. 1) (some_config\<lparr>RunChainID := 5\<rparr>) small_node pg_store some_events started)) = warehouse started"
proof -
  have "\<forall>p id q. ChainIDOp small_node p = (Inr id, q) \<longrightarrow> id \<noteq> RunChainID (some_config\<lparr>RunChainID := 5\<rparr>)"
    by (auto simp: small_node_def capped_node_def ret_def some_config_def)
  from RunIngestion_refuses_wrong_chain [OF this prod.collapse [symmetric]] show ?thesis by blast
qed

theorem RunIngestion_keeps_warehouse_ok_witness:
  "warehouse_ok (tab (warehouse (snd (RunIngestion (\<lambda>_. 1) some_config small_node pg_store some_events started)))) \<and>
   map b_number (eth_blocks (tab (warehouse (snd (RunIngestion (\<lambda>_. 1) some_config small_node pg_store some_events started))))) = [5]"
proof
  have "SpanCap some_config = 0" by (simp add: some_config_def)
  from RunIngestion_keeps_warehouse_ok [OF some_ordinary [OF this] some_events_ok started_ok(1,2)]
  show "warehouse_ok (tab (warehouse (snd (RunIngestion (\<lambda>_. 1) some_config small_node pg_store some_events started))))" .
  show "map b_number (eth_blocks (tab (warehouse (snd (RunIngestion (\<lambda>_. 1) some_config small_node pg_store some_events started))))) = [5]"
    by code_simp
qed

text \<open>Two lives: the second resumes after the cursor of the first, with the start block unset.\<close>

definition two_lives :: "(run_config \<times> event list) list" where
  "two_lives = [(some_config, some_events), (some_config\<lparr>StartBlock := 0\<rparr>, [Heads (head_at 9) []])]"

theorem restarts_mirror_chain_witness:
  "mirror head_at (\<lambda>n. [kept_at n]) (tab (warehouse (restarts (\<lambda>_. 1) small_node two_lives started))) \<and>
   map b_number (eth_blocks (tab (warehouse (restarts (\<lambda>_. 1) small_node two_lives started)))) = [5, 6, 7]"
proof
  have lives: "ordinary (subscriber_of (\<lambda>_. 1) cfg small_node pg_store) small_heads \<and> (\<forall>ev \<in> set es. event_ok small_heads ev)"
    if "(cfg, es) \<in> set two_lives" for cfg es
  proof -
    have "small_heads (head_at 9)" by (simp add: small_heads_def)
    then have "event_ok small_heads (Heads (head_at 9) [])" by (simp add: event_ok_def event_heads_def)
    moreover have "SpanCap cfg = 0" using that by (auto simp: two_lives_def some_config_def)
    ultimately show ?thesis using that some_ordinary some_events_ok by (auto simp: two_lives_def)
  qed
  have k: "kept_logs (\<lambda>_. 1) (\<lambda>n. [kept_at n]) = (\<lambda>n. [kept_at n])"
    using follower_kept by (simp add: follower_def)
  show "mirror head_at (\<lambda>n. [kept_at n]) (tab (warehouse (restarts (\<lambda>_. 1) small_node two_lives started)))"
    using restarts_mirror_chain [OF lives some_chain started_ok(1,2) started_mirror] by (simp only: k)
  show "map b_number (eth_blocks (tab (warehouse (restarts (\<lambda>_. 1) small_node two_lives started)))) = [5, 6, 7]"
    by code_simp
qed

end
