(* ===== verification/Recovery.thy ===== *)
theory Recovery
  imports Following
begin

text \<open>
  What single operations of the subscriber compute: the search for the fork point of a deep reorg
  against the stored hashes, and the plan of a range with its two catch-up bounds.
\<close>

section \<open>The fork point\<close>

definition stored_hash :: "tables \<Rightarrow> u64 \<Rightarrow> hash option" where
  "stored_hash t n = map_option (\<lambda>b. BytesToHash (b_hash b)) (find (\<lambda>b. b_number b = int64 n) (eth_blocks t))"

text \<open>A node that answers the headers of one chain while the search runs.\<close>

definition answers_heads :: "'p eth_client \<Rightarrow> (u64 \<Rightarrow> block_head) \<Rightarrow> bool" where
  "answers_heads c H \<longleftrightarrow> (\<forall>n p. \<exists>q. HeadByNumberOp c n p = (Inr (H n), q))"

text \<open>
  The specification: the highest height below \<open>height\<close> whose stored hash is canonical, at most
  \<open>maxForkWalk\<close> blocks down, with every height in between stored and replaced.
\<close>

definition fork_at :: "(u64 \<Rightarrow> hash option) \<Rightarrow> (u64 \<Rightarrow> block_head) \<Rightarrow> u64 \<Rightarrow> u64 \<Rightarrow> bool" where
  "fork_at stored H height n \<longleftrightarrow> n < height \<and> height - n \<le> maxForkWalk \<and> stored n = Some (headHash (H n)) \<and>
     (\<forall>m. n < m \<and> m < height \<longrightarrow> (\<exists>h. stored m = Some h \<and> h \<noteq> headHash (H m)))"

lemma StoredBlockHash_healthy:
  "healthy d \<Longrightarrow> \<exists>d'. StoredBlockHash n d = (Inr (stored_hash (tab d) n), d') \<and> healthy d' \<and> tab d' = tab d"
  by (simp add: StoredBlockHash_def stored_hash_def query_def exec_def onErr_def healthy_def Let_def)

lemma less_of_nat_Suc:
  assumes "Suc k \<le> unat (height :: u64)"
  shows "m < of_nat (Suc k) \<longleftrightarrow> m \<le> (of_nat k :: u64)" "(of_nat k :: u64) < height" "unat (of_nat k :: u64) = k"
proof -
  have small: "unat (of_nat k :: u64) = k" "unat (of_nat (Suc k) :: u64) = Suc k"
    using assms unat_less_u64 [of height] by (simp_all only: unat_of_nat) simp_all
  show "m < of_nat (Suc k) \<longleftrightarrow> m \<le> (of_nat k :: u64)"
    by (simp only: word_less_nat_alt word_le_nat_alt small less_Suc_eq_le)
  show "(of_nat k :: u64) < height" using assms by (simp only: word_less_nat_alt small)
  show "unat (of_nat k :: u64) = k" by (rule small)
qed

lemma fork_loop_spec:
  assumes sink: "s_sink S = store_sink" and node: "answers_heads (s_client S) H"
  shows "k \<le> unat height \<Longrightarrow> healthy (warehouse s) \<Longrightarrow> tab (warehouse s) = t \<Longrightarrow>
    (\<And>m. of_nat k \<le> m \<Longrightarrow> m < height \<Longrightarrow> \<exists>h. stored_hash t m = Some h \<and> h \<noteq> headHash (H m)) \<Longrightarrow>
    (case fst (fork_loop S height k s) of
       Inr a \<Rightarrow> \<exists>n. fork_at (stored_hash t) H height n \<and> a = H n
     | Inl e \<Rightarrow> \<forall>n. \<not> fork_at (stored_hash t) H height n)"
proof (induction k arbitrary: s)
  case 0
  then have "\<not> fork_at (stored_hash t) H height n" for n
    using word_le_nat_alt [of 0 n] by (fastforce simp: fork_at_def)
  then show ?case by (simp add: throw_def)
next
  case (Suc k)
  let ?n = "of_nat k :: u64"
  note small = less_of_nat_Suc [OF Suc.prems(1)]
  have above: "\<exists>h. stored_hash t m = Some h \<and> h \<noteq> headHash (H m)" if "?n < m" "m < height" for m
    using Suc.prems(4) [of m] that small(1) [of m] by (metis not_le)
  have top: "n \<le> ?n" if "fork_at (stored_hash t) H height n" for n
    using that above [of n] by (fastforce simp: fork_at_def not_le)
  show ?case
  proof (cases "height - ?n > maxForkWalk")
    case True
    have "\<not> fork_at (stored_hash t) H height n" for n
    proof
      assume n: "fork_at (stored_hash t) H height n"
      then have "height - ?n \<le> height - n"
        using top [OF n] small(2) by (simp add: word_le_nat_alt unat_sub word_less_nat_alt)
      moreover have "height - n \<le> maxForkWalk" using n by (simp add: fork_at_def)
      ultimately show False using True by (meson leD order_trans)
    qed
    then show ?thesis using True by (simp add: throw_def)
  next
    case False
    obtain d' where d': "StoredBlockHash ?n (warehouse s) = (Inr (stored_hash t ?n), d')" "healthy d'" "tab d' = t"
      using StoredBlockHash_healthy [OF Suc.prems(2), of ?n] Suc.prems(3) by auto
    obtain q where q: "HeadByNumberOp (s_client S) ?n (provider s) = (Inr (H ?n), q)"
      using node by (auto simp: answers_heads_def)
    show ?thesis
    proof (cases "stored_hash t ?n")
      case None
      have "\<not> fork_at (stored_hash t) H height n" for n
      proof
        assume f: "fork_at (stored_hash t) H height n"
        then have "n < ?n \<or> n = ?n" using top by (simp add: le_less)
        then show False using f None small(2) by (auto simp: fork_at_def)
      qed
      then show ?thesis
        using False d'(1) None sink by (simp add: Let_def andThen_def store_def zoom_def store_sink_def throw_def)
    next
      case (Some h)
      have step: "fork_loop S height (Suc k) s =
          (if headHash (H ?n) = h then ret (H ?n) else fork_loop S height k) (s\<lparr>warehouse := d', provider := q\<rparr>)"
        using False d'(1) q Some sink
        by (simp add: Let_def andThen_def store_def ask_def canonicalHead_def zoom_def store_sink_def onErr_def)
      show ?thesis
      proof (cases "headHash (H ?n) = h")
        case True
        then have "fork_at (stored_hash t) H height ?n"
          using Some False small(2) above by (auto simp: fork_at_def not_less)
        then show ?thesis unfolding step using True by (auto simp: ret_def)
      next
        case no: False
        have "\<exists>h. stored_hash t m = Some h \<and> h \<noteq> headHash (H m)" if "?n \<le> m" "m < height" for m
          using above [of m] that no Some by (cases "m = ?n") auto
        from Suc.IH [OF _ _ _ this, of "s\<lparr>warehouse := d', provider := q\<rparr>"] Suc.prems(1) d'(2,3) no
        show ?thesis unfolding step by simp
      qed
    qed
  qed
qed

text \<open>
  C23. The fork point: against a node that answers one chain and a healthy database, the search
  returns the canonical head of the highest stored height below the replaced block that is still
  canonical, every height in between being stored and replaced; and it fails exactly when there
  is none within 1024 blocks (or the fork reaches below what is stored).
\<close>

theorem findForkPoint_highest:
  assumes "s_sink S = store_sink" "answers_heads (s_client S) H" "healthy (warehouse s)"
  shows "case fst (findForkPoint S height s) of
      Inr a \<Rightarrow> \<exists>n. fork_at (stored_hash (tab (warehouse s))) H height n \<and> a = H n
    | Inl e \<Rightarrow> \<forall>n. \<not> fork_at (stored_hash (tab (warehouse s))) H height n"
  unfolding findForkPoint_def
  by (rule fork_loop_spec [OF assms(1,2) order_refl assms(3) refl]) simp

section \<open>The plan of a range\<close>

lemma checkCatchupBound_cases:
  "checkCatchupBound cfg n tip s =
    (if 0 < MaxCatchupBlocks cfg \<and> n \<le> tip \<and> MaxCatchupBlocks cfg < tip - n + 1
     then (Inl (Wrapf '''' (Sentinel ErrCatchupTooLarge)
             ('': need blocks '' @ show_u64 n @ ''-'' @ show_u64 tip @ '' ('' @ show_u64 (tip - n + 1) @ '' blocks, max ''
              @ show_u64 (MaxCatchupBlocks cfg) @ ''); rewind deliberately or raise ethereum.max_catchup_blocks'')), s)
     else (Inr (), s))"
  by (simp add: checkCatchupBound_def throw_def ret_def)

definition within_catchup :: "ingest_config \<Rightarrow> u64 \<Rightarrow> u64 \<Rightarrow> bool" where
  "within_catchup cfg n tip \<longleftrightarrow> MaxCatchupBlocks cfg = 0 \<or> tip < n \<or> tip - n + 1 \<le> MaxCatchupBlocks cfg"

lemma catchup_Inr: "checkCatchupBound cfg n tip s = (Inr u, t) \<longleftrightarrow> within_catchup cfg n tip \<and> t = s"
  by (auto simp: checkCatchupBound_cases within_catchup_def not_less not_le word_gt_0)

text \<open>
  C24. The plan: what \<open>planRange\<close> returns is the range from the next block to the block buried under
  exactly \<open>ConfirmationBlocks\<close> blocks, never empty, with a head held at its boundary; it returns
  none exactly when nothing new is confirmed; and it returns only when the whole gap to the tip,
  pending blocks included, is within \<open>MaxCatchupBlocks\<close>.
\<close>

theorem planRange_plans:
  assumes "planRange S batch s = (Inr plan, t)"
  shows "within_catchup (s_cfg S) (st_next (stream t)) (st_tip (stream t)) \<and>
    (case plan of
       None \<Rightarrow> st_tip (stream t) < ConfirmationBlocks (s_cfg S) \<or>
         st_tip (stream t) - ConfirmationBlocks (s_cfg S) < st_next (stream t)
     | Some (from, to) \<Rightarrow> from = st_next (stream t) \<and> from \<le> to \<and> ConfirmationBlocks (s_cfg S) \<le> st_tip (stream t) \<and>
         to = st_tip (stream t) - ConfirmationBlocks (s_cfg S) \<and> head_of (stream t) to \<noteq> None)"
  using assms
  by (auto simp: planRange_def step_simps catchup_Inr Let_def position_def canonicalHead_def ask_def head_of_put not_less
      not_le split: if_splits option.splits prod.splits)

text \<open>
  An oversized gap is refused before anything is asked: when a received head is more than
  \<open>MaxCatchupBlocks\<close> above the position, \<open>planRange\<close> fails with \<open>ErrCatchupTooLarge\<close> without one call
  to the node, one statement to the database or one change of its position.
\<close>

theorem planRange_refuses_gap:
  assumes "h \<in> set batch" "\<not> within_catchup (s_cfg S) (st_next (stream s)) (headNumber h)"
    and "\<forall>x \<in> set batch. plausible (headNumber x)" "plausible (st_tip (stream s))"
  shows "\<exists>e. planRange S batch s = (Inl e, s) \<and> errors_Is e ErrCatchupTooLarge"
proof -
  let ?tip = "foldl (\<lambda>highest h. max highest (headNumber h)) (st_tip (stream s)) batch"
  have "plausible a \<Longrightarrow> \<forall>x \<in> set hs. plausible (headNumber x) \<Longrightarrow>
      (let m = foldl (\<lambda>highest h. max highest (headNumber h)) a hs in plausible m \<and> a \<le> m \<and> (\<forall>x \<in> set hs. headNumber x \<le> m))"
    for a hs
  proof (induction hs arbitrary: a)
    case (Cons x hs)
    have "plausible (max a (headNumber x))" using Cons.prems by (simp add: max_def)
    from Cons.IH [OF this] Cons.prems show ?case by (simp add: Let_def)
  qed simp
  from this [OF assms(4,3)] have tip: "plausible ?tip" "headNumber h \<le> ?tip"
    using assms(1) by (auto simp: Let_def)
  have "unat (n - m + 1) = unat n - unat m + 1" if "m \<le> n" "n \<le> ?tip" for m n :: u64
  proof -
    have "unat n < 2 ^ 62" using plausible_mono [OF that(2) tip(1)] by (simp add: plausible_nat)
    then show ?thesis using that(1) by (subst unat_add_no_wrap) (auto simp: unat_sub word_le_nat_alt)
  qed
  from this [of "st_next (stream s)" ?tip] this [of "st_next (stream s)" "headNumber h"]
  have "\<not> within_catchup (s_cfg S) (st_next (stream s)) ?tip"
    using assms(2) tip(2) by (auto simp: within_catchup_def not_less not_le word_less_nat_alt word_le_nat_alt)
  then show ?thesis
    by (auto simp: planRange_def andThen_def gets_def checkCatchupBound_cases within_catchup_def not_less not_le word_gt_0
        errors_Is_def split: if_splits)
qed

section \<open>A fork and a gap\<close>

text \<open>
  The warehouse holds 5, 6 and 7; the node has replaced 7 (its hash is another one): the fork point
  below 7 is 6.
\<close>

definition held_blocks :: tables where
  "held_blocks = fresh_tables\<lparr>eth_blocks := map (\<lambda>n. BlockRow (block_of (head_at n))) [5, 6, 7], ingest_cursor := Some (5, 7)\<rparr>"

definition forked_head :: "u64 \<Rightarrow> block_head" where
  "forked_head n = (if n < 6 then head_at n else (head_at n)\<lparr>headHash := 99\<rparr>)"

definition forked_node :: "unit eth_client" where
  "forked_node = small_node\<lparr>HeadByNumberOp := \<lambda>n. ret (forked_head n)\<rparr>"

theorem findForkPoint_highest_witness:
  "fst (findForkPoint ((follower store_sink)\<lparr>s_client := forked_node\<rparr>) 7 (start_from (connect held_blocks))) = Inr (head_at 5) \<and>
   (\<exists>n. fork_at (stored_hash held_blocks) forked_head 7 n \<and> head_at 5 = forked_head n)"
proof -
  let ?S = "(follower store_sink)\<lparr>s_client := forked_node\<rparr>"
  let ?s = "start_from (connect held_blocks)"
  have run: "fst (findForkPoint ?S 7 ?s) = Inr (head_at 5)" by code_simp
  have "answers_heads forked_node forked_head" by (simp add: answers_heads_def forked_node_def ret_def)
  then have "s_sink ?S = store_sink" "answers_heads (s_client ?S) forked_head" "healthy (warehouse ?s)"
    by (simp_all add: follower_def start_from_def)
  from findForkPoint_highest [OF this, of 7] run show ?thesis by (simp add: start_from_def)
qed

theorem planRange_plans_witness:
  "\<exists>t. planRange (follower store_sink) [head_at 7] (started\<lparr>stream := \<lparr>st_next = 5, st_lowerBound = 5, st_tip = 4, st_heads = [(4, head_at 4)]\<rparr>\<rparr>)
       = (Inr (Some (5, 5)), t) \<and> st_tip (stream t) - 2 = 5"
proof -
  let ?run = "planRange (follower store_sink) [head_at 7] (started\<lparr>stream := \<lparr>st_next = 5, st_lowerBound = 5, st_tip = 4, st_heads = [(4, head_at 4)]\<rparr>\<rparr>)"
  have "fst ?run = Inr (Some (5, 5))" by code_simp
  then have run: "?run = (Inr (Some (5, 5)), snd ?run)" by (simp add: prod_eq_iff)
  from planRange_plans [OF run] run show ?thesis by (auto simp: follower_def)
qed

theorem planRange_refuses_gap_witness:
  "\<exists>e. planRange ((follower store_sink)\<lparr>s_cfg := \<lparr>MaxCatchupBlocks = 10, ConfirmationBlocks = 2, HeadTimeout = 60, HeadTimeoutText = ''1m0s''\<rparr>\<rparr>)
       [head_at 20] started = (Inl e, started) \<and> errors_Is e ErrCatchupTooLarge"
  by (rule planRange_refuses_gap [where h = "head_at 20"])
    (simp_all add: within_catchup_def started_def start_from_def head_at_def plausible_nat)

end
