(* ===== verification/Manifest.thy ===== *)
theory Manifest
  imports Store "HOL-Library.Char_ord" "HOL-Library.List_Lexorder"
begin

text \<open>
  \<open>internal/backfill/manifest.go\<close>: the manifest of an export and the checks of the local copy
  against it.

  \<open>export_dir\<close> is the export root as the loader sees it: what reading \<open>manifest.json\<close> gives, and
  every path below the root with its content or the error its reading gives (a directory is such
  an entry). The digests of the standard library are parameters. The export root itself holds no
  glob metacharacter. Go maps are association lists with distinct keys.
\<close>

section \<open>The manifest\<close>

record manifest_file =
  fileSize :: u64
  fileMD5 :: string

text \<open>\<open>BlocksRows\<close>, \<open>LogsRows\<close>, the rows of \<open>LogsParts\<close> and \<open>fileSize\<close> are \<open>int64\<close>, kept as bit patterns.\<close>

record manifest =
  exportName :: string
  exportSource :: string
  BlocksFirst :: u64
  BlocksLast :: u64
  BlocksRows :: u64
  LogsRows :: u64
  LogsParts :: "(string \<times> u64) list"
  ManifestFiles :: "(string \<times> manifest_file) list"

datatype manifest_read = ReadFails err | ParseFails err | Parsed manifest

datatype entry = Unreadable err | Content bytes

record export_dir =
  exRoot :: string
  exManifest :: manifest_read
  exEntries :: "(string \<times> entry) list"
  exMissing :: "string \<Rightarrow> err"

record digests =
  md5_base64 :: "bytes \<Rightarrow> string"
  sha256_hex :: "string \<Rightarrow> string"

definition ManifestName :: string where
  "ManifestName = ''manifest.json''"

definition show_int64 :: "u64 \<Rightarrow> string" where
  "show_int64 w = show_int (int64 w)"

definition PartitionNumber :: "u64 \<Rightarrow> string" where
  "PartitionNumber part = pad3 (show_u64 part)"

definition manifestPartDir :: "u64 \<Rightarrow> string" where
  "manifestPartDir part = ''logs/'' @ ''part='' @ PartitionNumber part"

definition readManifest :: "export_dir \<Rightarrow> err + manifest" where
  "readManifest X =
     (case exManifest X of
        ReadFails e \<Rightarrow> Inl (Wrapf (ManifestName @ '' is required at the export root and must come from the export's source, not from the copy (docs/operations.md): '') e '''')
      | ParseFails e \<Rightarrow> Inl (Wrapf (''parse '' @ ManifestName @ '': '') e '''')
      | Parsed m \<Rightarrow>
          if BlocksLast m < BlocksFirst m \<or> BlocksRows m \<noteq> BlocksLast m - BlocksFirst m + 1
          then Inl (ErrNew (ManifestName @ '': blocks '' @ show_u64 (BlocksFirst m) @ ''-'' @ show_u64 (BlocksLast m)
                 @ '' with '' @ show_int64 (BlocksRows m) @ '' rows is not one contiguous run''))
          else if sum_list (map snd (LogsParts m)) \<noteq> LogsRows m
          then Inl (ErrNew (ManifestName @ '': partition rows sum to '' @ show_int64 (sum_list (map snd (LogsParts m)))
                 @ '', logs.rows is '' @ show_int64 (LogsRows m)))
          else if ManifestFiles m = [] then Inl (ErrNew (ManifestName @ '' lists no files''))
          else Inr m)"

definition partRows :: "manifest \<Rightarrow> u64 \<Rightarrow> err + u64" where
  "partRows m part =
     (case map_of (LogsParts m) (PartitionNumber part) of
        None \<Rightarrow> Inl (ErrNew (ManifestName @ '' has no entry for logs/part='' @ PartitionNumber part))
      | Some n \<Rightarrow> Inr n)"

section \<open>The local copy\<close>

definition fileSizeAndMD5 :: "'x digests_scheme \<Rightarrow> export_dir \<Rightarrow> string \<Rightarrow> err + u64 \<times> string" where
  "fileSizeAndMD5 D X name =
     (case map_of (exEntries X) name of
        None \<Rightarrow> Inl (exMissing X name)
      | Some (Unreadable e) \<Rightarrow> Inl e
      | Some (Content bs) \<Rightarrow> Inr (of_nat (length bs), md5_base64 D bs))"

text \<open>\<open>m.Files[name]\<close>, the zero value for a missing key, and the names below a prefix, sorted.\<close>

definition manifest_entry :: "manifest \<Rightarrow> string \<Rightarrow> manifest_file" where
  "manifest_entry m name =
     (case map_of (ManifestFiles m) name of None \<Rightarrow> \<lparr>fileSize = 0, fileMD5 = ''''\<rparr> | Some f \<Rightarrow> f)"

definition listed_under :: "manifest \<Rightarrow> string \<Rightarrow> string list" where
  "listed_under m pre = sort (filter (prefix pre) (map fst (ManifestFiles m)))"

fun verify_listed :: "'x digests_scheme \<Rightarrow> export_dir \<Rightarrow> manifest \<Rightarrow> string list \<Rightarrow> err option" where
  "verify_listed D X m [] = None"
| "verify_listed D X m (name # names) =
     (let want = manifest_entry m name in
      case fileSizeAndMD5 D X name of
        Inl e \<Rightarrow> Some (Wrapf (name @ '' listed in '' @ ManifestName @ '': '') e '''')
      | Inr (sz, md5) \<Rightarrow>
          if sz \<noteq> fileSize want \<or> md5 \<noteq> fileMD5 want
          then Some (ErrNew (name @ '' differs from '' @ ManifestName @ '' (size '' @ show_int64 sz @ '' vs ''
                 @ show_int64 (fileSize want) @ '', md5 '' @ md5 @ '' vs '' @ fileMD5 want
                 @ ''); the copy is truncated or altered''))
          else verify_listed D X m names)"

text \<open>
  \<open>filepath.Glob(prefix + "*/" ... + "*.parquet")\<close> with \<open>k\<close> directories below the prefix: a star
  matches within one path component, and the matches come in the order of the components.
\<close>

fun path_components :: "string \<Rightarrow> string list" where
  "path_components [] = [[]]"
| "path_components (c # cs) =
     (if c = CHR ''/'' then [] # path_components cs
      else (case path_components cs of [] \<Rightarrow> [[c]] | w # ws \<Rightarrow> (c # w) # ws))"

definition glob_parquet :: "export_dir \<Rightarrow> string \<Rightarrow> nat \<Rightarrow> string list" where
  "glob_parquet X pre k =
     sort_key path_components
       (filter (\<lambda>n. prefix pre n \<and> length (path_components (drop (length pre) n)) = Suc k
            \<and> suffix ''.parquet'' (drop (length pre) n))
         (map fst (exEntries X)))"

fun verify_unlisted :: "manifest \<Rightarrow> string list \<Rightarrow> err option" where
  "verify_unlisted m [] = None"
| "verify_unlisted m (rel # paths) =
     (if map_of (ManifestFiles m) rel = None
      then Some (ErrNew (rel @ '' is not listed in '' @ ManifestName @ ''; the copy holds files the export did not produce''))
      else verify_unlisted m paths)"

definition verifyFilesUnder :: "'x digests_scheme \<Rightarrow> export_dir \<Rightarrow> manifest \<Rightarrow> string \<Rightarrow> err option" where
  "verifyFilesUnder D X m pre =
     (let names = listed_under m pre in
      if names = [] then Some (ErrNew (ManifestName @ '' lists no files under \"'' @ pre @ ''\"''))
      else (case verify_listed D X m names of
        Some e \<Rightarrow> Some e
      | None \<Rightarrow> verify_unlisted m (glob_parquet X pre 0 @ glob_parquet X pre 1 @ glob_parquet X pre 2)))"

definition verifyFiles :: "'x digests_scheme \<Rightarrow> export_dir \<Rightarrow> manifest \<Rightarrow> err option" where
  "verifyFiles D X m = verifyFilesUnder D X m ''''"

section \<open>The fingerprint of a unit\<close>

definition fingerprint_line :: "string \<Rightarrow> manifest_file \<Rightarrow> string" where
  "fingerprint_line name f = name @ ''|'' @ show_int64 (fileSize f) @ ''|'' @ fileMD5 f @ [CHR 0x0A]"

definition fingerprint_text :: "manifest \<Rightarrow> string \<Rightarrow> string" where
  "fingerprint_text m pre = concat (map (\<lambda>name. fingerprint_line name (manifest_entry m name)) (listed_under m pre))"

definition unitFingerprint :: "'x digests_scheme \<Rightarrow> manifest \<Rightarrow> string \<Rightarrow> string" where
  "unitFingerprint D m pre = sha256_hex D (fingerprint_text m pre)"

end
