(* ===== verification/Loader.thy ===== *)
theory Loader
  imports Reader Manifest
begin

text \<open>
  \<open>internal/backfill/loader.go\<close>: the stages that load a Parquet export into the warehouse.

  A stage is a step on the connection \<open>pg\<close>, with the export directory and the libraries it
  uses as arguments. parquet-go is a parameter: \<open>OpenParquet\<close> gives a file's schema, footer row count
  and row groups, a row group the replies its successive \<open>ReadRows\<close> calls give, and a row the value
  in each leaf column. A COPY row is a list of cells. The staging table is local to the
  transaction, so it is the list of rows staged so far.
\<close>

section \<open>Parquet files\<close>

type_synonym 'v parquet_row = "nat \<Rightarrow> 'v"

datatype read_end = NoError | EndOfFile | ReadError err

record 'v parquet_group =
  NumRows :: u64
  Replies :: "('v parquet_row list \<times> read_end) list"

record 'v parquet_file =
  SchemaColumns :: "(string list \<times> nat) list"
  FooterRows :: u64
  RowGroups :: "'v parquet_group list"

text \<open>\<open>LoadCtxErr file group refill\<close> is \<open>ctx.Err()\<close> at that point of the reading.\<close>

record 'v libraries = digests +
  OpenParquet :: "bytes \<Rightarrow> err + 'v parquet_file"
  IsNull :: "'v \<Rightarrow> bool"
  Int64Of :: "'v \<Rightarrow> u64"
  ByteArrayOf :: "'v \<Rightarrow> bytes"
  LoadCtxErr :: "string \<Rightarrow> nat \<Rightarrow> nat \<Rightarrow> err option"

definition open_file :: "'v libraries \<Rightarrow> export_dir \<Rightarrow> string \<Rightarrow> err + 'v parquet_file" where
  "open_file V X name =
     (case map_of (exEntries X) name of
        None \<Rightarrow> Inl (exMissing X name)
      | Some (Unreadable e) \<Rightarrow> Inl e
      | Some (Content bs) \<Rightarrow>
          (case OpenParquet V bs of Inl e \<Rightarrow> Inl (Wrapf ''open parquet: '' e '''') | Inr f \<Rightarrow> Inr f))"

definition parquetRowCount :: "'v libraries \<Rightarrow> export_dir \<Rightarrow> string \<Rightarrow> err + u64" where
  "parquetRowCount V X name = (case open_file V X name of Inl e \<Rightarrow> Inl e | Inr f \<Rightarrow> Inr (FooterRows f))"

definition parquetFiles :: "export_dir \<Rightarrow> string \<Rightarrow> err + string list" where
  "parquetFiles X dir =
     (let files = glob_parquet X (dir @ ''/'') 0 in
      if files = [] then Inl (ErrNew (''no .parquet files in '' @ exRoot X @ ''/'' @ dir)) else Inr (sort files))"

section \<open>Rows\<close>

datatype cell = CNull | CInt int | CBytes bytes

fun join_dots :: "string list \<Rightarrow> string" where
  "join_dots [] = []"
| "join_dots [w] = w"
| "join_dots (w # ws) = w @ ''.'' @ join_dots ws"

text \<open>The map \<open>cols\<close>: a later column of the same name replaces an earlier one; a name the schema lacks reads 0.\<close>

definition schema_cols :: "'v parquet_file \<Rightarrow> (string \<times> nat) list" where
  "schema_cols f = rev (map (\<lambda>(path, i). (join_dots path, i)) (SchemaColumns f))"

definition value_at :: "(string \<times> nat) list \<Rightarrow> 'v parquet_row \<Rightarrow> string \<Rightarrow> 'v" where
  "value_at c r name = r (case map_of c name of None \<Rightarrow> 0 | Some i \<Rightarrow> i)"

definition bytesOrNil :: "'v libraries \<Rightarrow> 'v \<Rightarrow> cell" where
  "bytesOrNil V v = (if IsNull V v then CNull else CBytes (ByteArrayOf V v))"

definition bytesOrEmpty :: "'v libraries \<Rightarrow> 'v \<Rightarrow> cell" where
  "bytesOrEmpty V v = (if IsNull V v then CBytes [] else CBytes (ByteArrayOf V v))"

definition logRow :: "'v libraries \<Rightarrow> (string \<times> nat) list \<Rightarrow> 'v parquet_row \<Rightarrow> cell list" where
  "logRow V c r =
     [CInt (int64 (Int64Of V (value_at c r ''block_number''))),
      CInt (int32 (Int64Of V (value_at c r ''log_index''))),
      CInt (int32 (Int64Of V (value_at c r ''tx_index''))),
      bytesOrNil V (value_at c r ''tx_hash''), bytesOrNil V (value_at c r ''address''),
      bytesOrNil V (value_at c r ''topic0''), bytesOrNil V (value_at c r ''topic1''),
      bytesOrNil V (value_at c r ''topic2''), bytesOrNil V (value_at c r ''topic3''),
      bytesOrEmpty V (value_at c r ''data'')]"

definition blockRow :: "'v libraries \<Rightarrow> (string \<times> nat) list \<Rightarrow> 'v parquet_row \<Rightarrow> cell list" where
  "blockRow V c r =
     [CInt (int64 (Int64Of V (value_at c r ''number''))), bytesOrNil V (value_at c r ''block_hash''),
      CInt (int64 (Int64Of V (value_at c r ''ts'')))]"

text \<open>
  What COPY makes of the cells in the order of \<open>logColumns\<close> and \<open>blockColumns\<close>: the row, or none
  when a NOT NULL column gets NULL (\<open>CREATE TABLE ... LIKE\<close> copies the NOT NULL constraints).
\<close>

fun nullable :: "cell \<Rightarrow> bytes option" where
  "nullable (CBytes b) = Some b"
| "nullable _ = None"

fun log_of_cells :: "cell list \<Rightarrow> log_row option" where
  "log_of_cells [CInt n, CInt i, CInt ti, CBytes h, CBytes a, CBytes t0, t1, t2, t3, CBytes d] =
     Some \<lparr>r_block_number = n, r_log_index = i, r_tx_index = ti, r_tx_hash = h, r_address = a,
       r_topic0 = Some t0, r_topic1 = nullable t1, r_topic2 = nullable t2, r_topic3 = nullable t3, r_data = Some d\<rparr>"
| "log_of_cells _ = None"

fun block_of_cells :: "cell list \<Rightarrow> block_row option" where
  "block_of_cells [CInt n, CBytes h, CInt ts] = Some \<lparr>b_number = n, b_hash = h, b_ts = ts\<rparr>"
| "block_of_cells _ = None"

fun rows_of_cells :: "(cell list \<Rightarrow> 'r option) \<Rightarrow> cell list list \<Rightarrow> 'r list option" where
  "rows_of_cells f [] = Some []"
| "rows_of_cells f (c # cs) =
     (case f c of None \<Rightarrow> None | Some r \<Rightarrow> map_option (Cons r) (rows_of_cells f cs))"

section \<open>The source of a COPY\<close>

text \<open>\<open>parquetSource\<close>: \<open>src_rows\<close> are the replies still to come, \<open>src_reads\<close> counts the refills.\<close>

record 'v parquet_source =
  src_ctx :: "nat \<Rightarrow> err option"
  src_reads :: nat
  src_rows :: "('v parquet_row list \<times> read_end) list"
  src_buf :: "'v parquet_row list"
  src_n :: nat
  src_i :: nat
  src_err :: "err option"

text \<open>\<open>rows.ReadRows(buf)\<close>: the next reply; past the last one, no rows and the end of the file.\<close>

definition ReadRows :: "'v parquet_source \<Rightarrow> ('v parquet_row list \<times> read_end) \<times> 'v parquet_source" where
  "ReadRows s =
     (case src_rows s of
        [] \<Rightarrow> (([], EndOfFile), s)
      | reply # rest \<Rightarrow> (reply, s\<lparr>src_rows := rest\<rparr>))"

definition advance_source :: "'v parquet_source \<Rightarrow> bool \<times> 'v parquet_source" where
  "advance_source s =
     (if src_err s \<noteq> None then (False, s)
      else
        let s1 = s\<lparr>src_i := src_i s + 1\<rparr> in
        if src_i s1 < src_n s1 then (True, s1)
        else
          (case src_ctx s1 (src_reads s1) of
             Some e \<Rightarrow> (False, s1\<lparr>src_err := Some e\<rparr>)
           | None \<Rightarrow>
               (case ReadRows (s1\<lparr>src_reads := src_reads s1 + 1\<rparr>) of
                  ((rows, end), s2) \<Rightarrow>
                    if length rows = 0
                    then (False, (case end of ReadError e \<Rightarrow> s2\<lparr>src_err := Some e\<rparr> | _ \<Rightarrow> s2))
                    else (True, s2\<lparr>src_buf := rows, src_n := length rows, src_i := 0\<rparr>))))"

definition source_size :: "'v parquet_source \<Rightarrow> nat" where
  "source_size s = sum_list (map (\<lambda>(rows, end). length rows + 1) (src_rows s)) + (src_n s - src_i s)"

lemma advance_source_size: "advance_source s = (True, t) \<Longrightarrow> source_size t < source_size s"
  by (auto simp: advance_source_def source_size_def ReadRows_def Let_def
      split: if_splits option.splits list.splits prod.splits)

function Next :: "('v parquet_row \<Rightarrow> bool) option \<Rightarrow> 'v parquet_source \<Rightarrow> bool \<times> 'v parquet_source" where
  "Next keep s =
     (case advance_source s of
        (False, t) \<Rightarrow> (False, t)
      | (True, t) \<Rightarrow>
          (case keep of
             None \<Rightarrow> (True, t)
           | Some p \<Rightarrow> if p (src_buf t ! src_i t) then (True, t) else Next keep t))"
  by pat_completeness auto
termination
  by (relation "measure (source_size \<circ> snd)") (auto simp: advance_source_size)

declare Next.simps [simp del]

lemma Next_size: "Next keep s = (True, t) \<Longrightarrow> source_size t < source_size s"
proof (induction keep s rule: Next.induct)
  case (1 keep s)
  obtain b u where u: "advance_source s = (b, u)" by fastforce
  show ?case
  proof (cases b)
    case True
    then have size: "source_size u < source_size s" using u by (simp add: advance_source_size)
    show ?thesis
    proof (cases keep)
      case None
      then show ?thesis using 1(2) u True size by (simp add: Next.simps [of None s])
    next
      case (Some p)
      then show ?thesis
        using 1(2) u True size 1(1) by (fastforce simp: Next.simps [of "Some p" s] split: if_splits)
    qed
  next
    case False
    then show ?thesis using 1(2) u by (simp add: Next.simps [of keep s])
  qed
qed

text \<open>\<open>CopyFrom\<close> draws the rows while \<open>Next\<close> holds, and asks \<open>Err\<close> at the end.\<close>

function copy_source :: "('v parquet_row \<Rightarrow> bool) option \<Rightarrow> 'v parquet_source \<Rightarrow> 'v parquet_row list \<times> err option" where
  "copy_source keep s =
     (case Next keep s of
        (False, t) \<Rightarrow> ([], src_err t)
      | (True, t) \<Rightarrow> (case copy_source keep t of (rows, e) \<Rightarrow> (src_buf t ! src_i t # rows, e)))"
  by pat_completeness auto
termination
  by (relation "measure (source_size \<circ> snd)") (auto simp: Next_size)

declare copy_source.simps [simp del]

definition new_source :: "(nat \<Rightarrow> err option) \<Rightarrow> 'v parquet_group \<Rightarrow> 'v parquet_source" where
  "new_source ctx g =
     \<lparr>src_ctx = ctx, src_reads = 0, src_rows = Replies g, src_buf = [], src_n = 0, src_i = 0, src_err = None\<rparr>"

section \<open>Copying a file\<close>

text \<open>
  One COPY per row group: \<open>put\<close> is the server's part, the rows it takes. The list returned is what
  the file added; Go returns its length.
\<close>

fun copy_groups ::
  "('v parquet_row \<Rightarrow> cell list) \<Rightarrow> ('v parquet_row \<Rightarrow> bool) option \<Rightarrow> (nat \<Rightarrow> nat \<Rightarrow> err option) \<Rightarrow>
    (cell list list \<Rightarrow> tables \<Rightarrow> err + 'r list \<times> tables) \<Rightarrow> nat \<Rightarrow> 'v parquet_group list \<Rightarrow> (pg, err, 'r list) step" where
  "copy_groups mapRow keep ctx put k [] = ret []"
| "copy_groups mapRow keep ctx put k (g # gs) =
     (if NumRows g = 0 then copy_groups mapRow keep ctx put (k + 1) gs
      else
      andThen (exec (\<lambda>t. case copy_source keep (new_source (ctx k) g) of
          (rows, Some e) \<Rightarrow> Inl e
        | (rows, None) \<Rightarrow> put (map mapRow rows) t)) (\<lambda>rs.
      andThen (copy_groups mapRow keep ctx put (k + 1) gs) (\<lambda>rest.
      ret (rs @ rest))))"

definition copyParquetWhere ::
  "'v libraries \<Rightarrow> export_dir \<Rightarrow> string \<Rightarrow> (cell list list \<Rightarrow> tables \<Rightarrow> err + 'r list \<times> tables) \<Rightarrow>
    ((string \<times> nat) list \<Rightarrow> 'v parquet_row \<Rightarrow> cell list) \<Rightarrow> ((string \<times> nat) list \<Rightarrow> 'v parquet_row \<Rightarrow> bool) option \<Rightarrow>
    (pg, err, 'r list) step" where
  "copyParquetWhere V X name put mapRow keep =
     andThen (lift (open_file V X name)) (\<lambda>f.
     let cols = schema_cols f in
     copy_groups (mapRow cols) (map_option (\<lambda>k. k cols) keep) (LoadCtxErr V name) put 0 (RowGroups f))"

definition copyParquet ::
  "'v libraries \<Rightarrow> export_dir \<Rightarrow> string \<Rightarrow> (cell list list \<Rightarrow> tables \<Rightarrow> err + 'r list \<times> tables) \<Rightarrow>
    ((string \<times> nat) list \<Rightarrow> 'v parquet_row \<Rightarrow> cell list) \<Rightarrow> (pg, err, 'r list) step" where
  "copyParquet V X name put mapRow = copyParquetWhere V X name put mapRow None"

definition not_null_violation :: err where
  "not_null_violation = DbError ''null value violates not-null constraint''"

text \<open>COPY into the staging table, which has no primary key, and COPY into \<open>eth_blocks\<close>.\<close>

definition put_staging :: "cell list list \<Rightarrow> tables \<Rightarrow> err + log_row list \<times> tables" where
  "put_staging cells t =
     (case rows_of_cells log_of_cells cells of None \<Rightarrow> Inl not_null_violation | Some rs \<Rightarrow> Inr (rs, t))"

definition put_blocks :: "cell list list \<Rightarrow> tables \<Rightarrow> err + block_row list \<times> tables" where
  "put_blocks cells t =
     (case rows_of_cells block_of_cells cells of
        None \<Rightarrow> Inl not_null_violation
      | Some rs \<Rightarrow> (case copy_block_rows rs t of Inl e \<Rightarrow> Inl e | Inr (_, t') \<Rightarrow> Inr (rs, t')))"

fun copy_files :: "export_dir \<Rightarrow> (string \<Rightarrow> (pg, err, 'r list) step) \<Rightarrow> string list \<Rightarrow> (pg, err, 'r list) step" where
  "copy_files X load [] = ret []"
| "copy_files X load (file # files) =
     andThen (onErr (\<lambda>e. Wrapf (''load '' @ exRoot X @ ''/'' @ file @ '': '') e '''') (load file)) (\<lambda>rs.
     andThen (copy_files X load files) (\<lambda>rest.
     ret (rs @ rest)))"

section \<open>Units\<close>

definition blocksUnit :: string where
  "blocksUnit = ''blocks''"

definition unitInterval :: "manifest \<Rightarrow> u64 \<Rightarrow> u64 \<times> u64" where
  "unitInterval m part =
     (max (part * PartitionBlocks) (BlocksFirst m),
      min (part * PartitionBlocks + PartitionBlocks - 1) (BlocksLast m))"

definition loadedUnit :: "string \<Rightarrow> (pg, err, string) step" where
  "loadedUnit unit =
     onErr (\<lambda>e. Wrapf (''read backfill unit '' @ unit @ '': '') e '''')
       (query (\<lambda>t. case map_of (backfill_units t) unit of None \<Rightarrow> '''' | Some (fp, n) \<Rightarrow> fp))"

definition recordUnit :: "string \<Rightarrow> string \<Rightarrow> int \<Rightarrow> (pg, err, unit) step" where
  "recordUnit unit fingerprint rows =
     onErr (\<lambda>e. Wrapf (''record backfill unit '' @ unit @ '': '') e '''')
       (update (\<lambda>t. t\<lparr>backfill_units := (unit, fingerprint, rows) # filter (\<lambda>u. fst u \<noteq> unit) (backfill_units t)\<rparr>))"

definition markMaintenance :: "string \<Rightarrow> (pg, err, unit) step" where
  "markMaintenance unit =
     andThen readCoverage (\<lambda>cov.
     case cov of
       None \<Rightarrow> ret ()
     | Some c \<Rightarrow> SetMaintenance True (''backfill reloading '' @ unit @ ''; run the remaining stages and finish to verify''))"

definition preflightCoverage :: "export_dir \<Rightarrow> (pg, err, unit) step" where
  "preflightCoverage X =
     andThen (lift (readManifest X)) (\<lambda>m.
     andThen readCoverage (\<lambda>cov.
     case cov of
       None \<Rightarrow> ret ()
     | Some c \<Rightarrow>
         if BlocksFirst m > covHead c + 1 \<or> BlocksLast m + 1 < covStart c
         then throw (Wrapf '''' (Sentinel ErrCoverageGap)
                ('': the export covers blocks '' @ range_text (BlocksFirst m) (BlocksLast m) @ '' but the warehouse already publishes ''
                 @ range_text (covStart c) (covHead c)
                 @ '' (a tail-only start); recreate the database (make clean) and run the backfill before starting ingestion''))
         else ret ()))"

definition between_logs :: "u64 \<Rightarrow> u64 \<Rightarrow> tables \<Rightarrow> log_row list" where
  "between_logs lo hi t = filter (\<lambda>r. int64 lo \<le> r_block_number r \<and> r_block_number r \<le> int64 hi) (eth_logs t)"

definition between_blocks :: "u64 \<Rightarrow> u64 \<Rightarrow> tables \<Rightarrow> block_row list" where
  "between_blocks lo hi t = filter (\<lambda>b. int64 lo \<le> b_number b \<and> b_number b \<le> int64 hi) (eth_blocks t)"

definition fail_with :: "err option \<Rightarrow> ('s, err, unit) step" where
  "fail_with e = (case e of None \<Rightarrow> ret () | Some e \<Rightarrow> throw e)"

text \<open>A statement that changes no table the model keeps: Acquire, CREATE TEMP TABLE, ANALYZE.\<close>

definition statement :: "(pg, err, unit) step" where
  "statement = update (\<lambda>t. t)"

section \<open>The stage logs\<close>

definition load_part_body :: "'v libraries \<Rightarrow> export_dir \<Rightarrow> manifest \<Rightarrow> u64 \<Rightarrow> string list \<Rightarrow> u64 \<Rightarrow> (pg, err, unit) step" where
  "load_part_body V X m part files want =
     (let (lo, hi) = unitInterval m part; unit = manifestPartDir part in
     andThen (onErr (\<lambda>e. Wrapf (''clear partition '' @ show_u64 part @ '': '') e '''')
               (update (delete_logs_between (int64 lo) (int64 hi)))) (\<lambda>_.
     andThen (onErr (\<lambda>e. Wrapf ''create staging: '' e '''') statement) (\<lambda>_.
     andThen (copy_files X (\<lambda>file. copyParquet V X file put_staging (logRow V)) files) (\<lambda>staged.
     if (of_nat (length staged) :: u64) \<noteq> want
     then throw (ErrNew (''part '' @ PartitionNumber part @ '' files hold '' @ dec (length staged) @ '' rows, '' @ ManifestName
            @ '' says '' @ show_int64 want @ ''; the copy is incomplete''))
     else
     andThen (onErr (\<lambda>e. Wrapf (''check staged rows of part '' @ show_u64 part @ '': '') e '''')
               (query (\<lambda>t. length (filter (\<lambda>r. r_block_number r < int64 lo \<or> r_block_number r > int64 hi) staged)))) (\<lambda>outside.
     if outside \<noteq> 0
     then throw (ErrNew (''part '' @ PartitionNumber part @ '' files hold '' @ dec outside @ '' rows outside blocks '' @ range_text lo hi))
     else
     andThen (onErr (\<lambda>e. Wrapf (''insert part '' @ show_u64 part @ '': '') e '''')
               (exec (copy_log_rows (sort_key row_key staged)))) (\<lambda>_.
     recordUnit unit (unitFingerprint V m (unit @ ''/'')) (int (length staged))))))))"

definition loadPart :: "'v libraries \<Rightarrow> export_dir \<Rightarrow> manifest \<Rightarrow> u64 \<Rightarrow> (pg, err, unit) step" where
  "loadPart V X m part =
     andThen (lift (partRows m part)) (\<lambda>want.
     andThen (fail_with (verifyFilesUnder V X m (manifestPartDir part @ ''/''))) (\<lambda>_.
     let (lo, hi) = unitInterval m part; unit = manifestPartDir part; fingerprint = unitFingerprint V m (unit @ ''/'') in
     andThen (lift (parquetFiles X (manifestPartDir part))) (\<lambda>files.
     andThen (onErr (\<lambda>e. Wrapf (''count partition '' @ show_u64 part @ '': '') e '''')
               (query (\<lambda>t. of_nat (length (between_logs lo hi t)) :: u64))) (\<lambda>have.
     andThen (loadedUnit unit) (\<lambda>recorded.
     if have = want \<and> recorded = fingerprint then ret ()
     else
     andThen (markMaintenance unit) (\<lambda>_.
     andThen statement (\<lambda>_.
     andThen (onErr (\<lambda>e. Wrapf (''ensure partition for part '' @ show_u64 part @ '': '') e '''')
               (exec (create_partition (PartitionDDL (part * PartitionBlocks))))) (\<lambda>_.
     in_tx (load_part_body V X m part files want)))))))))"

definition Logs :: "'v libraries \<Rightarrow> export_dir \<Rightarrow> (pg, err, unit) step" where
  "Logs V X =
     andThen (preflightCoverage X) (\<lambda>_.
     andThen (lift (readManifest X)) (\<lambda>m.
     let first = BlocksFirst m div PartitionBlocks; last = BlocksLast m div PartitionBlocks in
     for_up Diverges (loop_fuel first last) 1 first last (loadPart V X m)))"

section \<open>The stage blocks\<close>

definition inInterval :: "'v libraries \<Rightarrow> manifest \<Rightarrow> (string \<times> nat) list \<Rightarrow> 'v parquet_row \<Rightarrow> bool" where
  "inInterval V m c r =
     (let n = Int64Of V (value_at c r ''number'') in 0 \<le> int64 n \<and> BlocksFirst m \<le> n \<and> n \<le> BlocksLast m)"

definition blocks_body :: "'v libraries \<Rightarrow> export_dir \<Rightarrow> manifest \<Rightarrow> string list \<Rightarrow> (pg, err, unit) step" where
  "blocks_body V X m files =
     andThen (onErr (\<lambda>e. Wrapf ''clear blocks: '' e '''')
               (update (delete_blocks_between (int64 (BlocksFirst m)) (int64 (BlocksLast m))))) (\<lambda>_.
     andThen (copy_files X (\<lambda>file. copyParquetWhere V X file put_blocks (blockRow V) (Some (inInterval V m))) files) (\<lambda>rows.
     recordUnit blocksUnit (unitFingerprint V m ''blocks/'') (int (length rows))))"

definition Blocks :: "'v libraries \<Rightarrow> export_dir \<Rightarrow> (pg, err, unit) step" where
  "Blocks V X =
     andThen (preflightCoverage X) (\<lambda>_.
     andThen (lift (readManifest X)) (\<lambda>m.
     andThen (fail_with (verifyFilesUnder V X m ''blocks/'')) (\<lambda>_.
     andThen (lift (parquetFiles X ''blocks'')) (\<lambda>files.
     andThen (onErr (\<lambda>e. Wrapf ''check blocks: '' e '''')
               (query (\<lambda>t. of_nat (length (between_blocks (BlocksFirst m) (BlocksLast m) t)) :: u64))) (\<lambda>have.
     andThen (loadedUnit blocksUnit) (\<lambda>recorded.
     if have = BlocksRows m \<and> recorded = unitFingerprint V m ''blocks/'' then ret ()
     else
     andThen (markMaintenance blocksUnit) (\<lambda>_.
     in_tx (blocks_body V X m files))))))))"

section \<open>The secondary indexes\<close>

record index_def =
  index_name :: string
  index_DDL :: string

definition SecondaryIndexes :: "index_def list" where
  "SecondaryIndexes =
     [\<lparr>index_name = ''eth_logs_t1'', index_DDL = ''CREATE INDEX eth_logs_t1 ON eth_logs (topic1, block_number) WHERE topic1 IS NOT NULL''\<rparr>,
      \<lparr>index_name = ''eth_logs_t2'', index_DDL = ''CREATE INDEX eth_logs_t2 ON eth_logs (topic2, block_number) WHERE topic2 IS NOT NULL''\<rparr>,
      \<lparr>index_name = ''eth_logs_t3'', index_DDL = ''CREATE INDEX eth_logs_t3 ON eth_logs (topic3, block_number) WHERE topic3 IS NOT NULL''\<rparr>,
      \<lparr>index_name = ''eth_logs_addr'', index_DDL = ''CREATE INDEX eth_logs_addr ON eth_logs (address, block_number)''\<rparr>,
      \<lparr>index_name = ''eth_logs_addr_t3'', index_DDL = ''CREATE INDEX eth_logs_addr_t3 ON eth_logs (address, topic3, block_number) WHERE topic3 IS NOT NULL''\<rparr>,
      \<lparr>index_name = ''eth_logs_erc1155_id'', index_DDL = ''CREATE INDEX eth_logs_erc1155_id ON eth_logs (address, (substring(data from 1 for 32)), block_number) WHERE topic0 = ''
         @ [CHR 0x27, CHR 0x5C] @ ''xc3d58168c5ae7397731d063d5bbf3d657854427343f4c083240f7aacaa2d0f62'' @ [CHR 0x27] @ ''::bytea''\<rparr>]"

text \<open>The server's part of the two statements on an index; \<open>indexes\<close> holds the names of the existing ones.\<close>

definition drop_index :: "string \<Rightarrow> tables \<Rightarrow> tables" where
  "drop_index name t = t\<lparr>indexes := filter (\<lambda>n. n \<noteq> name) (indexes t)\<rparr>"

definition create_index :: "string \<Rightarrow> tables \<Rightarrow> err + unit \<times> tables" where
  "create_index name t =
     (if name \<in> set (indexes t) then Inl (DbError (''relation '' @ name @ '' already exists''))
      else Inr ((), t\<lparr>indexes := indexes t @ [name]\<rparr>))"

definition isDuplicateRelation :: "err \<Rightarrow> bool" where
  "isDuplicateRelation e \<longleftrightarrow> Contains (Error e) ''already exists''"

definition ensure_index :: "index_def \<Rightarrow> (pg, err, unit) step" where
  "ensure_index idx s =
     (case exec (create_index (index_name idx)) s of
        (Inl e, t) \<Rightarrow>
          if isDuplicateRelation e then (Inr (), t)
          else (Inl (Wrapf (''create index '' @ index_name idx @ '': '') e ''''), t)
      | (Inr _, t) \<Rightarrow> (Inr (), t))"

definition Prepare :: "export_dir \<Rightarrow> (pg, err, unit) step" where
  "Prepare X =
     andThen (preflightCoverage X) (\<lambda>_.
     for_each SecondaryIndexes (\<lambda>idx.
       onErr (\<lambda>e. Wrapf (''drop index '' @ index_name idx @ '': '') e '''') (update (drop_index (index_name idx)))))"

section \<open>The stage finish\<close>

fun footer_rows :: "'v libraries \<Rightarrow> export_dir \<Rightarrow> string list \<Rightarrow> err + u64" where
  "footer_rows V X [] = Inr 0"
| "footer_rows V X (file # files) =
     (case parquetRowCount V X file of
        Inl e \<Rightarrow> Inl (Wrapf (exRoot X @ ''/'' @ file @ '': '') e '''')
      | Inr n \<Rightarrow> (case footer_rows V X files of Inl e \<Rightarrow> Inl e | Inr rest \<Rightarrow> Inr (n + rest)))"

definition verifyPart :: "'v libraries \<Rightarrow> export_dir \<Rightarrow> manifest \<Rightarrow> u64 \<Rightarrow> (pg, err, unit) step" where
  "verifyPart V X m part =
     andThen (lift (partRows m part)) (\<lambda>want.
     let dir = manifestPartDir part in
     if map_of (exEntries X) dir = None
     then throw (ErrNew (''export is missing '' @ dir @ '' for blocks ''
            @ range_text (part * PartitionBlocks) (part * PartitionBlocks + PartitionBlocks - 1) @ ''; copy the full export''))
     else
     andThen (lift (parquetFiles X dir)) (\<lambda>files.
     andThen (lift (footer_rows V X files)) (\<lambda>footer.
     if footer \<noteq> want
     then throw (ErrNew (''part '' @ PartitionNumber part @ '' files hold '' @ show_int64 footer @ '' rows, '' @ ManifestName
            @ '' says '' @ show_int64 want @ ''; the copy is incomplete''))
     else
     let (lo, hi) = unitInterval m part in
     andThen (onErr (\<lambda>e. Wrapf (''count partition '' @ show_u64 part @ '': '') e '''')
               (query (\<lambda>t. of_nat (length (between_logs lo hi t)) :: u64))) (\<lambda>got.
     if got \<noteq> want
     then throw (ErrNew (''part '' @ PartitionNumber part @ '' has '' @ show_int64 got @ '' rows in the database, '' @ ManifestName
            @ '' says '' @ show_int64 want @ ''; run the logs stage''))
     else ret ()))))"

definition verifyUnitLoadedFrom :: "'v libraries \<Rightarrow> manifest \<Rightarrow> string \<Rightarrow> string \<Rightarrow> (pg, err, unit) step" where
  "verifyUnitLoadedFrom V m unit pre =
     andThen (loadedUnit unit) (\<lambda>recorded.
     if recorded \<noteq> unitFingerprint V m pre
     then throw (ErrNew (unit @ '' was loaded from a different export than '' @ ManifestName
            @ '' describes (or never recorded); rerun its stage''))
     else ret ())"

text \<open>\<open>SELECT MIN(number), MAX(number), COUNT(*)\<close>: over no row the two extremes are NULL.\<close>

definition block_extent :: "u64 \<Rightarrow> u64 \<Rightarrow> tables \<Rightarrow> (int \<times> int \<times> nat) option" where
  "block_extent lo hi t =
     (let ns = map b_number (between_blocks lo hi t)
      in if ns = [] then None else Some (Min (set ns), Max (set ns), length ns))"

definition verify_part_loaded :: "'v libraries \<Rightarrow> export_dir \<Rightarrow> manifest \<Rightarrow> u64 \<Rightarrow> (pg, err, unit) step" where
  "verify_part_loaded V X m part =
     andThen (verifyPart V X m part) (\<lambda>_.
     verifyUnitLoadedFrom V m (manifestPartDir part) (manifestPartDir part @ ''/''))"

definition verifyLoaded :: "'v libraries \<Rightarrow> export_dir \<Rightarrow> (pg, err, coverage) step" where
  "verifyLoaded V X =
     andThen (lift (readManifest X)) (\<lambda>m.
     andThen (onErr (\<lambda>e. Wrapf ''read blocks: '' e '''') (query (block_extent (BlocksFirst m) (BlocksLast m)))) (\<lambda>extent.
     case extent of
       None \<Rightarrow> throw (ErrNew ''no blocks loaded; run the blocks stage first'')
     | Some (lo, hi, n) \<Rightarrow>
         if uint64 lo \<noteq> BlocksFirst m \<or> uint64 hi \<noteq> BlocksLast m \<or> (of_nat n :: u64) \<noteq> BlocksRows m
         then throw (ErrNew (''eth_blocks holds '' @ dec n @ '' rows for blocks '' @ show_int lo @ ''-'' @ show_int hi @ '', ''
                @ ManifestName @ '' says '' @ show_int64 (BlocksRows m) @ '' rows for '' @ range_text (BlocksFirst m) (BlocksLast m)))
         else
         andThen (verifyUnitLoadedFrom V m blocksUnit ''blocks/'') (\<lambda>_.
         let first = BlocksFirst m div PartitionBlocks; last = BlocksLast m div PartitionBlocks in
         andThen (for_up Diverges (loop_fuel first last) 1 first last (verify_part_loaded V X m)) (\<lambda>_.
         andThen (fail_with (verifyFiles V X m)) (\<lambda>_.
         ret \<lparr>covStart = BlocksFirst m, covHead = BlocksLast m\<rparr>)))))"

definition Finish :: "'v libraries \<Rightarrow> export_dir \<Rightarrow> (pg, err, unit) step" where
  "Finish V X =
     andThen (preflightCoverage X) (\<lambda>_.
     andThen (onErr (\<lambda>e. Wrapf ''backfill is not complete, cursor not set: '' e '''') (verifyLoaded V X)) (\<lambda>cov.
     andThen (for_each SecondaryIndexes ensure_index) (\<lambda>_.
     andThen (for_each [''eth_logs'', ''eth_blocks''] (\<lambda>table.
       onErr (\<lambda>e. Wrapf (''analyze '' @ table @ '': '') e '''') statement)) (\<lambda>_.
     andThen (SetCoverage cov) (\<lambda>_.
     SetMaintenance False '''')))))"

section \<open>The command backfill\<close>

datatype stage = PrepareStage | LogsStage | BlocksStage | FinishStage

fun run_stage :: "'v libraries \<Rightarrow> export_dir \<Rightarrow> stage \<Rightarrow> (pg, err, unit) step" where
  "run_stage V X PrepareStage = Prepare X"
| "run_stage V X LogsStage = Logs V X"
| "run_stage V X BlocksStage = Blocks V X"
| "run_stage V X FinishStage = Finish V X"

fun stage_name :: "stage \<Rightarrow> string" where
  "stage_name PrepareStage = ''prepare''"
| "stage_name LogsStage = ''logs''"
| "stage_name BlocksStage = ''blocks''"
| "stage_name FinishStage = ''finish''"

definition all_stages :: "stage list" where
  "all_stages = [PrepareStage, LogsStage, BlocksStage, FinishStage]"

definition named_stage :: "'v libraries \<Rightarrow> export_dir \<Rightarrow> stage \<Rightarrow> (pg, err, unit) step" where
  "named_stage V X st = onErr (\<lambda>e. Wrapf (''backfill '' @ stage_name st @ '': '') e '''') (run_stage V X st)"

definition runStages :: "'v libraries \<Rightarrow> export_dir \<Rightarrow> string \<Rightarrow> (pg, err, unit) step" where
  "runStages V X arg =
     (if arg = ''all'' then for_each all_stages (named_stage V X)
      else (case find (\<lambda>st. stage_name st = arg) all_stages of
        None \<Rightarrow> throw (ErrNew (''backfill: unknown stage \"'' @ arg @ ''\"''))
      | Some st \<Rightarrow> named_stage V X st))"

end
