(* ===== verification/LoaderFacts.thy ===== *)
theory LoaderFacts
  imports Loader ReaderFacts
begin

text \<open>
  What the loader's operations do: the source of a COPY yields exactly the kept rows of its row
  group, copying the files of a unit adds exactly their rows, and each transaction of a stage
  replaces exactly its unit. \<open>copy_target\<close> is the contract of the two COPY targets.
\<close>

section \<open>The source of a COPY\<close>

text \<open>
  What a row group holds, as \<open>ReadRows\<close> tells it: the rows up to the first empty reply. The reading
  ends with that reply, and \<open>ending_error\<close> is the error it carries.
\<close>

fun delivered :: "('v parquet_row list \<times> read_end) list \<Rightarrow> 'v parquet_row list" where
  "delivered [] = []"
| "delivered ((rows, e) # replies) = (if rows = [] then [] else rows @ delivered replies)"

fun ending_error :: "('v parquet_row list \<times> read_end) list \<Rightarrow> err option" where
  "ending_error [] = None"
| "ending_error ((rows, e) # replies) =
     (if rows = [] then (case e of ReadError x \<Rightarrow> Some x | _ \<Rightarrow> None) else ending_error replies)"

text \<open>
  The contract of \<open>ReadRows\<close> is wider: a reply may hold rows and an error at once. \<open>reader_error\<close> is the
  first error of the reading, whichever reply it comes with; it is the ending error when no error
  comes together with rows.
\<close>

fun reader_error :: "('v parquet_row list \<times> read_end) list \<Rightarrow> err option" where
  "reader_error [] = None"
| "reader_error ((rows, e) # replies) =
     (case e of ReadError x \<Rightarrow> Some x | _ \<Rightarrow> if rows = [] then None else reader_error replies)"

definition errors_alone :: "('v parquet_row list \<times> read_end) list \<Rightarrow> bool" where
  "errors_alone replies \<longleftrightarrow> (\<forall>(rows, e) \<in> set replies. rows = [] \<or> (case e of ReadError x \<Rightarrow> False | _ \<Rightarrow> True))"

lemma ending_reader_error: "errors_alone replies \<Longrightarrow> ending_error replies = reader_error replies"
  by (induction replies rule: ending_error.induct) (auto simp: errors_alone_def split: read_end.splits)

definition kept_by :: "('v parquet_row \<Rightarrow> bool) option \<Rightarrow> 'v parquet_row \<Rightarrow> bool" where
  "kept_by keep r \<longleftrightarrow> (case keep of None \<Rightarrow> True | Some p \<Rightarrow> p r)"

lemma copy_source_advance:
  "copy_source keep s =
     (case advance_source s of
        (False, t) \<Rightarrow> ([], src_err t)
      | (True, t) \<Rightarrow>
          if kept_by keep (src_buf t ! src_i t)
          then (case copy_source keep t of (rows, e) \<Rightarrow> (src_buf t ! src_i t # rows, e))
          else copy_source keep t)"
proof -
  obtain b t where t: "advance_source s = (b, t)" by fastforce
  show ?thesis
  proof (cases "b \<and> \<not> kept_by keep (src_buf t ! src_i t)")
    case True
    then have "Next keep s = Next keep t"
      using t by (auto simp: Next.simps [of keep s] kept_by_def split: option.splits)
    then have "copy_source keep s = copy_source keep t" by (simp add: copy_source.simps)
    with True t show ?thesis by simp
  next
    case False
    then show ?thesis
      using t
      by (cases b) (auto simp: copy_source.simps [of keep s] Next.simps [of keep s] kept_by_def split: option.splits)
  qed
qed

text \<open>The rows still to come: what is left in the buffer after the current row, then the replies.\<close>

definition rows_left :: "'v parquet_source \<Rightarrow> 'v parquet_row list" where
  "rows_left s = drop (Suc (src_i s)) (src_buf s) @ delivered (src_rows s)"

definition source_ok :: "'v parquet_source \<Rightarrow> bool" where
  "source_ok s \<longleftrightarrow> src_n s = length (src_buf s) \<and> src_err s = None"

lemma advance_source_cases:
  assumes "source_ok s" "advance_source s = (b, t)"
  obtains (row) "b" "source_ok t" "src_ctx t = src_ctx s" "rows_left s = src_buf t ! src_i t # rows_left t"
      "ending_error (src_rows t) = ending_error (src_rows s)"
  | (finished) "\<not> b" "rows_left s = []" "src_err t = ending_error (src_rows s)"
  | (canceled) e n where "\<not> b" "src_err t = Some e" "src_ctx s n = Some e"
proof (cases "Suc (src_i s) < src_n s")
  case True
  then have "rows_left s = src_buf s ! Suc (src_i s) # drop (Suc (Suc (src_i s))) (src_buf s) @ delivered (src_rows s)"
    using assms(1) by (simp add: rows_left_def source_ok_def Cons_nth_drop_Suc [symmetric])
  then show thesis
    using True assms row by (auto simp: advance_source_def source_ok_def rows_left_def Let_def)
next
  case False
  note unread = False
  show thesis
  proof (cases "src_ctx s (src_reads s)")
    case (Some e)
    then show thesis
      using unread assms canceled by (auto simp: advance_source_def source_ok_def Let_def)
  next
    case None
    have buf: "rows_left s = delivered (src_rows s)"
      using unread assms(1) by (simp add: rows_left_def source_ok_def)
    show thesis
    proof (cases "src_rows s")
      case Nil
      then show thesis
        using unread None assms finished buf by (auto simp: advance_source_def source_ok_def Let_def ReadRows_def)
    next
      case (Cons reply rest)
      obtain rows e where reply: "reply = (rows, e)" by fastforce
      show thesis
      proof (cases rows)
        case Nil
        then show thesis
          using unread None assms finished buf Cons reply
          by (cases e) (auto simp: advance_source_def source_ok_def Let_def ReadRows_def)
      next
        case (Cons r rs)
        then show thesis
          using unread None assms row buf \<open>src_rows s = reply # rest\<close> reply
          by (auto simp: advance_source_def source_ok_def Let_def ReadRows_def rows_left_def)
      qed
    qed
  qed
qed

lemma copy_source_rows:
  assumes "source_ok s" "copy_source keep s = (rows, e)"
  shows "(e = None \<longrightarrow> rows = filter (kept_by keep) (rows_left s) \<and> ending_error (src_rows s) = None) \<and>
    ((\<forall>n. src_ctx s n = None) \<longrightarrow> rows = filter (kept_by keep) (rows_left s) \<and> e = ending_error (src_rows s))"
  using assms
proof (induction "source_size s" arbitrary: s rows e rule: less_induct)
  case less
  obtain b t where t: "advance_source s = (b, t)" by fastforce
  obtain rows' e' where rest: "copy_source keep t = (rows', e')" by fastforce
  show ?case
    using less.prems(1) t
  proof (cases rule: advance_source_cases)
    case row
    then have "source_size t < source_size s" using t by (simp add: advance_source_size)
    note IH = less.hyps [OF this row(2) rest]
    have "rows = (if kept_by keep (src_buf t ! src_i t) then src_buf t ! src_i t # rows' else rows')" "e = e'"
      using less.prems(2) t rest row(1) by (auto simp: copy_source_advance [of keep s] split: if_splits)
    with IH row show ?thesis by simp
  next
    case finished
    then show ?thesis using less.prems(2) t by (auto simp: copy_source_advance [of keep s])
  next
    case canceled
    then show ?thesis using less.prems(2) t by (auto simp: copy_source_advance [of keep s])
  qed
qed

lemma new_source_ok: "source_ok (new_source ctx g)" "rows_left (new_source ctx g) = delivered (Replies g)"
  "src_rows (new_source ctx g) = Replies g" "src_ctx (new_source ctx g) = ctx"
  by (simp_all add: source_ok_def new_source_def rows_left_def)

section \<open>Copying files\<close>

definition group_stream :: "'v parquet_group list \<Rightarrow> 'v parquet_row list" where
  "group_stream gs = concat (map (\<lambda>g. if NumRows g = 0 then [] else delivered (Replies g)) gs)"

lemma group_stream_simps [simp]: "group_stream [] = []"
  "group_stream (g # gs) = (if NumRows g = 0 then [] else delivered (Replies g)) @ group_stream gs"
  by (simp_all add: group_stream_def)

text \<open>The rows a file gives a table: none when the file cannot be read or holds a row the table refuses.\<close>

definition file_rows ::
  "'v libraries \<Rightarrow> export_dir \<Rightarrow> (cell list \<Rightarrow> 'r option) \<Rightarrow> ((string \<times> nat) list \<Rightarrow> 'v parquet_row \<Rightarrow> cell list) \<Rightarrow>
    ((string \<times> nat) list \<Rightarrow> 'v parquet_row \<Rightarrow> bool) option \<Rightarrow> string \<Rightarrow> 'r list option" where
  "file_rows V X row mapRow keep name =
     (case open_file V X name of
        Inl e \<Rightarrow> None
      | Inr f \<Rightarrow>
          let c = schema_cols f in
          rows_of_cells row (map (mapRow c) (filter (kept_by (map_option (\<lambda>k. k c) keep)) (group_stream (RowGroups f)))))"

fun join_rows :: "('a \<Rightarrow> 'r list option) \<Rightarrow> 'a list \<Rightarrow> 'r list option" where
  "join_rows f [] = Some []"
| "join_rows f (x # xs) =
     (case f x of None \<Rightarrow> None | Some rs \<Rightarrow> (case join_rows f xs of None \<Rightarrow> None | Some rest \<Rightarrow> Some (rs @ rest)))"

lemma rows_of_cells_append:
  "rows_of_cells f (xs @ ys) =
     (case rows_of_cells f xs of None \<Rightarrow> None
      | Some rs \<Rightarrow> (case rows_of_cells f ys of None \<Rightarrow> None | Some rest \<Rightarrow> Some (rs @ rest)))"
  by (induction xs) (auto split: option.splits)

text \<open>
  A target of COPY: \<open>put\<close> takes rows or refuses the statement, \<open>add\<close> is what taking them does to
  the tables, \<open>sane\<close> is what the table's constraints keep true.
\<close>

locale copy_target =
  fixes row :: "cell list \<Rightarrow> 'r option"
    and put :: "cell list list \<Rightarrow> tables \<Rightarrow> err + 'r list \<times> tables"
    and add :: "'r list \<Rightarrow> tables \<Rightarrow> tables"
    and sane :: "tables \<Rightarrow> bool"
  assumes put_Inr: "put cells t = Inr (rs, t') \<Longrightarrow> rows_of_cells row cells = Some rs \<and> t' = add rs t"
    and put_sane: "put cells t = Inr (rs, t') \<Longrightarrow> sane t \<Longrightarrow> sane t'"
    and add_Nil: "add [] t = t"
    and add_append: "add (xs @ ys) t = add ys (add xs t)"
begin

definition adds :: "'r list option \<Rightarrow> tables \<Rightarrow> 'r list \<Rightarrow> pg \<Rightarrow> bool" where
  "adds expected t0 rs s \<longleftrightarrow> expected = Some rs \<and> tab s = add rs t0 \<and> (sane t0 \<longrightarrow> sane (tab s))"

lemma adds_nothing: "triple (\<lambda>s. tab s = t0) (ret []) (adds (Some []) t0) (\<lambda>_ _. True)"
  by (rule triple_ret) (simp add: adds_def add_Nil)

lemma adds_both:
  assumes "triple (\<lambda>s. tab s = t0) m (adds first t0) (\<lambda>_ _. True)"
    and "\<And>t. triple (\<lambda>s. tab s = t) m' (adds rest t) (\<lambda>_ _. True)"
  shows "triple (\<lambda>s. tab s = t0) (andThen m (\<lambda>rs. andThen m' (\<lambda>rs'. ret (rs @ rs'))))
    (adds (case first of None \<Rightarrow> None | Some rs \<Rightarrow> (case rest of None \<Rightarrow> None | Some rs' \<Rightarrow> Some (rs @ rs'))) t0) (\<lambda>_ _. True)"
proof (rule triple_andThen [OF assms(1)])
  fix rs
  have second: "triple (adds first t0 rs) m'
      (\<lambda>rs' s. first = Some rs \<and> (sane t0 \<longrightarrow> sane (add rs t0)) \<and> adds rest (add rs t0) rs' s) (\<lambda>_ _. True)"
  proof (rule tripleI)
    fix s rs' t assume s: "adds first t0 rs s" and run: "m' s = (Inr rs', t)"
    then have tab: "tab s = add rs t0" by (simp add: adds_def)
    then have "adds rest (add rs t0) rs' t" using triple_value [OF assms(2) _ run, of "add rs t0"] by simp
    then show "first = Some rs \<and> (sane t0 \<longrightarrow> sane (add rs t0)) \<and> adds rest (add rs t0) rs' t"
      using s tab by (auto simp: adds_def)
  qed simp
  show "triple (adds first t0 rs) (andThen m' (\<lambda>rs'. ret (rs @ rs')))
      (adds (case first of None \<Rightarrow> None | Some rs \<Rightarrow> (case rest of None \<Rightarrow> None | Some rs' \<Rightarrow> Some (rs @ rs'))) t0) (\<lambda>_ _. True)"
    by (rule triple_andThen [OF second], rule triple_ret) (auto simp: adds_def add_append)
qed

lemma copy_groups_adds:
  "triple (\<lambda>s. tab s = t0) (copy_groups mapRow keep ctx put k gs)
     (adds (rows_of_cells row (map mapRow (filter (kept_by keep) (group_stream gs)))) t0) (\<lambda>_ _. True)"
proof (induction gs arbitrary: k t0)
  case Nil
  then show ?case using adds_nothing by simp
next
  case (Cons g gs)
  let ?rows = "map mapRow (filter (kept_by keep) (delivered (Replies g)))"
  let ?copy = "\<lambda>t. case copy_source keep (new_source (ctx k) g) of
      (rows, Some e) \<Rightarrow> Inl e | (rows, None) \<Rightarrow> put (map mapRow rows) t"
  have taken: "rows_of_cells row ?rows = Some rs \<and> t' = add rs t \<and> (sane t \<longrightarrow> sane t')" if copied: "?copy t = Inr (rs, t')" for t rs t'
  proof -
    obtain rows where rows: "copy_source keep (new_source (ctx k) g) = (rows, None)" "put (map mapRow rows) t = Inr (rs, t')"
      using copied by (auto split: prod.splits option.splits)
    then have "rows = filter (kept_by keep) (delivered (Replies g))"
      using copy_source_rows [OF new_source_ok(1) rows(1)] by (simp add: new_source_ok)
    then show ?thesis using put_Inr [OF rows(2)] put_sane [OF rows(2)] by simp
  qed
  have one: "triple (\<lambda>s. tab s = t0) (exec ?copy) (adds (rows_of_cells row ?rows) t0) (\<lambda>_ _. True)"
    unfolding adds_def
    by (rule triple_exec [where P = "\<lambda>t. t = t0"
          and Q = "\<lambda>rs t. rows_of_cells row ?rows = Some rs \<and> t = add rs t0 \<and> (sane t0 \<longrightarrow> sane t)"]) (use taken in blast)
  show ?case
  proof (cases "NumRows g = 0")
    case True
    then show ?thesis using Cons.IH by simp
  next
    case False
    then show ?thesis
      using adds_both [OF one Cons.IH] by (simp add: rows_of_cells_append)
  qed
qed

lemma copyParquetWhere_adds:
  "triple (\<lambda>s. tab s = t0) (copyParquetWhere V X name put mapRow keep)
     (adds (file_rows V X row mapRow keep name) t0) (\<lambda>_ _. True)"
proof (cases "open_file V X name")
  case (Inl e)
  then show ?thesis by (simp add: copyParquetWhere_def lift_def andThen_def throw_def triple_def)
next
  case (Inr f)
  then show ?thesis
    using copy_groups_adds [of t0 _ _ "LoadCtxErr V name" 0 "RowGroups f"]
    by (simp add: copyParquetWhere_def lift_def andThen_def ret_def file_rows_def Let_def)
qed

lemma copy_files_adds:
  assumes "\<And>name t. triple (\<lambda>s. tab s = t) (load name) (adds (f name) t) (\<lambda>_ _. True)"
  shows "triple (\<lambda>s. tab s = t0) (copy_files X load files) (adds (join_rows f files) t0) (\<lambda>_ _. True)"
proof (induction files arbitrary: t0)
  case Nil
  then show ?case using adds_nothing by simp
next
  case (Cons name files)
  have "triple (\<lambda>s. tab s = t0) (onErr g (load name)) (adds (f name) t0) (\<lambda>_ _. True)" for g :: "err \<Rightarrow> err"
    by (rule triple_onErr) (rule assms)
  from adds_both [OF this Cons.IH] show ?case by simp
qed

end

interpretation staging: copy_target log_of_cells put_staging "\<lambda>rs t. t" "\<lambda>t. True"
  by unfold_locales (auto simp: put_staging_def split: option.splits)

definition unique_heights :: "tables \<Rightarrow> bool" where
  "unique_heights t \<longleftrightarrow> distinct (map b_number (eth_blocks t))"

interpretation blocks_table: copy_target block_of_cells put_blocks
    "\<lambda>rs t. t\<lparr>eth_blocks := eth_blocks t @ rs\<rparr>" unique_heights
  by unfold_locales (auto simp: unique_heights_def put_blocks_def copy_block_rows_def split: option.splits sum.splits if_splits)

section \<open>The transactions of the stages\<close>

definition part_rows :: "'v libraries \<Rightarrow> export_dir \<Rightarrow> u64 \<Rightarrow> log_row list option" where
  "part_rows V X part =
     (case parquetFiles X (manifestPartDir part) of
        Inl e \<Rightarrow> None
      | Inr files \<Rightarrow> join_rows (file_rows V X log_of_cells (logRow V) None) files)"

definition block_rows :: "'v libraries \<Rightarrow> export_dir \<Rightarrow> manifest \<Rightarrow> block_row list option" where
  "block_rows V X m =
     (case parquetFiles X ''blocks'' of
        Inl e \<Rightarrow> None
      | Inr files \<Rightarrow> join_rows (file_rows V X block_of_cells (blockRow V) (Some (inInterval V m))) files)"

definition unit_record :: "string \<Rightarrow> string \<Rightarrow> nat \<Rightarrow> tables \<Rightarrow> tables" where
  "unit_record unit fingerprint n t =
     t\<lparr>backfill_units := (unit, fingerprint, int n) # filter (\<lambda>u. fst u \<noteq> unit) (backfill_units t)\<rparr>"

definition part_fingerprint :: "'v libraries \<Rightarrow> manifest \<Rightarrow> u64 \<Rightarrow> string" where
  "part_fingerprint V m part = unitFingerprint V m (manifestPartDir part @ ''/'')"

text \<open>What the transaction of a part, and that of the blocks, commits.\<close>

definition part_loaded :: "'v libraries \<Rightarrow> export_dir \<Rightarrow> manifest \<Rightarrow> u64 \<Rightarrow> tables \<Rightarrow> tables \<Rightarrow> bool" where
  "part_loaded V X m part t0 t \<longleftrightarrow>
     (\<exists>rows t1. part_rows V X part = Some rows \<and> partRows m part = Inr (of_nat (length rows)) \<and>
        verifyFilesUnder V X m (manifestPartDir part @ ''/'') = None \<and>
        (case unitInterval m part of (lo, hi) \<Rightarrow>
           (\<forall>r \<in> set rows. int64 lo \<le> r_block_number r \<and> r_block_number r \<le> int64 hi) \<and>
           copy_log_rows (sort_key row_key rows) (delete_logs_between (int64 lo) (int64 hi) t0) = Inr ((), t1)) \<and>
        t = unit_record (manifestPartDir part) (part_fingerprint V m part) (length rows) t1)"

definition blocks_loaded :: "'v libraries \<Rightarrow> export_dir \<Rightarrow> manifest \<Rightarrow> tables \<Rightarrow> tables \<Rightarrow> bool" where
  "blocks_loaded V X m t0 t \<longleftrightarrow>
     (\<exists>rows. block_rows V X m = Some rows \<and> verifyFilesUnder V X m ''blocks/'' = None \<and>
        (let t1 = delete_blocks_between (int64 (BlocksFirst m)) (int64 (BlocksLast m)) t0; t2 = t1\<lparr>eth_blocks := eth_blocks t1 @ rows\<rparr> in
           (unique_heights t1 \<longrightarrow> unique_heights t2) \<and>
           t = unit_record blocksUnit (unitFingerprint V m ''blocks/'') (length rows) t2))"

lemma recordUnit_triple:
  "triple (\<lambda>s. tab s = t0) (recordUnit unit fp (int n)) (\<lambda>_ s. tab s = unit_record unit fp n t0) (\<lambda>_ _. True)"
  unfolding recordUnit_def unit_record_def by (rule update_triple)

lemma query_triple: "triple (\<lambda>s. tab s = t0) (onErr g (query f)) (\<lambda>x s. x = f t0 \<and> tab s = t0) (\<lambda>_ _. True)"
  unfolding query_def by (rule triple_statement) simp

lemma statement_triple: "triple (\<lambda>s. tab s = t0) (onErr g statement) (\<lambda>_ s. tab s = t0) (\<lambda>_ _. True)"
  unfolding statement_def by (rule triple_conseq [OF update_triple]) auto

lemma triple_given: "(H \<Longrightarrow> triple P m Q E) \<Longrightarrow> triple (\<lambda>s. H \<and> P s) m Q E"
  by (auto simp: triple_def)

lemma load_part_body_triple:
  assumes "parquetFiles X (manifestPartDir part) = Inr files" "partRows m part = Inr want"
    and "verifyFilesUnder V X m (manifestPartDir part @ ''/'') = None"
  shows "triple (\<lambda>s. tab s = t0) (load_part_body V X m part files want) (\<lambda>_ s. part_loaded V X m part t0 (tab s)) (\<lambda>_ _. True)"
proof -
  obtain lo hi where iv: "unitInterval m part = (lo, hi)" by fastforce
  let ?t1 = "delete_logs_between (int64 lo) (int64 hi) t0"
  let ?outside = "\<lambda>r. r_block_number r < int64 lo \<or> r_block_number r > int64 hi"
  let ?f = "file_rows V X log_of_cells (logRow V) None"
  have staged: "triple (\<lambda>s. tab s = ?t1) (copy_files X (\<lambda>file. copyParquet V X file put_staging (logRow V)) files)
      (\<lambda>rows s. join_rows ?f files = Some rows \<and> tab s = ?t1) (\<lambda>_ _. True)"
    using staging.copy_files_adds [where f = ?f and load = "\<lambda>file. copyParquetWhere V X file put_staging (logRow V) None",
        OF staging.copyParquetWhere_adds]
    by (simp add: staging.adds_def [abs_def] copyParquet_def)
  have insert: "triple (\<lambda>s. tab s = ?t1) (onErr g (exec (copy_log_rows (sort_key row_key rows))))
      (\<lambda>_ s. copy_log_rows (sort_key row_key rows) ?t1 = Inr ((), tab s)) (\<lambda>_ _. True)" for g :: "err \<Rightarrow> err" and rows
    by (rule triple_statement) simp
  have last: "triple (\<lambda>s. copy_log_rows (sort_key row_key rows) ?t1 = Inr ((), tab s))
      (recordUnit (manifestPartDir part) (part_fingerprint V m part) (int (length rows)))
      (\<lambda>_ s. part_loaded V X m part t0 (tab s)) (\<lambda>_ _. True)"
    if "join_rows ?f files = Some rows" "of_nat (length rows) = want" "filter ?outside rows = []" for rows
  proof (rule tripleI)
    fix s x t assume s: "copy_log_rows (sort_key row_key rows) ?t1 = Inr ((), tab s)"
      and run: "recordUnit (manifestPartDir part) (part_fingerprint V m part) (int (length rows)) s = (Inr x, t)"
    have "tab t = unit_record (manifestPartDir part) (part_fingerprint V m part) (length rows) (tab s)"
      using triple_value [OF recordUnit_triple refl run] .
    then show "part_loaded V X m part t0 (tab t)"
      using that s assms iv by (auto simp: part_loaded_def part_rows_def filter_empty_conv not_less)
  qed simp
  show ?thesis
    unfolding load_part_body_def iv Let_def prod.case part_fingerprint_def [symmetric]
    by (intro triple_andThen [OF update_triple] triple_andThen [OF statement_triple] triple_andThen [OF staged]
        triple_given triple_if triple_throw triple_andThen [OF query_triple] triple_andThen [OF insert] last)
      simp_all
qed

lemma blocks_body_triple:
  assumes "parquetFiles X ''blocks'' = Inr files" "verifyFilesUnder V X m ''blocks/'' = None"
  shows "triple (\<lambda>s. tab s = t0) (blocks_body V X m files) (\<lambda>_ s. blocks_loaded V X m t0 (tab s)) (\<lambda>_ _. True)"
proof -
  let ?t1 = "delete_blocks_between (int64 (BlocksFirst m)) (int64 (BlocksLast m)) t0"
  let ?f = "file_rows V X block_of_cells (blockRow V) (Some (inInterval V m))"
  have copied: "triple (\<lambda>s. tab s = ?t1)
      (copy_files X (\<lambda>file. copyParquetWhere V X file put_blocks (blockRow V) (Some (inInterval V m))) files)
      (blocks_table.adds (join_rows ?f files) ?t1) (\<lambda>_ _. True)"
    by (rule blocks_table.copy_files_adds [OF blocks_table.copyParquetWhere_adds])
  have last: "triple (blocks_table.adds (join_rows ?f files) ?t1 rows)
      (recordUnit blocksUnit (unitFingerprint V m ''blocks/'') (int (length rows)))
      (\<lambda>_ s. blocks_loaded V X m t0 (tab s)) (\<lambda>_ _. True)" for rows
  proof (rule tripleI)
    fix s x t assume s: "blocks_table.adds (join_rows ?f files) ?t1 rows s"
      and run: "recordUnit blocksUnit (unitFingerprint V m ''blocks/'') (int (length rows)) s = (Inr x, t)"
    have "tab t = unit_record blocksUnit (unitFingerprint V m ''blocks/'') (length rows) (tab s)"
      using triple_value [OF recordUnit_triple refl run] .
    then show "blocks_loaded V X m t0 (tab t)"
      using s assms by (auto simp: blocks_loaded_def block_rows_def blocks_table.adds_def Let_def)
  qed simp
  show ?thesis
    unfolding blocks_body_def by (intro triple_andThen [OF update_triple] triple_andThen [OF copied] last)
qed

end
