(* ===== verification/Backfill.thy ===== *)
theory Backfill
  imports LoaderFacts Following
begin

text \<open>
  The backfill as a state machine. \<open>backfill_step\<close> lists every change a stage can make to the
  tables, one statement or one transaction each, with what the code has checked before it; every
  stage, whatever fails in it, moves the tables along these steps (\<open>stage_steps\<close>). The properties
  are invariants of the steps, by rule induction, and hold of any sequence of stages, finished or
  cut off, from any of a family of exports.
\<close>

section \<open>What finish verifies\<close>

definition recorded :: "tables \<Rightarrow> string \<Rightarrow> string" where
  "recorded t unit = (case map_of (backfill_units t) unit of None \<Rightarrow> '''' | Some (fp, n) \<Rightarrow> fp)"

definition part_numbers :: "manifest \<Rightarrow> u64 set" where
  "part_numbers m = {BlocksFirst m div PartitionBlocks..BlocksLast m div PartitionBlocks}"

definition part_verified :: "'v libraries \<Rightarrow> export_dir \<Rightarrow> manifest \<Rightarrow> tables \<Rightarrow> u64 \<Rightarrow> bool" where
  "part_verified V X m t part \<longleftrightarrow>
     (case unitInterval m part of (lo, hi) \<Rightarrow> partRows m part = Inr (of_nat (length (between_logs lo hi t)))) \<and>
     (\<exists>files. parquetFiles X (manifestPartDir part) = Inr files \<and> footer_rows V X files = partRows m part) \<and>
     recorded t (manifestPartDir part) = part_fingerprint V m part"

definition export_verified :: "'v libraries \<Rightarrow> export_dir \<Rightarrow> manifest \<Rightarrow> tables \<Rightarrow> bool" where
  "export_verified V X m t \<longleftrightarrow>
     (\<exists>lo hi n. block_extent (BlocksFirst m) (BlocksLast m) t = Some (lo, hi, n) \<and>
        uint64 lo = BlocksFirst m \<and> uint64 hi = BlocksLast m \<and> (of_nat n :: u64) = BlocksRows m) \<and>
     recorded t blocksUnit = unitFingerprint V m ''blocks/'' \<and>
     (\<forall>part \<in> part_numbers m. part_verified V X m t part) \<and>
     verifyFiles V X m = None"

lemma triple_lift: "(\<And>x. r = Inr x \<Longrightarrow> triple P (f x) Q E) \<Longrightarrow> (\<And>e s. P s \<Longrightarrow> E e s) \<Longrightarrow> triple P (andThen (lift r) f) Q E"
  by (cases r) (auto simp: triple_def andThen_def lift_def throw_def ret_def)

lemma triple_fail_with: "(r = None \<Longrightarrow> triple P (f ()) Q E) \<Longrightarrow> (\<And>e s. P s \<Longrightarrow> E e s) \<Longrightarrow> triple P (andThen (fail_with r) f) Q E"
  by (cases r) (auto simp: triple_def andThen_def fail_with_def throw_def ret_def)

lemma triple_split: "(\<And>a b. x = (a, b) \<Longrightarrow> triple P (f a b) Q E) \<Longrightarrow> triple P (case x of (a, b) \<Rightarrow> f a b) Q E"
  by (cases x) simp

lemma loadedUnit_triple: "triple (\<lambda>s. tab s = t0) (loadedUnit unit) (\<lambda>fp s. fp = recorded t0 unit \<and> tab s = t0) (\<lambda>_ _. True)"
  unfolding loadedUnit_def recorded_def by (rule query_triple)

lemma verifyUnitLoadedFrom_triple:
  "triple (\<lambda>s. tab s = t0) (verifyUnitLoadedFrom V m unit pre)
     (\<lambda>_ s. recorded t0 unit = unitFingerprint V m pre \<and> tab s = t0) (\<lambda>_ _. True)"
  unfolding verifyUnitLoadedFrom_def
  by (intro triple_andThen [OF loadedUnit_triple] triple_given triple_if triple_throw triple_ret) auto

lemma verify_part_loaded_triple:
  "triple (\<lambda>s. tab s = t0) (verify_part_loaded V X m part) (\<lambda>_ s. part_verified V X m t0 part \<and> tab s = t0) (\<lambda>_ _. True)"
proof -
  obtain lo hi where iv: "unitInterval m part = (lo, hi)" by fastforce
  let ?P = "\<lambda>s. partRows m part = Inr (of_nat (length (between_logs lo hi t0))) \<and>
     (\<exists>files. parquetFiles X (manifestPartDir part) = Inr files \<and> footer_rows V X files = partRows m part) \<and> tab s = t0"
  have "triple (\<lambda>s. tab s = t0) (verifyPart V X m part) (\<lambda>_. ?P) (\<lambda>_ _. True)"
    unfolding verifyPart_def iv Let_def prod.case
    by (intro triple_lift triple_if triple_throw triple_andThen [OF query_triple] triple_given triple_ret) auto
  moreover have "triple ?P (verifyUnitLoadedFrom V m (manifestPartDir part) (manifestPartDir part @ ''/''))
      (\<lambda>_ s. part_verified V X m t0 part \<and> tab s = t0) (\<lambda>_ _. True)"
  proof (rule tripleI)
    fix s x t assume s: "?P s" and run: "verifyUnitLoadedFrom V m (manifestPartDir part) (manifestPartDir part @ ''/'') s = (Inr x, t)"
    from s have "tab s = t0" by blast
    from triple_value [OF verifyUnitLoadedFrom_triple this run] s
    show "part_verified V X m t0 part \<and> tab t = t0" by (auto simp: part_verified_def iv part_fingerprint_def)
  qed simp
  ultimately show ?thesis
    unfolding verify_part_loaded_def by (rule triple_andThen)
qed

lemma part_number_bound: "unat (n div PartitionBlocks) + 1 < 2 ^ 64"
  using unat_less_u64 [of n] by (simp add: unat_bucket bucket_def)

lemma verify_parts_triple:
  "triple (\<lambda>s. tab s = t0)
     (for_up dv (loop_fuel (BlocksFirst m div PartitionBlocks) (BlocksLast m div PartitionBlocks)) 1
        (BlocksFirst m div PartitionBlocks) (BlocksLast m div PartitionBlocks) (verify_part_loaded V X m))
     (\<lambda>_ s. (\<forall>part \<in> part_numbers m. part_verified V X m t0 part) \<and> tab s = t0) (\<lambda>_ _. True)"
proof -
  let ?a = "BlocksFirst m div PartitionBlocks" and ?b = "BlocksLast m div PartitionBlocks"
  let ?I = "\<lambda>i s. (\<forall>part. ?a \<le> part \<longrightarrow> part < i \<longrightarrow> part \<le> ?b \<longrightarrow> part_verified V X m t0 part) \<and> tab s = t0"
  have "triple (?I ?a) (for_up dv (loop_fuel ?a ?b) 1 ?a ?b (verify_part_loaded V X m))
      (\<lambda>_ s. \<exists>j. ?b < j \<and> ?I j s) (\<lambda>_ _. True)"
  proof (rule triple_for_up)
    fix i assume i: "i \<le> ?b"
    show "triple (?I i) (verify_part_loaded V X m i) (\<lambda>_. ?I (i + 1)) (\<lambda>_ _. True)"
    proof (rule tripleI)
      fix s x t assume s: "?I i s" and run: "verify_part_loaded V X m i s = (Inr x, t)"
      have t: "part_verified V X m t0 i \<and> tab t = t0"
        using triple_value [OF verify_part_loaded_triple _ run] s by blast
      have "part < i \<or> part = i" if "part < i + 1" for part
        using that by unat_arith
      with s t show "?I (i + 1) t" by blast
    qed simp
  qed (use part_number_bound in \<open>simp_all add: loop_fuel_def\<close>)
  then show ?thesis
  proof (rule triple_conseq)
    fix s assume "\<exists>j. ?b < j \<and> ?I j s"
    then obtain j where j: "?b < j" "?I j s" by blast
    then have "part_verified V X m t0 part" if "part \<in> part_numbers m" for part
      using that order_le_less_trans [of part ?b j] by (simp add: part_numbers_def)
    with j(2) show "(\<forall>part \<in> part_numbers m. part_verified V X m t0 part) \<and> tab s = t0" by blast
  qed auto
qed

lemma verifyLoaded_triple:
  "triple (\<lambda>s. tab s = t0) (verifyLoaded V X)
     (\<lambda>cov s. (\<exists>m. readManifest X = Inr m \<and> cov = \<lparr>covStart = BlocksFirst m, covHead = BlocksLast m\<rparr> \<and> export_verified V X m t0)
        \<and> tab s = t0) (\<lambda>_ _. True)"
  unfolding verifyLoaded_def Let_def
  by (intro triple_lift triple_andThen [OF query_triple] triple_given triple_case_option triple_split triple_if triple_throw
      triple_andThen [OF verifyUnitLoadedFrom_triple] triple_andThen [OF verify_parts_triple] triple_fail_with triple_ret)
    (auto simp: export_verified_def)

section \<open>The steps\<close>

definition guarded :: "tables \<Rightarrow> bool" where
  "guarded t \<longleftrightarrow> coverage_of t = None \<or> maintenance t"

definition publishes :: "manifest \<Rightarrow> tables \<Rightarrow> bool" where
  "publishes m t \<longleftrightarrow> (\<exists>c. coverage_of t = Some c \<and> covStart c \<le> BlocksFirst m \<and> BlocksLast m \<le> covHead c)"

inductive backfill_step :: "'v libraries \<Rightarrow> export_dir set \<Rightarrow> tables \<Rightarrow> tables \<Rightarrow> bool" for V Xs where
  Flagged: "backfill_step V Xs t (t\<lparr>maintenance := True, maintenance_reason := why\<rparr>)"
| Partitioned: "X \<in> Xs \<Longrightarrow> readManifest X = Inr m \<Longrightarrow> part \<in> part_numbers m \<Longrightarrow>
    create_partition (PartitionDDL (part * PartitionBlocks)) t = Inr ((), t') \<Longrightarrow> backfill_step V Xs t t'"
| Dropped: "backfill_step V Xs t (drop_index name t)"
| Indexed: "create_index name t = Inr ((), t') \<Longrightarrow> backfill_step V Xs t t'"
| PartLoaded: "X \<in> Xs \<Longrightarrow> readManifest X = Inr m \<Longrightarrow> part \<in> part_numbers m \<Longrightarrow> guarded t \<Longrightarrow>
    part_loaded V X m part t t' \<Longrightarrow> backfill_step V Xs t t'"
| BlocksLoaded: "X \<in> Xs \<Longrightarrow> readManifest X = Inr m \<Longrightarrow> guarded t \<Longrightarrow> blocks_loaded V X m t t' \<Longrightarrow> backfill_step V Xs t t'"
| Published: "X \<in> Xs \<Longrightarrow> readManifest X = Inr m \<Longrightarrow> export_verified V X m t \<Longrightarrow>
    published \<lparr>covStart = BlocksFirst m, covHead = BlocksLast m\<rparr> t t' \<Longrightarrow> backfill_step V Xs t t'"
| Cleared: "X \<in> Xs \<Longrightarrow> readManifest X = Inr m \<Longrightarrow> export_verified V X m t \<Longrightarrow> publishes m t \<Longrightarrow>
    backfill_step V Xs t (t\<lparr>maintenance := False, maintenance_reason := ''''\<rparr>)"

abbreviation moves :: "'v libraries \<Rightarrow> export_dir set \<Rightarrow> tables \<Rightarrow> tables \<Rightarrow> bool" where
  "moves V Xs \<equiv> (backfill_step V Xs)\<^sup>*\<^sup>*"

text \<open>Steps that touch neither the rows, nor the coverage, nor the record of the units.\<close>

definition same_rows :: "tables \<Rightarrow> tables \<Rightarrow> bool" where
  "same_rows t t' \<longleftrightarrow> eth_logs t' = eth_logs t \<and> eth_blocks t' = eth_blocks t \<and> ingest_cursor t' = ingest_cursor t \<and>
     backfill_units t' = backfill_units t"

lemma same_rows_refl: "same_rows t t" and same_rows_trans: "same_rows t u \<Longrightarrow> same_rows u v \<Longrightarrow> same_rows t v"
  by (simp_all add: same_rows_def)

lemma same_rows_steps: "same_rows t (t\<lparr>maintenance := b, maintenance_reason := why\<rparr>)" "same_rows t (drop_index name t)"
  "create_partition p t = Inr ((), t') \<Longrightarrow> same_rows t t'" "create_index name t = Inr ((), t') \<Longrightarrow> same_rows t t'"
  by (auto simp: same_rows_def drop_index_def create_partition_def create_index_def split: if_splits)

lemma same_rows_facts:
  assumes "same_rows t t'"
  shows "coverage_of t' = coverage_of t" "recorded t' = recorded t" "between_logs lo hi t' = between_logs lo hi t"
    "between_blocks lo hi t' = between_blocks lo hi t" "export_verified V X m t' = export_verified V X m t"
proof -
  have r: "recorded t' = recorded t" and l: "between_logs lo hi t' = between_logs lo hi t"
    and b: "between_blocks lo hi t' = between_blocks lo hi t" for lo hi
    using assms by (auto simp: same_rows_def recorded_def between_logs_def between_blocks_def)
  then show "recorded t' = recorded t" "between_logs lo hi t' = between_logs lo hi t" "between_blocks lo hi t' = between_blocks lo hi t"
    by blast+
  show "coverage_of t' = coverage_of t" using assms by (simp add: same_rows_def coverage_of_def)
  show "export_verified V X m t' = export_verified V X m t"
    by (simp add: export_verified_def part_verified_def block_extent_def r l b)
qed

text \<open>What a step leaves when it fails: exactly the tables before it, or those after it.\<close>

lemma exec_steps:
  assumes "\<And>x t'. f t0 = Inr (x, t') \<Longrightarrow> Q x t'"
  shows "triple (\<lambda>s. tab s = t0) (onErr g (exec f)) (\<lambda>x s. Q x (tab s)) (\<lambda>_ s. tab s = t0 \<or> (\<exists>x. Q x (tab s)))"
proof (rule triple_onErr, rule tripleI)
  fix s x t assume "tab s = t0" "exec f s = (Inr x, t)"
  then show "Q x (tab t)"
    using assms by (auto simp: exec_def Let_def split: option.splits fault.splits sum.splits prod.splits)
next
  fix s e t assume "tab s = t0" "exec f s = (Inl e, t)"
  then show "tab t = t0 \<or> (\<exists>x. Q x (tab t))"
    using assms by (auto simp: exec_def Let_def split: option.splits fault.splits sum.splits prod.splits)
qed

lemma query_steps:
  "triple (\<lambda>s. tab s = t0) (onErr g (query f)) (\<lambda>x s. x = f t0 \<and> tab s = t0) (\<lambda>_ s. tab s = t0)"
  unfolding query_def by (rule triple_conseq [OF exec_steps [where Q = "\<lambda>x t. x = f t0 \<and> t = t0"]]) auto

lemma in_tx_steps:
  assumes "\<And>t. A t \<Longrightarrow> triple (\<lambda>s. tab s = t) body (\<lambda>_ s. L t (tab s)) (\<lambda>_ _. True)"
  shows "triple (\<lambda>s. A (tab s)) (in_tx body) (\<lambda>_ s. \<exists>t. A t \<and> L t (tab s)) (\<lambda>_ s. A (tab s) \<or> (\<exists>t. A t \<and> L t (tab s)))"
proof (rule tripleI)
  fix s x t assume A: "A (tab s)" and run: "in_tx body s = (Inr x, t)"
  from in_tx_atomic [OF run assms [OF A]] A show "\<exists>u. A u \<and> L u (tab t)" by auto
next
  fix s e t assume A: "A (tab s)" and run: "in_tx body s = (Inl e, t)"
  from in_tx_atomic [OF run assms [OF A]] A show "A (tab t) \<or> (\<exists>u. A u \<and> L u (tab t))" by auto
qed

lemma loadedUnit_steps: "triple (\<lambda>s. tab s = t0) (loadedUnit unit) (\<lambda>fp s. fp = recorded t0 unit \<and> tab s = t0) (\<lambda>_ s. tab s = t0)"
  unfolding loadedUnit_def recorded_def by (rule query_steps)

lemma readCoverage_steps: "triple (\<lambda>s. tab s = t0) readCoverage (\<lambda>c s. c = coverage_of t0 \<and> tab s = t0) (\<lambda>_ s. tab s = t0)"
  unfolding readCoverage_def by (rule query_steps)

section \<open>Every stage moves along the steps\<close>

lemma exec_keeps:
  assumes "\<And>t x t'. A t \<Longrightarrow> f t = Inr (x, t') \<Longrightarrow> B t'" and "\<And>t. A t \<Longrightarrow> E t" "\<And>t. B t \<Longrightarrow> E t"
  shows "triple (\<lambda>s. A (tab s)) (onErr g (exec f)) (\<lambda>_ s. B (tab s)) (\<lambda>_ s. E (tab s))"
proof (rule tripleI)
  fix s x t assume A: "A (tab s)" and run: "onErr g (exec f) s = (Inr x, t)"
  show "B (tab t)"
    by (rule triple_value [OF exec_steps [where Q = "\<lambda>_. B"] refl run]) (use assms(1) A in blast)
next
  fix s e t assume A: "A (tab s)" and run: "onErr g (exec f) s = (Inl e, t)"
  have "triple (\<lambda>u. tab u = tab s) (onErr g (exec f)) (\<lambda>_ u. B (tab u)) (\<lambda>_ u. tab u = tab s \<or> B (tab u))"
    by (rule triple_conseq [OF exec_steps [where Q = "\<lambda>_. B"]]) (use assms(1) A in auto)
  from triple_error [OF this refl run] show "E (tab t)" using assms(2,3) A by auto
qed

definition readied :: "'v libraries \<Rightarrow> export_dir set \<Rightarrow> tables \<Rightarrow> tables \<Rightarrow> bool" where
  "readied V Xs t0 t \<longleftrightarrow> moves V Xs t0 t \<and> same_rows t0 t"

lemma readied_refl: "readied V Xs t t"
  by (simp add: readied_def same_rows_refl)

lemma readied_step: "readied V Xs t0 t \<Longrightarrow> backfill_step V Xs t t' \<Longrightarrow> same_rows t t' \<Longrightarrow> readied V Xs t0 t'"
  unfolding readied_def by (meson rtranclp.rtrancl_into_rtrancl same_rows_trans)

lemma markMaintenance_triple:
  "triple (\<lambda>s. tab s = t0) (markMaintenance unit) (\<lambda>_ s. readied V Xs t0 (tab s) \<and> guarded (tab s)) (\<lambda>_ s. readied V Xs t0 (tab s))"
proof -
  have flag: "triple (\<lambda>s. tab s = t0) (SetMaintenance True why)
      (\<lambda>_ s. readied V Xs t0 (tab s) \<and> guarded (tab s)) (\<lambda>_ s. readied V Xs t0 (tab s))" for why
    unfolding SetMaintenance_def update_def
    by (rule exec_keeps [where A = "\<lambda>t. t = t0" and B = "\<lambda>t. readied V Xs t0 t \<and> guarded t"])
      (use readied_step [OF readied_refl Flagged same_rows_steps(1)] in \<open>auto simp: readied_refl guarded_def\<close>)
  have start: "triple (\<lambda>s. tab s = t0) readCoverage (\<lambda>c s. c = coverage_of t0 \<and> tab s = t0) (\<lambda>_ s. readied V Xs t0 (tab s))"
    by (rule triple_conseq [OF readCoverage_steps]) (auto simp: readied_refl)
  show ?thesis
    unfolding markMaintenance_def
    by (intro triple_andThen [OF start] triple_given triple_case_option triple_ret flag) (auto simp: readied_refl guarded_def)
qed

text \<open>
  \<open>committed_after V Xs t0 L t\<close>: \<open>t\<close> is what a transaction with the effect \<open>L\<close> made, with the flag raised over
  a published coverage before it.
\<close>

definition committed_after :: "'v libraries \<Rightarrow> export_dir set \<Rightarrow> tables \<Rightarrow> (tables \<Rightarrow> tables \<Rightarrow> bool) \<Rightarrow> tables \<Rightarrow> bool" where
  "committed_after V Xs t0 L t \<longleftrightarrow> (\<exists>t1. readied V Xs t0 t1 \<and> guarded t1 \<and> L t1 t)"

definition unit_outcome ::
  "'v libraries \<Rightarrow> export_dir set \<Rightarrow> tables \<Rightarrow> bool \<Rightarrow> (tables \<Rightarrow> tables \<Rightarrow> bool) \<Rightarrow> (err + 'a) \<times> pg \<Rightarrow> bool" where
  "unit_outcome V Xs t0 current L res \<longleftrightarrow>
     (case res of
        (Inr _, s) \<Rightarrow> current \<and> tab s = t0 \<or> committed_after V Xs t0 L (tab s)
      | (Inl _, s) \<Rightarrow> readied V Xs t0 (tab s) \<or> committed_after V Xs t0 L (tab s))"

text \<open>The common tail of \<open>loadPart\<close> and \<open>Blocks\<close>: skip the unit, or flag it, make room and load it in a transaction.\<close>

lemma load_unit_triple:
  assumes body: "\<And>t. triple (\<lambda>s. tab s = t) body (\<lambda>_ s. L t (tab s)) (\<lambda>_ _. True)"
    and room: "triple (\<lambda>s. readied V Xs t0 (tab s) \<and> guarded (tab s)) room
      (\<lambda>_ s. readied V Xs t0 (tab s) \<and> guarded (tab s)) (\<lambda>_ s. readied V Xs t0 (tab s))"
  shows "triple (\<lambda>s. tab s = t0) (andThen (markMaintenance unit) (\<lambda>_. andThen room (\<lambda>_. in_tx body)))
    (\<lambda>_ s. committed_after V Xs t0 L (tab s))
    (\<lambda>_ s. readied V Xs t0 (tab s) \<or> committed_after V Xs t0 L (tab s))"
proof -
  have mark: "triple (\<lambda>s. tab s = t0) (markMaintenance unit) (\<lambda>_ s. readied V Xs t0 (tab s) \<and> guarded (tab s))
      (\<lambda>_ s. readied V Xs t0 (tab s) \<or> committed_after V Xs t0 L (tab s))"
    by (rule triple_conseq [OF markMaintenance_triple]) auto
  have room': "triple (\<lambda>s. readied V Xs t0 (tab s) \<and> guarded (tab s)) room
      (\<lambda>_ s. readied V Xs t0 (tab s) \<and> guarded (tab s)) (\<lambda>_ s. readied V Xs t0 (tab s) \<or> committed_after V Xs t0 L (tab s))"
    by (rule triple_conseq [OF room]) auto
  have tx: "triple (\<lambda>s. readied V Xs t0 (tab s) \<and> guarded (tab s)) (in_tx body)
      (\<lambda>_ s. committed_after V Xs t0 L (tab s)) (\<lambda>_ s. readied V Xs t0 (tab s) \<or> committed_after V Xs t0 L (tab s))"
    by (rule triple_conseq [OF in_tx_steps [where A = "\<lambda>t. readied V Xs t0 t \<and> guarded t" and L = L, OF body]])
      (auto simp: committed_after_def)
  show ?thesis by (intro triple_andThen [OF mark] triple_andThen [OF room'] tx)
qed

definition part_current :: "'v libraries \<Rightarrow> manifest \<Rightarrow> u64 \<Rightarrow> tables \<Rightarrow> bool" where
  "part_current V m part t \<longleftrightarrow>
     (case unitInterval m part of (lo, hi) \<Rightarrow> partRows m part = Inr (of_nat (length (between_logs lo hi t)))) \<and>
     recorded t (manifestPartDir part) = part_fingerprint V m part"

definition blocks_current :: "'v libraries \<Rightarrow> manifest \<Rightarrow> tables \<Rightarrow> bool" where
  "blocks_current V m t \<longleftrightarrow>
     (of_nat (length (between_blocks (BlocksFirst m) (BlocksLast m) t)) :: u64) = BlocksRows m \<and>
     recorded t blocksUnit = unitFingerprint V m ''blocks/''"

lemma triple_outcome:
  "triple (\<lambda>s. tab s = t0) m (\<lambda>_ s. current \<and> tab s = t0 \<or> committed_after V Xs t0 L (tab s))
      (\<lambda>_ s. readied V Xs t0 (tab s) \<or> committed_after V Xs t0 L (tab s)) \<longleftrightarrow>
    (\<forall>s. tab s = t0 \<longrightarrow> unit_outcome V Xs t0 current L (m s))"
  by (fastforce simp: triple_def unit_outcome_def split: sum.splits prod.splits)

lemma andThen_lift_Inr: "andThen (lift (Inr x)) f = f x"
  by (rule ext) (simp add: andThen_def lift_def ret_def)

lemma preflightCoverage_triple:
  "triple (\<lambda>s. tab s = t0) (preflightCoverage X) (\<lambda>_ s. tab s = t0) (\<lambda>_ s. tab s = t0)"
  unfolding preflightCoverage_def
  by (intro triple_lift triple_andThen [OF readCoverage_steps] triple_given triple_case_option triple_if triple_throw triple_ret)

lemma loadPart_triple:
  assumes X: "X \<in> Xs" "readManifest X = Inr m" "part \<in> part_numbers m"
  shows "triple (\<lambda>s. tab s = t0) (loadPart V X m part)
    (\<lambda>_ s. part_current V m part t0 \<and> tab s = t0 \<or> committed_after V Xs t0 (part_loaded V X m part) (tab s))
    (\<lambda>_ s. readied V Xs t0 (tab s) \<or> committed_after V Xs t0 (part_loaded V X m part) (tab s))"
    (is "triple ?P _ ?Q ?E")
proof -
  obtain lo hi where iv: "unitInterval m part = (lo, hi)" by fastforce
  let ?unit = "manifestPartDir part"
  have unchanged: "triple ?P n Q (\<lambda>_ s. tab s = t0) \<Longrightarrow> triple ?P n Q ?E" for n :: "(pg, err, 'b) step" and Q
    by (erule triple_conseq) (auto simp: readied_refl)
  have count: "triple ?P (onErr g (query (\<lambda>t. of_nat (length (between_logs lo hi t)) :: u64)))
      (\<lambda>x s. x = of_nat (length (between_logs lo hi t0)) \<and> tab s = t0) ?E" for g :: "err \<Rightarrow> err"
    by (rule unchanged [OF query_steps])
  have unit: "triple ?P (loadedUnit ?unit) (\<lambda>fp s. fp = recorded t0 ?unit \<and> tab s = t0) ?E"
    by (rule unchanged [OF loadedUnit_steps])
  have ready: "triple (\<lambda>s. readied V Xs t0 (tab s) \<and> guarded (tab s)) (onErr g (exec f))
      (\<lambda>_ s. readied V Xs t0 (tab s) \<and> guarded (tab s)) (\<lambda>_ s. readied V Xs t0 (tab s))"
    if "\<And>t x t'. f t = Inr (x, t') \<Longrightarrow> t' = t \<or> backfill_step V Xs t t' \<and> same_rows t t' \<and> maintenance t' = maintenance t"
    for f :: "tables \<Rightarrow> err + unit \<times> tables" and g :: "err \<Rightarrow> err"
    by (rule exec_keeps [where A = "\<lambda>t. readied V Xs t0 t \<and> guarded t" and B = "\<lambda>t. readied V Xs t0 t \<and> guarded t"])
      (use that readied_step in \<open>fastforce simp: guarded_def same_rows_facts(1)\<close>)+
  have acquire: "triple (\<lambda>s. readied V Xs t0 (tab s) \<and> guarded (tab s)) statement
      (\<lambda>_ s. readied V Xs t0 (tab s) \<and> guarded (tab s)) (\<lambda>_ s. readied V Xs t0 (tab s))"
    using ready [of "\<lambda>t. Inr ((), t)" "\<lambda>e. e"]
    by (simp add: statement_def update_def onErr_def triple_def split: sum.splits prod.splits)
  have partition: "triple (\<lambda>s. readied V Xs t0 (tab s) \<and> guarded (tab s))
      (onErr g (exec (create_partition (PartitionDDL (part * PartitionBlocks)))))
      (\<lambda>_ s. readied V Xs t0 (tab s) \<and> guarded (tab s)) (\<lambda>_ s. readied V Xs t0 (tab s))" for g :: "err \<Rightarrow> err"
  proof (rule ready)
    fix t x t' assume "create_partition (PartitionDDL (part * PartitionBlocks)) t = Inr (x, t')"
    moreover from this have "maintenance t' = maintenance t" by (auto simp: create_partition_def split: if_splits)
    ultimately show "t' = t \<or> backfill_step V Xs t t' \<and> same_rows t t' \<and> maintenance t' = maintenance t"
      using Partitioned [OF X, of t t' V] same_rows_steps(3) by simp
  qed
  have load: "triple ?P (andThen (markMaintenance ?unit) (\<lambda>_. andThen statement (\<lambda>_.
      andThen (onErr g (exec (create_partition (PartitionDDL (part * PartitionBlocks))))) (\<lambda>_.
      in_tx (load_part_body V X m part files want))))) ?Q ?E"
    if "parquetFiles X ?unit = Inr files" "partRows m part = Inr want" "verifyFilesUnder V X m (?unit @ ''/'') = None"
    for files want and g :: "err \<Rightarrow> err"
  proof -
    have assoc: "andThen a (\<lambda>_. andThen b (\<lambda>_. c)) = andThen (andThen a (\<lambda>_. b)) (\<lambda>_. c)"
      for a :: "(pg, err, unit) step" and b :: "(pg, err, unit) step" and c :: "(pg, err, unit) step"
      by (rule ext) (simp add: andThen_def split: prod.splits sum.splits)
    show ?thesis
      by (subst (2) assoc, rule triple_conseq [OF load_unit_triple])
        (auto intro: load_part_body_triple that triple_andThen [OF acquire] partition)
  qed
  show ?thesis
    unfolding loadPart_def iv Let_def prod.case
    by (intro triple_lift triple_fail_with triple_andThen [OF count] triple_given triple_andThen [OF unit] triple_if triple_ret load)
      (auto simp: readied_refl part_current_def iv part_fingerprint_def)
qed

lemma blocks_stage_triple:
  assumes X: "X \<in> Xs" "readManifest X = Inr m"
  shows "triple (\<lambda>s. tab s = t0) (Blocks V X)
    (\<lambda>_ s. blocks_current V m t0 \<and> tab s = t0 \<or> committed_after V Xs t0 (blocks_loaded V X m) (tab s))
    (\<lambda>_ s. readied V Xs t0 (tab s) \<or> committed_after V Xs t0 (blocks_loaded V X m) (tab s))"
    (is "triple ?P _ ?Q ?E")
proof -
  have pre: "triple ?P (preflightCoverage X) (\<lambda>_ s. tab s = t0) ?E"
    using preflightCoverage_triple by (rule triple_conseq) (auto simp: readied_refl)
  have count: "triple ?P (onErr g (query (\<lambda>t. of_nat (length (between_blocks lo hi t)) :: u64)))
      (\<lambda>x s. x = of_nat (length (between_blocks lo hi t0)) \<and> tab s = t0) ?E" for g :: "err \<Rightarrow> err" and lo hi
    using query_steps by (rule triple_conseq) (auto simp: readied_refl)
  have unit: "triple ?P (loadedUnit blocksUnit) (\<lambda>fp s. fp = recorded t0 blocksUnit \<and> tab s = t0) ?E"
    using loadedUnit_steps by (rule triple_conseq) (auto simp: readied_refl)
  have noroom: "andThen a (\<lambda>_. c) = andThen a (\<lambda>_. andThen (ret ()) (\<lambda>_. c))" for a :: "(pg, err, unit) step" and c :: "(pg, err, unit) step"
    by (simp add: andThen_def ret_def)
  have load: "triple ?P (andThen (markMaintenance blocksUnit) (\<lambda>_. in_tx (blocks_body V X m files))) ?Q ?E"
    if "parquetFiles X ''blocks'' = Inr files" "verifyFilesUnder V X m ''blocks/'' = None" for files
    by (subst noroom, rule triple_conseq [OF load_unit_triple])
      (auto intro: blocks_body_triple that triple_ret)
  show ?thesis
    unfolding Blocks_def X(2) andThen_lift_Inr
    by (intro triple_andThen [OF pre] triple_lift triple_fail_with triple_andThen [OF count] triple_given triple_andThen [OF unit]
        triple_if triple_ret load)
      (auto simp: readied_refl blocks_current_def)
qed

text \<open>Steps that only read.\<close>

definition reads :: "(pg, err, 'a) step \<Rightarrow> bool" where
  "reads m \<longleftrightarrow> (\<forall>t. triple (\<lambda>s. tab s = t) m (\<lambda>_ s. tab s = t) (\<lambda>_ s. tab s = t))"

named_theorems reads_rules \<open>steps that change no table\<close>

lemma reads_ret [reads_rules]: "reads (ret x)" and reads_throw [reads_rules]: "reads (throw e)"
  by (auto simp: reads_def intro: triple_ret triple_throw)

lemma reads_andThen [reads_rules]: "reads m \<Longrightarrow> (\<And>x. reads (f x)) \<Longrightarrow> reads (andThen m f)"
  unfolding reads_def by (intro allI triple_andThen) blast+

lemma reads_onErr [reads_rules]: "reads m \<Longrightarrow> reads (onErr g m)"
  unfolding reads_def by (intro allI triple_onErr) blast

lemma reads_query [reads_rules]: "reads (query f)"
  unfolding reads_def query_def exec_def triple_def
  by (auto simp: Let_def split: option.splits fault.splits)

lemma reads_branches [reads_rules]: "reads m \<Longrightarrow> reads m' \<Longrightarrow> reads (if b then m else m')"
  "reads m \<Longrightarrow> (\<And>y. reads (f y)) \<Longrightarrow> reads (case o1 of None \<Rightarrow> m | Some y \<Rightarrow> f y)"
  "(\<And>a b. reads (g a b)) \<Longrightarrow> reads (case p of (a, b) \<Rightarrow> g a b)"
  by (simp_all split: option.splits prod.splits)

lemma reads_lift [reads_rules]: "reads (lift r)" "reads (fail_with e)" "reads statement"
proof -
  show "reads (lift r)" by (cases r) (auto simp: lift_def intro: reads_rules)
  show "reads (fail_with e)" by (cases e) (auto simp: fail_with_def intro: reads_rules)
  show "reads statement" using reads_query [of "\<lambda>t. ()"] by (simp add: statement_def update_def query_def)
qed

lemma reads_for_up [reads_rules]: "(\<And>i. reads (body i)) \<Longrightarrow> reads (for_up dv fuel k i to body)"
  unfolding reads_def by (intro allI triple_for_up_inv) blast+

lemma reads_verifyLoaded: "reads (verifyLoaded V X)"
  unfolding verifyLoaded_def verify_part_loaded_def [abs_def] verifyPart_def verifyUnitLoadedFrom_def loadedUnit_def Let_def
  by (intro reads_rules)

lemma verifyLoaded_steps:
  assumes "readManifest X = Inr m"
  shows "triple (\<lambda>s. tab s = t0) (verifyLoaded V X)
    (\<lambda>cov s. (cov = \<lparr>covStart = BlocksFirst m, covHead = BlocksLast m\<rparr> \<and> export_verified V X m t0) \<and> tab s = t0) (\<lambda>_ s. tab s = t0)"
  using triple_conj [OF verifyLoaded_triple [of t0 V X] reads_verifyLoaded [of V X, unfolded reads_def, THEN spec, of t0]]
  by (rule triple_conseq) (use assms in auto)

text \<open>The rows and the record of the units unchanged.\<close>

definition rows_kept :: "tables \<Rightarrow> tables \<Rightarrow> bool" where
  "rows_kept t t' \<longleftrightarrow> eth_logs t' = eth_logs t \<and> eth_blocks t' = eth_blocks t \<and> backfill_units t' = backfill_units t"

lemma rows_kept_verified: "rows_kept t t' \<Longrightarrow> export_verified V X m t' = export_verified V X m t"
  by (simp add: rows_kept_def export_verified_def part_verified_def block_extent_def recorded_def between_logs_def between_blocks_def)

lemma published_publishes:
  assumes "published \<lparr>covStart = BlocksFirst m, covHead = BlocksLast m\<rparr> t t'"
  shows "publishes m t'" "rows_kept t t'"
  using assms
  by (auto simp: published_def Let_def publishes_def coverage_of_def extended_coverage_def rows_kept_def)

lemma ensure_index_triple:
  "triple (\<lambda>s. readied V Xs t0 (tab s)) (ensure_index idx) (\<lambda>_ s. readied V Xs t0 (tab s)) (\<lambda>_ s. readied V Xs t0 (tab s))"
proof -
  have "triple (\<lambda>s. readied V Xs t0 (tab s)) (onErr (\<lambda>e. e) (exec (create_index (index_name idx))))
      (\<lambda>_ s. readied V Xs t0 (tab s)) (\<lambda>_ s. readied V Xs t0 (tab s))"
  proof (rule exec_keeps)
    fix t x t' assume "readied V Xs t0 t" "create_index (index_name idx) t = Inr (x, t')"
    then show "readied V Xs t0 t'" using readied_step [OF _ Indexed same_rows_steps(4)] by simp
  qed
  then show ?thesis
    by (fastforce simp: triple_def ensure_index_def onErr_def split: prod.splits sum.splits)
qed

lemma triple_for_each_inv:
  assumes "\<And>x. triple I (body x) (\<lambda>_. I) E"
  shows "triple I (for_each xs body) (\<lambda>_. I) E"
  by (rule triple_for_each [where I = "\<lambda>_. I"]) (rule assms)

lemma readied_kept: "readied V Xs t0 t \<Longrightarrow> moves V Xs t0 t \<and> rows_kept t0 t"
  by (simp add: readied_def same_rows_def rows_kept_def)

text \<open>\<open>verified_at\<close>: tables reached by steps, with the rows of \<open>t0\<close>, verified and published.\<close>

definition verified_at :: "'v libraries \<Rightarrow> export_dir set \<Rightarrow> export_dir \<Rightarrow> manifest \<Rightarrow> tables \<Rightarrow> tables \<Rightarrow> bool" where
  "verified_at V Xs X m t0 t \<longleftrightarrow> moves V Xs t0 t \<and> rows_kept t0 t \<and> export_verified V X m t \<and> publishes m t"

abbreviation manifest_coverage :: "manifest \<Rightarrow> coverage" where
  "manifest_coverage m \<equiv> \<lparr>covStart = BlocksFirst m, covHead = BlocksLast m\<rparr>"

lemma published_verified:
  assumes X: "X \<in> Xs" "readManifest X = Inr m" and v: "export_verified V X m t0"
    and r: "readied V Xs t0 t" and p: "published (manifest_coverage m) t u"
  shows "verified_at V Xs X m t0 u"
proof -
  have k: "moves V Xs t0 t" "rows_kept t0 t" "rows_kept t u" "publishes m u"
    using readied_kept [OF r] published_publishes [OF p] by blast+
  have "export_verified V X m t" using v rows_kept_verified [OF k(2)] by blast
  moreover from this have "backfill_step V Xs t u" using Published [OF X _ p] by blast
  ultimately show ?thesis
    using k rows_kept_verified [OF k(3), of V X m] by (auto simp: verified_at_def rows_kept_def)
qed

lemma publish_triple:
  assumes X: "X \<in> Xs" "readManifest X = Inr m" and v: "export_verified V X m t0"
  shows "triple (\<lambda>s. readied V Xs t0 (tab s)) (SetCoverage (manifest_coverage m))
    (\<lambda>_ s. verified_at V Xs X m t0 (tab s)) (\<lambda>_ s. moves V Xs t0 (tab s) \<and> rows_kept t0 (tab s))"
proof (rule tripleI)
  fix s x u assume s: "readied V Xs t0 (tab s)" and "SetCoverage (manifest_coverage m) s = (Inr x, u)"
  then have "published (manifest_coverage m) (tab s) (tab u)"
    using SetCoverage_commits [of "manifest_coverage m" s] by (simp add: all_or_nothing_def)
  then show "verified_at V Xs X m t0 (tab u)" by (rule published_verified [OF X v s])
next
  fix s e u assume s: "readied V Xs t0 (tab s)" and "SetCoverage (manifest_coverage m) s = (Inl e, u)"
  then have "tab u = tab s \<or> published (manifest_coverage m) (tab s) (tab u)"
    using SetCoverage_commits [of "manifest_coverage m" s] by (simp add: all_or_nothing_def)
  then show "moves V Xs t0 (tab u) \<and> rows_kept t0 (tab u)"
    using readied_kept [OF s] published_verified [OF X v s] by (auto simp: verified_at_def)
qed

lemma clear_triple:
  assumes X: "X \<in> Xs" "readManifest X = Inr m"
  shows "triple (\<lambda>s. verified_at V Xs X m t0 (tab s)) (SetMaintenance False '''')
    (\<lambda>_ s. verified_at V Xs X m t0 (tab s) \<and> \<not> maintenance (tab s)) (\<lambda>_ s. moves V Xs t0 (tab s) \<and> rows_kept t0 (tab s))"
  unfolding SetMaintenance_def update_def
proof (rule exec_keeps [where B = "\<lambda>u. verified_at V Xs X m t0 u \<and> \<not> maintenance u"])
  fix t x t' assume t: "verified_at V Xs X m t0 t" and "Inr ((), t\<lparr>maintenance := False, maintenance_reason := ''''\<rparr>) = Inr (x, t')"
  then have t': "t' = t\<lparr>maintenance := False, maintenance_reason := ''''\<rparr>" by simp
  have k: "rows_kept t t'" by (simp add: t' rows_kept_def)
  have "backfill_step V Xs t t'" using Cleared [OF X, of V t] t by (simp add: t' verified_at_def)
  with t rows_kept_verified [OF k, of V X m] k show "verified_at V Xs X m t0 t' \<and> \<not> maintenance t'"
    by (auto simp: verified_at_def t' rows_kept_def publishes_def coverage_of_def)
qed (simp_all add: verified_at_def)

lemma finish_triple:
  assumes X: "X \<in> Xs" "readManifest X = Inr m"
  shows "triple (\<lambda>s. tab s = t0) (Finish V X)
    (\<lambda>_ s. verified_at V Xs X m t0 (tab s) \<and> \<not> maintenance (tab s))
    (\<lambda>_ s. moves V Xs t0 (tab s) \<and> rows_kept t0 (tab s))" (is "triple ?P _ ?Q ?E")
proof -
  have pre: "triple ?P (preflightCoverage X) (\<lambda>_ s. tab s = t0) ?E"
    using preflightCoverage_triple by (rule triple_conseq) (auto simp: rows_kept_def)
  have verify: "triple ?P (onErr g (verifyLoaded V X)) (\<lambda>cov s. (cov = manifest_coverage m \<and> export_verified V X m t0) \<and> tab s = t0) ?E"
    for g :: "err \<Rightarrow> err"
    by (rule triple_onErr, rule triple_conseq [OF verifyLoaded_steps [OF X(2)]]) (auto simp: rows_kept_def)
  have index: "triple ?P (for_each SecondaryIndexes ensure_index) (\<lambda>_ s. readied V Xs t0 (tab s)) ?E"
    by (rule triple_conseq [OF triple_for_each_inv [OF ensure_index_triple]]) (auto simp: readied_refl readied_kept)
  have analyze: "triple (\<lambda>s. readied V Xs t0 (tab s)) (for_each tables (\<lambda>table. onErr (g table) statement))
      (\<lambda>_ s. readied V Xs t0 (tab s)) ?E" for tables :: "string list" and g :: "string \<Rightarrow> err \<Rightarrow> err"
  proof (rule triple_conseq [OF triple_for_each_inv])
    show "triple (\<lambda>s. readied V Xs t0 (tab s)) (onErr (g table) statement) (\<lambda>_ s. readied V Xs t0 (tab s)) (\<lambda>_ s. readied V Xs t0 (tab s))" for table
      unfolding statement_def update_def by (rule exec_keeps) auto
  qed (auto simp: readied_kept)
  have rest: "triple ?P (andThen (for_each SecondaryIndexes ensure_index) (\<lambda>_.
      andThen (for_each tables (\<lambda>table. onErr (g table) statement)) (\<lambda>_.
      andThen (SetCoverage cov) (\<lambda>_. SetMaintenance False '''')))) ?Q ?E"
    if "cov = manifest_coverage m \<and> export_verified V X m t0" for cov tables and g :: "string \<Rightarrow> err \<Rightarrow> err"
    using that
    by (elim conjE, hypsubst)
      (rule triple_andThen [OF index triple_andThen [OF analyze triple_andThen [OF publish_triple [OF X] clear_triple [OF X]]]])
  show ?thesis
    unfolding Finish_def
    by (rule triple_andThen [OF pre triple_andThen [OF verify triple_given [OF rest]]])
qed

section \<open>Runs of stages\<close>

text \<open>A job is one stage run from one export, with its own context; each may end anywhere.\<close>

type_synonym job = "(string \<Rightarrow> nat \<Rightarrow> nat \<Rightarrow> err option) \<times> export_dir \<times> stage"

fun run_jobs :: "'v libraries \<Rightarrow> job list \<Rightarrow> pg \<Rightarrow> pg" where
  "run_jobs V [] s = s"
| "run_jobs V ((ctx, X, st) # jobs) s = run_jobs V jobs (snd (run_stage (V\<lparr>LoadCtxErr := ctx\<rparr>) X st s))"

definition moving :: "'v libraries \<Rightarrow> export_dir set \<Rightarrow> tables \<Rightarrow> (pg, err, 'a) step \<Rightarrow> bool" where
  "moving V Xs t0 m \<longleftrightarrow> triple (\<lambda>u. moves V Xs t0 (tab u)) m (\<lambda>_ u. moves V Xs t0 (tab u)) (\<lambda>_ u. moves V Xs t0 (tab u))"

lemma movingI:
  assumes "\<And>s r t. m s = (r, t) \<Longrightarrow> moves V Xs (tab s) (tab t)"
  shows "moving V Xs t0 m"
  unfolding moving_def by (rule tripleI) (blast intro: rtranclp_trans assms)+

lemma movingD:
  assumes "\<And>t0. moving V Xs t0 m" "m s = (r, t)"
  shows "moves V Xs (tab s) (tab t)"
proof (cases r)
  case (Inl e)
  then show ?thesis using triple_error [OF assms(1) [unfolded moving_def], of "tab s" s e t] assms(2) by simp
next
  case (Inr x)
  then show ?thesis using triple_value [OF assms(1) [unfolded moving_def], of "tab s" s x t] assms(2) by simp
qed

lemma moving_andThen: "moving V Xs t0 m \<Longrightarrow> (\<And>x. moving V Xs t0 (f x)) \<Longrightarrow> moving V Xs t0 (andThen m f)"
  unfolding moving_def by (rule triple_andThen)

lemma moving_throw: "moving V Xs t0 (throw e)"
  unfolding moving_def by (rule triple_throw)

lemma moving_lift: "(\<And>x. r = Inr x \<Longrightarrow> moving V Xs t0 (f x)) \<Longrightarrow> moving V Xs t0 (andThen (lift r) f)"
  unfolding moving_def by (rule triple_lift)

lemma moving_preflight: "moving V Xs t0 (preflightCoverage X)"
proof (rule movingI)
  fix s r t assume "preflightCoverage X s = (r, t)"
  then have "tab t = tab s"
    using triple_value [OF preflightCoverage_triple refl] triple_error [OF preflightCoverage_triple refl] by (cases r) blast+
  then show "moves V Xs (tab s) (tab t)" by simp
qed

lemma committed_moves:
  assumes "committed_after V Xs t0 L t" and "\<And>t1. guarded t1 \<Longrightarrow> L t1 t \<Longrightarrow> backfill_step V Xs t1 t"
  shows "moves V Xs t0 t"
  using assms unfolding committed_after_def readied_def by (meson rtranclp.rtrancl_into_rtrancl)

lemma loadPart_moving:
  assumes X: "X \<in> Xs" "readManifest X = Inr m" "part \<in> part_numbers m"
  shows "moving V Xs t0 (loadPart V X m part)"
proof (rule movingI)
  fix s r t assume run: "loadPart V X m part s = (r, t)"
  have "tab t = tab s \<or> readied V Xs (tab s) (tab t) \<or> committed_after V Xs (tab s) (part_loaded V X m part) (tab t)"
    using triple_value [OF loadPart_triple [OF X, where V = V] refl] triple_error [OF loadPart_triple [OF X, where V = V] refl] run
    by (cases r) blast+
  then show "moves V Xs (tab s) (tab t)"
    using committed_moves [of V Xs "tab s"] PartLoaded [OF X, of _ V] by (auto simp: readied_def)
qed

lemma Prepare_moving: "moving V Xs t0 (Prepare X)"
proof -
  have "moving V Xs t0 (onErr g (update (drop_index name)))" for name and g :: "err \<Rightarrow> err"
    unfolding update_def moving_def
    by (rule exec_keeps [where A = "moves V Xs t0" and B = "moves V Xs t0"])
      (auto intro: rtranclp.rtrancl_into_rtrancl Dropped)
  from triple_for_each_inv [OF this [unfolded moving_def]] show ?thesis
    unfolding Prepare_def by (intro moving_andThen [OF moving_preflight]) (simp add: moving_def)
qed

lemma parts_loop_moving:
  assumes X: "X \<in> Xs" "readManifest X = Inr m"
  defines "a \<equiv> BlocksFirst m div PartitionBlocks" and "b \<equiv> BlocksLast m div PartitionBlocks"
  shows "moving V Xs t0 (for_up dv (loop_fuel a b) 1 a b (loadPart V X m))"
proof -
  let ?I = "\<lambda>u. moves V Xs t0 (tab u)"
  have "triple (\<lambda>u. a \<le> a \<and> ?I u) (for_up dv (loop_fuel a b) 1 a b (loadPart V X m))
      (\<lambda>_ u. \<exists>j. b < j \<and> a \<le> j \<and> ?I u) (\<lambda>_. ?I)"
  proof (rule triple_for_up [where I = "\<lambda>i u. a \<le> i \<and> ?I u"])
    fix i assume i: "i \<le> b"
    have next_part: "a \<le> i + 1" if "a \<le> i"
    proof -
      have "unat i + 1 < 2 ^ 64" using i part_number_bound [of "BlocksLast m"] by (auto simp: word_le_nat_alt b_def)
      then have "unat (i + 1) = unat i + 1" using unat_add_no_wrap [of i 1] by simp
      with that show ?thesis by (simp add: word_le_nat_alt)
    qed
    show "triple (\<lambda>u. a \<le> i \<and> ?I u) (loadPart V X m i) (\<lambda>_ u. a \<le> i + 1 \<and> ?I u) (\<lambda>_. ?I)"
    proof (rule triple_given)
      assume ai: "a \<le> i"
      then have "i \<in> part_numbers m" using i by (simp add: part_numbers_def a_def b_def)
      from loadPart_moving [OF X this, of V t0, unfolded moving_def]
      show "triple ?I (loadPart V X m i) (\<lambda>_ u. a \<le> i + 1 \<and> ?I u) (\<lambda>_. ?I)"
        by (rule triple_conseq) (use next_part [OF ai] in simp_all)
    qed
  qed (use part_number_bound in \<open>simp_all add: loop_fuel_def b_def\<close>)
  then show ?thesis unfolding moving_def by (rule triple_conseq) auto
qed

lemma Logs_moving:
  assumes "X \<in> Xs"
  shows "moving V Xs t0 (Logs V X)"
  unfolding Logs_def Let_def
  by (intro moving_andThen [OF moving_preflight] moving_lift parts_loop_moving assms)

lemma Blocks_moving:
  assumes X: "X \<in> Xs"
  shows "moving V Xs t0 (Blocks V X)"
proof (cases "readManifest X")
  case (Inl e)
  show ?thesis
    unfolding Blocks_def Inl by (intro moving_andThen [OF moving_preflight] moving_lift) simp
next
  case (Inr m)
  show ?thesis
  proof (rule movingI)
    fix s r t assume run: "Blocks V X s = (r, t)"
    have "tab t = tab s \<or> readied V Xs (tab s) (tab t) \<or> committed_after V Xs (tab s) (blocks_loaded V X m) (tab t)"
      using triple_value [OF blocks_stage_triple [OF X Inr, where V = V] refl]
        triple_error [OF blocks_stage_triple [OF X Inr, where V = V] refl] run
      by (cases r) blast+
    then show "moves V Xs (tab s) (tab t)"
      using committed_moves [of V Xs "tab s"] BlocksLoaded [OF X Inr, of _ V] by (auto simp: readied_def)
  qed
qed

lemma Finish_moving:
  assumes X: "X \<in> Xs"
  shows "moving V Xs t0 (Finish V X)"
proof (cases "readManifest X")
  case (Inl e)
  show ?thesis
    unfolding Finish_def preflightCoverage_def Inl
    by (simp add: moving_def triple_def andThen_def lift_def throw_def)
next
  case (Inr m)
  show ?thesis
  proof (rule movingI)
    fix s r t assume run: "Finish V X s = (r, t)"
    then show "moves V Xs (tab s) (tab t)"
      using triple_value [OF finish_triple [OF X Inr, where V = V] refl] triple_error [OF finish_triple [OF X Inr, where V = V] refl]
      by (cases r) (auto simp: verified_at_def)
  qed
qed

lemma run_stage_moving: "X \<in> Xs \<Longrightarrow> moving V Xs t0 (run_stage V X st)"
  by (cases st) (simp_all add: Prepare_moving Logs_moving Blocks_moving Finish_moving)

text \<open>The context decides only what fails, never what is loaded or verified.\<close>

lemma no_context_reading:
  "open_file (V\<lparr>LoadCtxErr := c\<rparr>) X name = open_file V X name"
  "logRow (V\<lparr>LoadCtxErr := c\<rparr>) = logRow V" "blockRow (V\<lparr>LoadCtxErr := c\<rparr>) = blockRow V"
  "inInterval (V\<lparr>LoadCtxErr := c\<rparr>) = inInterval V" "unitFingerprint (V\<lparr>LoadCtxErr := c\<rparr>) = unitFingerprint V"
  "part_fingerprint (V\<lparr>LoadCtxErr := c\<rparr>) = part_fingerprint V"
  by (auto simp: open_file_def logRow_def blockRow_def bytesOrNil_def bytesOrEmpty_def inInterval_def unitFingerprint_def
      part_fingerprint_def fun_eq_iff cong: option.case_cong entry.case_cong sum.case_cong prod.case_cong)

lemma no_context_rows:
  "file_rows (V\<lparr>LoadCtxErr := c\<rparr>) X = file_rows V X" "part_rows (V\<lparr>LoadCtxErr := c\<rparr>) X = part_rows V X"
  "block_rows (V\<lparr>LoadCtxErr := c\<rparr>) X = block_rows V X"
proof -
  show f: "file_rows (V\<lparr>LoadCtxErr := c\<rparr>) X = file_rows V X" for V :: "'x libraries"
    by (auto simp: file_rows_def no_context_reading fun_eq_iff cong: option.case_cong entry.case_cong sum.case_cong prod.case_cong)
  show "part_rows (V\<lparr>LoadCtxErr := c\<rparr>) X = part_rows V X" "block_rows (V\<lparr>LoadCtxErr := c\<rparr>) X = block_rows V X"
    by (simp_all add: part_rows_def block_rows_def no_context_reading f fun_eq_iff cong: option.case_cong entry.case_cong sum.case_cong prod.case_cong)
qed

lemma no_context_files: "verifyFilesUnder (V\<lparr>LoadCtxErr := c\<rparr>) X m pre = verifyFilesUnder V X m pre"
proof -
  have "fileSizeAndMD5 (V\<lparr>LoadCtxErr := c\<rparr>) X name = fileSizeAndMD5 V X name" for name
    by (simp add: fileSizeAndMD5_def cong: option.case_cong entry.case_cong sum.case_cong prod.case_cong)
  then have "verify_listed (V\<lparr>LoadCtxErr := c\<rparr>) X m names = verify_listed V X m names" for names
    by (induction names) (simp_all add: Let_def cong: sum.case_cong prod.case_cong if_cong)
  then show ?thesis by (simp add: verifyFilesUnder_def Let_def)
qed

lemma no_context_loaded:
  "part_loaded (V\<lparr>LoadCtxErr := c\<rparr>) = part_loaded V" "blocks_loaded (V\<lparr>LoadCtxErr := c\<rparr>) = blocks_loaded V"
  by (simp_all add: part_loaded_def blocks_loaded_def no_context_rows no_context_files no_context_reading fun_eq_iff)

lemma no_context_verified: "export_verified (V\<lparr>LoadCtxErr := c\<rparr>) X m = export_verified V X m"
proof -
  have "footer_rows (V\<lparr>LoadCtxErr := c\<rparr>) X files = footer_rows V X files" for files
    by (induction files) (simp_all add: parquetRowCount_def no_context_reading cong: option.case_cong entry.case_cong sum.case_cong prod.case_cong)
  then show ?thesis
    by (simp add: export_verified_def part_verified_def verifyFiles_def no_context_files no_context_reading fun_eq_iff)
qed

lemma no_context_step: "backfill_step (V\<lparr>LoadCtxErr := c\<rparr>) Xs t u \<Longrightarrow> backfill_step V Xs t u"
  by (induction rule: backfill_step.induct)
    (auto simp: no_context_loaded no_context_verified intro: backfill_step.intros)

lemma no_context_moves: "moves (V\<lparr>LoadCtxErr := c\<rparr>) Xs t u \<Longrightarrow> moves V Xs t u"
  by (induction rule: rtranclp_induct) (auto intro: rtranclp.rtrancl_into_rtrancl no_context_step)

lemma run_jobs_append: "run_jobs V (js @ ks) s = run_jobs V ks (run_jobs V js s)"
  by (induction js arbitrary: s) auto

lemma run_jobs_moves:
  "\<forall>(ctx, X, st) \<in> set jobs. X \<in> Xs \<Longrightarrow> moves V Xs (tab s) (tab (run_jobs V jobs s))"
proof (induction jobs arbitrary: s)
  case (Cons job jobs)
  obtain ctx X st where job: "job = (ctx, X, st)" by (metis prod_cases3)
  obtain r t where run: "run_stage (V\<lparr>LoadCtxErr := ctx\<rparr>) X st s = (r, t)" by fastforce
  have "moves V Xs (tab s) (tab t)"
    using movingD [OF run_stage_moving run] Cons.prems job by (auto intro: no_context_moves)
  also have "moves V Xs (tab t) (tab (run_jobs V jobs t))" using Cons by auto
  finally show ?case by (simp add: job run)
qed simp

section \<open>What the steps keep\<close>

definition visible :: "tables \<Rightarrow> bool" where
  "visible t \<longleftrightarrow> coverage_of t \<noteq> None \<and> \<not> maintenance t"

lemma copy_log_rows_fields:
  assumes "copy_log_rows rows t = Inr (x, t')"
  shows "t' = t\<lparr>eth_logs := eth_logs t @ rows\<rparr>" "distinct (map row_key (eth_logs t @ rows))" "\<forall>r \<in> set rows. routed t r"
  using assms by (auto simp: copy_log_rows_def split: if_splits)

lemma part_loaded_fields:
  assumes "part_loaded V X m part t t'" "unitInterval m part = (lo, hi)"
  obtains rows where "part_rows V X part = Some rows" "partRows m part = Inr (of_nat (length rows))"
    "verifyFilesUnder V X m (manifestPartDir part @ ''/'') = None"
    "\<forall>r \<in> set rows. int64 lo \<le> r_block_number r \<and> r_block_number r \<le> int64 hi"
    "eth_logs t' = eth_logs (delete_logs_between (int64 lo) (int64 hi) t) @ sort_key row_key rows"
    "distinct (map row_key (eth_logs t'))" "\<forall>r \<in> set rows. routed t r"
    "t' = unit_record (manifestPartDir part) (part_fingerprint V m part) (length rows) (t\<lparr>eth_logs := eth_logs t'\<rparr>)"
proof -
  obtain rows t1 where rows: "part_rows V X part = Some rows" "partRows m part = Inr (of_nat (length rows))"
      "verifyFilesUnder V X m (manifestPartDir part @ ''/'') = None"
      "\<forall>r \<in> set rows. int64 lo \<le> r_block_number r \<and> r_block_number r \<le> int64 hi"
    and t1: "copy_log_rows (sort_key row_key rows) (delete_logs_between (int64 lo) (int64 hi) t) = Inr ((), t1)"
    and t': "t' = unit_record (manifestPartDir part) (part_fingerprint V m part) (length rows) t1"
    using assms by (auto simp: part_loaded_def)
  note c = copy_log_rows_fields [OF t1]
  have logs: "eth_logs t' = eth_logs t1" by (simp add: t' unit_record_def)
  show thesis
  proof (rule that [OF rows])
    show "eth_logs t' = eth_logs (delete_logs_between (int64 lo) (int64 hi) t) @ sort_key row_key rows"
      by (simp add: logs c(1))
    show "distinct (map row_key (eth_logs t'))" using c(2) by (simp add: logs c(1))
    show "\<forall>r \<in> set rows. routed t r" using c(3) by (auto simp: routed_def delete_logs_between_def)
    show "t' = unit_record (manifestPartDir part) (part_fingerprint V m part) (length rows) (t\<lparr>eth_logs := eth_logs t'\<rparr>)"
      unfolding logs by (simp add: t' c(1) delete_logs_between_def)
  qed
qed

lemma blocks_loaded_fields:
  assumes "blocks_loaded V X m t t'"
  obtains rows where "block_rows V X m = Some rows" "verifyFilesUnder V X m ''blocks/'' = None"
    "eth_blocks t' = eth_blocks (delete_blocks_between (int64 (BlocksFirst m)) (int64 (BlocksLast m)) t) @ rows"
    "unique_heights t \<longrightarrow> unique_heights t'"
    "t' = unit_record blocksUnit (unitFingerprint V m ''blocks/'') (length rows) (t\<lparr>eth_blocks := eth_blocks t'\<rparr>)"
proof -
  obtain rows where rows: "block_rows V X m = Some rows" "verifyFilesUnder V X m ''blocks/'' = None"
    and u: "unique_heights (delete_blocks_between (int64 (BlocksFirst m)) (int64 (BlocksLast m)) t) \<longrightarrow>
      distinct (map b_number (eth_blocks (delete_blocks_between (int64 (BlocksFirst m)) (int64 (BlocksLast m)) t) @ rows))"
    and t': "t' = unit_record blocksUnit (unitFingerprint V m ''blocks/'') (length rows)
      (t\<lparr>eth_blocks := eth_blocks (delete_blocks_between (int64 (BlocksFirst m)) (int64 (BlocksLast m)) t) @ rows\<rparr>)"
    using assms by (auto simp: blocks_loaded_def Let_def unique_heights_def delete_blocks_between_def)
  have "unique_heights t \<Longrightarrow> unique_heights (delete_blocks_between (int64 (BlocksFirst m)) (int64 (BlocksLast m)) t)"
    by (simp add: unique_heights_def delete_blocks_between_def distinct_map inj_on_def)
  then show thesis
    using rows u t' by (intro that) (auto simp: unique_heights_def unit_record_def)
qed

lemma part_loaded_keeps:
  assumes "part_loaded V X m part t t'"
  shows "ingest_cursor t' = ingest_cursor t \<and> maintenance t' = maintenance t \<and> eth_blocks t' = eth_blocks t \<and> partitions t' = partitions t"
proof -
  obtain lo hi where iv: "unitInterval m part = (lo, hi)" by fastforce
  obtain rows t1 where "copy_log_rows (sort_key row_key rows) (delete_logs_between (int64 lo) (int64 hi) t) = Inr ((), t1)"
      "t' = unit_record (manifestPartDir part) (part_fingerprint V m part) (length rows) t1"
    using assms by (auto simp: part_loaded_def iv)
  with copy_log_rows_fields(1) [OF this(1)] show ?thesis by (simp add: unit_record_def delete_logs_between_def)
qed

lemma blocks_loaded_keeps:
  assumes "blocks_loaded V X m t t'"
  shows "ingest_cursor t' = ingest_cursor t \<and> maintenance t' = maintenance t \<and> eth_logs t' = eth_logs t \<and> partitions t' = partitions t"
  using assms by (auto simp: blocks_loaded_def Let_def unit_record_def delete_blocks_between_def)

text \<open>Readers are served only rows that were there before, or rows that were verified.\<close>

definition verified_export :: "'v libraries \<Rightarrow> export_dir set \<Rightarrow> tables \<Rightarrow> bool" where
  "verified_export V Xs t \<longleftrightarrow> (\<exists>X \<in> Xs. \<exists>m. readManifest X = Inr m \<and> export_verified V X m t \<and> publishes m t)"

definition safely_visible :: "'v libraries \<Rightarrow> export_dir set \<Rightarrow> tables \<Rightarrow> tables \<Rightarrow> bool" where
  "safely_visible V Xs t0 t \<longleftrightarrow> (visible t \<longrightarrow>
     visible t0 \<and> eth_logs t = eth_logs t0 \<and> eth_blocks t = eth_blocks t0 \<or> verified_export V Xs t)"

lemma safely_visible_same:
  assumes "safely_visible V Xs t0 t" "same_rows t t'" "maintenance t' = maintenance t"
  shows "safely_visible V Xs t0 t'"
proof -
  note f = same_rows_facts [OF assms(2)]
  have "visible t' = visible t" "publishes m t' = publishes m t" "verified_export V Xs t' = verified_export V Xs t" for m
    by (simp_all add: visible_def publishes_def verified_export_def f assms(3))
  moreover have "eth_logs t' = eth_logs t" "eth_blocks t' = eth_blocks t" using assms(2) by (simp_all add: same_rows_def)
  ultimately show ?thesis using assms(1) by (simp add: safely_visible_def)
qed

lemma step_safely_visible:
  assumes "backfill_step V Xs t t'" "safely_visible V Xs t0 t"
  shows "safely_visible V Xs t0 t'"
  using assms(1)
proof cases
  case (Flagged why)
  then show ?thesis by (simp add: safely_visible_def visible_def)
next
  case (Partitioned X m part)
  have "maintenance t' = maintenance t" using Partitioned(4) by (auto simp: create_partition_def split: if_splits)
  with safely_visible_same [OF assms(2) same_rows_steps(3) [OF Partitioned(4)]] show ?thesis .
next
  case (Dropped name)
  then show ?thesis using safely_visible_same [OF assms(2) same_rows_steps(2)] by (simp add: drop_index_def)
next
  case (Indexed name)
  have "maintenance t' = maintenance t" using Indexed by (auto simp: create_index_def split: if_splits)
  with safely_visible_same [OF assms(2) same_rows_steps(4) [OF Indexed]] show ?thesis .
next
  case (PartLoaded X m part)
  have "ingest_cursor t' = ingest_cursor t" "maintenance t' = maintenance t" using part_loaded_keeps [OF PartLoaded(5)] by simp_all
  then have "\<not> visible t'" using PartLoaded(4) by (auto simp: visible_def guarded_def coverage_of_def)
  then show ?thesis by (simp add: safely_visible_def)
next
  case (BlocksLoaded X m)
  have "ingest_cursor t' = ingest_cursor t" "maintenance t' = maintenance t" using blocks_loaded_keeps [OF BlocksLoaded(4)] by simp_all
  then have "\<not> visible t'" using BlocksLoaded(3) by (auto simp: visible_def guarded_def coverage_of_def)
  then show ?thesis by (simp add: safely_visible_def)
next
  case (Published X m)
  note p = published_publishes [OF Published(4)]
  have "export_verified V X m t'" using Published(3) rows_kept_verified [OF p(2), of V X m] by simp
  then have "verified_export V Xs t'" unfolding verified_export_def using Published(1,2) p(1) by blast
  then show ?thesis by (simp add: safely_visible_def)
next
  case (Cleared X m)
  have k: "rows_kept t t'" by (simp add: Cleared(1) rows_kept_def)
  have p: "publishes m t'" using Cleared(5) by (simp add: Cleared(1) publishes_def coverage_of_def)
  have "export_verified V X m t'" using Cleared(4) rows_kept_verified [OF k, of V X m] by simp
  then have "verified_export V Xs t'" unfolding verified_export_def using Cleared(2,3) p by blast
  then show ?thesis by (simp add: safely_visible_def)
qed

lemma moves_safely_visible: "moves V Xs t0 t \<Longrightarrow> safely_visible V Xs t0 t"
proof (induction rule: rtranclp_induct)
  case base
  show ?case by (simp add: safely_visible_def)
next
  case (step t t')
  then show ?case by (blast intro: step_safely_visible)
qed

section \<open>The tables while they are repaired\<close>

text \<open>
  \<open>repairable a b\<close>: the invariant of the warehouse but for the block rows of the interval being loaded.
\<close>

definition covered_but :: "u64 \<Rightarrow> u64 \<Rightarrow> (int \<times> int) option \<Rightarrow> int set \<Rightarrow> bool" where
  "covered_but a b cursor stored \<longleftrightarrow>
     (case cursor of None \<Rightarrow> True
      | Some (c, h) \<Rightarrow> 0 \<le> c \<and> c \<le> h \<and> h < 2 ^ 63 \<and> {c..h} - {int64 a..int64 b} \<subseteq> stored)"

definition repairable :: "u64 \<Rightarrow> u64 \<Rightarrow> tables \<Rightarrow> bool" where
  "repairable a b t \<longleftrightarrow>
     unique_heights t \<and> distinct (map row_key (eth_logs t)) \<and>
     (\<forall>k \<in> set (eth_blocks t). stored_block k) \<and> (\<forall>r \<in> set (eth_logs t). stored_log r \<and> routed t r) \<and>
     partitions_ok (partitions t) \<and> covered_but a b (ingest_cursor t) (b_number ` set (eth_blocks t))"

lemma warehouse_ok_repairable: "warehouse_ok t \<Longrightarrow> repairable a b t"
  by (auto simp: warehouse_ok_def repairable_def covered_but_def unique_heights_def covered_def split: option.splits)

lemma repairable_warehouse_ok: "repairable a b t \<Longrightarrow> covered t (int64 a) (int64 b) \<Longrightarrow> warehouse_ok t"
proof -
  assume r: "repairable a b t" and c: "covered t (int64 a) (int64 b)"
  have "{x..y} \<subseteq> b_number ` set (eth_blocks t)" if "{x..y} - {int64 a..int64 b} \<subseteq> b_number ` set (eth_blocks t)" for x y
    using that c unfolding covered_def by blast
  then show ?thesis
    using r unfolding repairable_def covered_but_def warehouse_ok_def unique_heights_def covered_def by (simp split: option.splits prod.splits)
qed

text \<open>What the exports of a family share: the interval, and rows the tables can hold.\<close>

definition export_family :: "'v libraries \<Rightarrow> export_dir set \<Rightarrow> u64 \<Rightarrow> u64 \<Rightarrow> bool" where
  "export_family V Xs a b \<longleftrightarrow> a \<le> b \<and> plausible b \<and>
     (\<forall>X \<in> Xs. \<forall>m. readManifest X = Inr m \<longrightarrow>
        BlocksFirst m = a \<and> BlocksLast m = b \<and>
        (\<forall>part \<in> part_numbers m. \<forall>rows. part_rows V X part = Some rows \<longrightarrow> (\<forall>r \<in> set rows. stored_log r)) \<and>
        (\<forall>rows. block_rows V X m = Some rows \<longrightarrow> (\<forall>k \<in> set rows. stored_block k)))"

lemma readManifest_Inr:
  assumes "readManifest X = Inr m"
  shows "exManifest X = Parsed m" "BlocksFirst m \<le> BlocksLast m" "BlocksRows m = BlocksLast m - BlocksFirst m + 1"
    "sum_list (map snd (LogsParts m)) = LogsRows m" "ManifestFiles m \<noteq> []"
  using assms by (auto simp: readManifest_def not_less split: manifest_read.splits if_splits)

text \<open>As many distinct heights of the interval as it has heights: all of them.\<close>

lemma verified_covered:
  assumes X: "readManifest X = Inr m" and v: "export_verified V X m t" and u: "unique_heights t" and p: "plausible (BlocksLast m)"
  shows "covered t (int64 (BlocksFirst m)) (int64 (BlocksLast m))"
proof -
  let ?a = "BlocksFirst m" and ?b = "BlocksLast m"
  let ?ns = "map b_number (between_blocks ?a ?b t)"
  have le: "?a \<le> ?b" using readManifest_Inr [OF X] by simp
  have fits: "fits_int64 ?a" "fits_int64 ?b" using p le plausible_fits fits_int64_mono by blast+
  have d: "distinct ?ns" using u by (simp add: unique_heights_def between_blocks_def distinct_map inj_on_def)
  have sub: "set ?ns \<subseteq> {int64 ?a..int64 ?b}" by (auto simp: between_blocks_def)
  have card: "card {int64 ?a..int64 ?b} = unat ?b - unat ?a + 1"
    using le by (simp add: int64_unat fits word_le_nat_alt of_nat_diff nat_diff_distrib del: of_nat_unat)
  have len: "length ?ns = card (set ?ns)" using distinct_card [OF d] by simp
  have "length ?ns \<le> unat ?b - unat ?a + 1" unfolding len card [symmetric] by (rule card_mono) (use sub in auto)
  moreover have "unat ?b < 2 ^ 62" using p by (simp add: plausible_nat)
  ultimately have "unat (of_nat (length ?ns) :: u64) = length ?ns" by (simp add: unat_of_nat)
  moreover have "(of_nat (length ?ns) :: u64) = ?b - ?a + 1"
    using v readManifest_Inr(3) [OF X] by (auto simp: export_verified_def block_extent_def Let_def split: if_splits)
  moreover have "unat (?b - ?a + 1) = unat ?b - unat ?a + 1"
    using le \<open>unat ?b < 2 ^ 62\<close> unat_sub [OF le] by (subst unat_add_no_wrap) auto
  ultimately have "card (set ?ns) = card {int64 ?a..int64 ?b}" using len card by simp
  then have "set ?ns = {int64 ?a..int64 ?b}" using sub by (intro card_subset_eq) auto
  then show ?thesis by (auto simp: covered_def between_blocks_def)
qed

lemma repairable_same:
  assumes "repairable a b t" "eth_logs t' = eth_logs t" "eth_blocks t' = eth_blocks t" "ingest_cursor t' = ingest_cursor t"
    "partitions t' = partitions t"
  shows "repairable a b t'"
  using assms by (simp add: repairable_def unique_heights_def routed_def)

lemma part_start:
  assumes "part \<le> n div PartitionBlocks"
  shows "unat (part * PartitionBlocks) = unat part * pblocks" "unat part * pblocks \<le> unat n"
proof -
  have "unat part \<le> bucket n" using assms by (simp add: word_le_nat_alt unat_bucket)
  then show le: "unat part * pblocks \<le> unat n"
    using bucket_bounds(1) [of n] by (meson le_trans mult_le_mono1)
  then have "unat part * pblocks < 2 ^ 64" using unat_less_u64 [of n] by linarith
  then show "unat (part * PartitionBlocks) = unat part * pblocks"
    by (subst unat_word_ariths(2)) simp
qed

lemma step_repairable:
  assumes fam: "export_family V Xs a b" and r: "repairable a b t" and step: "backfill_step V Xs t t'"
  shows "repairable a b t'"
  using step
proof cases
  case (Flagged why)
  then show ?thesis using repairable_same [OF r] by simp
next
  case (Partitioned X m part)
  have m: "BlocksLast m = b" "plausible b" using fam Partitioned(1,2) by (auto simp: export_family_def)
  have "plausible (part * PartitionBlocks)"
  proof (rule plausible_mono [OF _ m(2)])
    have "part \<le> b div PartitionBlocks" using Partitioned(3) m(1) by (simp add: part_numbers_def)
    from part_start [OF this] show "part * PartitionBlocks \<le> b" by (simp add: word_le_nat_alt)
  qed
  note made = create_partition_ok [OF _ this, of t]
  have old: "partitions_ok (partitions t)" using r by (simp add: repairable_def)
  obtain ps where ps: "t' = t\<lparr>partitions := ps\<rparr>" "partitions_ok ps" "set (partitions t) \<subseteq> set ps"
  proof (cases "t' = t")
    case True
    then show ?thesis using that [of "partitions t"] old by simp
  next
    case False
    then show ?thesis using made [OF old] Partitioned(4) that by auto
  qed
  then have "routed t r \<Longrightarrow> routed t' r" for r using routed_mono [of t r t'] by simp
  then show ?thesis using r ps by (auto simp: repairable_def unique_heights_def)
next
  case (Dropped name)
  then show ?thesis using repairable_same [OF r] by (simp add: drop_index_def)
next
  case (Indexed name)
  then have "t' = t\<lparr>indexes := indexes t @ [name]\<rparr>" by (simp add: create_index_def split: if_splits)
  then show ?thesis using repairable_same [OF r] by simp
next
  case (PartLoaded X m part)
  obtain lo hi where iv: "unitInterval m part = (lo, hi)" by fastforce
  note keep = part_loaded_keeps [OF PartLoaded(5)]
  obtain rows where rows: "part_rows V X part = Some rows"
    and logs: "eth_logs t' = eth_logs (delete_logs_between (int64 lo) (int64 hi) t) @ sort_key row_key rows"
    and d: "distinct (map row_key (eth_logs t'))" and routed: "\<forall>r \<in> set rows. routed t r"
    by (rule part_loaded_fields [OF PartLoaded(5) iv])
  have "stored_log r" if "r \<in> set rows" for r
    using fam PartLoaded(1-3) rows that by (auto simp: export_family_def)
  then have "\<forall>r \<in> set (eth_logs t'). stored_log r \<and> routed t' r"
    using r routed keep unfolding logs by (auto simp: repairable_def delete_logs_between_def routed_def)
  then show ?thesis using r d keep by (simp add: repairable_def unique_heights_def)
next
  case (BlocksLoaded X m)
  note keep = blocks_loaded_keeps [OF BlocksLoaded(4)]
  have m: "BlocksFirst m = a" "BlocksLast m = b" using fam BlocksLoaded(1,2) by (auto simp: export_family_def)
  obtain rows where rows: "block_rows V X m = Some rows"
    and blocks: "eth_blocks t' = eth_blocks (delete_blocks_between (int64 (BlocksFirst m)) (int64 (BlocksLast m)) t) @ rows"
    and u: "unique_heights t \<longrightarrow> unique_heights t'"
    by (rule blocks_loaded_fields [OF BlocksLoaded(4)])
  have "\<forall>k \<in> set rows. stored_block k"
    using fam BlocksLoaded(1,2) rows by (simp add: export_family_def)
  then have stored: "\<forall>k \<in> set (eth_blocks t'). stored_block k"
    using r unfolding blocks by (auto simp: repairable_def delete_blocks_between_def)
  have "b_number ` set (eth_blocks t) - {int64 a..int64 b} \<subseteq> b_number ` set (eth_blocks t')"
    unfolding blocks m by (force simp: delete_blocks_between_def)
  then have "covered_but a b c (b_number ` set (eth_blocks t)) \<Longrightarrow> covered_but a b c (b_number ` set (eth_blocks t'))" for c
    unfolding covered_but_def by (cases c) (simp, simp split: prod.splits, blast)
  moreover have "routed t' r = routed t r" for r using keep by (simp add: routed_def)
  ultimately show ?thesis using r stored u keep by (simp add: repairable_def)
next
  case (Published X m)
  have m: "BlocksFirst m = a" "BlocksLast m = b" "a \<le> b" "plausible b"
    using fam Published(1,2) by (auto simp: export_family_def)
  have "covered t (int64 a) (int64 b)"
    using verified_covered [OF Published(2,3)] r m by (simp add: repairable_def)
  with repairable_warehouse_ok [OF r this] published_ok [OF _ Published(4)] m have "warehouse_ok t'" by simp
  then show ?thesis by (rule warehouse_ok_repairable)
next
  case (Cleared X m)
  then show ?thesis using repairable_same [OF r] by simp
qed

lemma moves_repairable:
  assumes "export_family V Xs a b" "repairable a b t"
  shows "moves V Xs t t' \<Longrightarrow> repairable a b t'"
  by (induction rule: rtranclp_induct) (use assms step_repairable in blast)+

end
