(* ===== verification/Fingerprint.thy ===== *)
theory Fingerprint
  imports LoaderFacts
begin

text \<open>
  What a unit's fingerprint stands for: two exports that both passed the checks of their manifests
  and have the same fingerprint for a unit hold the same files with the same content there, as
  long as the digests do not collide on them. The text the fingerprint hashes is read back entry
  by entry (\<open>fingerprint_text_inject\<close>).
\<close>

section \<open>The fingerprint text\<close>

lemma split_at_inject:
  "a @ c # x = b @ c # y \<Longrightarrow> c \<notin> set a \<Longrightarrow> c \<notin> set b \<Longrightarrow> a = b \<and> x = y"
proof (induction a arbitrary: b)
  case Nil
  then show ?case by (cases b) auto
next
  case (Cons z a)
  then show ?case by (cases b) auto
qed

lemma show_int_chars: "set (show_int i) \<subseteq> insert CHR ''-'' (set ''0123456789abcdef'')"
proof (cases "i < 0")
  case True
  then show ?thesis using subset_insertI2 [OF set_dec [of "nat (- i)"]] by (simp add: show_int_def)
next
  case False
  then show ?thesis using subset_insertI2 [OF set_dec [of "nat i"]] by (simp add: show_int_def)
qed

lemma dec_no_dash: "dec n \<noteq> CHR ''-'' # s"
proof
  have dash: "CHR ''-'' \<notin> set (dec n)" using subsetD [OF set_dec, of "CHR ''-''" n] by auto
  assume "dec n = CHR ''-'' # s"
  with dash show False by simp
qed

lemma show_int_inject: "show_int i = show_int j \<Longrightarrow> i = j"
proof (cases "i < 0"; cases "j < 0")
  show "show_int i = show_int j \<Longrightarrow> i < 0 \<Longrightarrow> j < 0 \<Longrightarrow> i = j" by (simp add: show_int_def)
  show "show_int i = show_int j \<Longrightarrow> i < 0 \<Longrightarrow> \<not> j < 0 \<Longrightarrow> i = j" using dec_no_dash [THEN not_sym] by (simp add: show_int_def)
  show "show_int i = show_int j \<Longrightarrow> \<not> i < 0 \<Longrightarrow> j < 0 \<Longrightarrow> i = j" using dec_no_dash by (simp add: show_int_def)
  show "show_int i = show_int j \<Longrightarrow> \<not> i < 0 \<Longrightarrow> \<not> j < 0 \<Longrightarrow> i = j" by (simp add: show_int_def)
qed

lemma show_int64_inject: "show_int64 v = show_int64 w \<longleftrightarrow> v = w"
  by (auto simp: show_int64_def dest: show_int_inject)

text \<open>A name or a checksum as they occur in a manifest: neither a bar nor a newline in it.\<close>

definition plain_text :: "string \<Rightarrow> bool" where
  "plain_text s \<longleftrightarrow> CHR ''|'' \<notin> set s \<and> CHR 0x0A \<notin> set s"

lemma plain_show_int64: "plain_text (show_int64 w)"
  using show_int_chars [of "int64 w"] by (auto simp: plain_text_def show_int64_def)

lemma fingerprint_line_inject:
  assumes "plain_text n" "plain_text n'" "plain_text (fileMD5 f)" "plain_text (fileMD5 f')"
    and "fingerprint_line n f @ x = fingerprint_line n' f' @ y"
  shows "n = n' \<and> f = f' \<and> x = y"
proof -
  have "n @ CHR ''|'' # show_int64 (fileSize f) @ CHR ''|'' # fileMD5 f @ CHR 0x0A # x =
      n' @ CHR ''|'' # show_int64 (fileSize f') @ CHR ''|'' # fileMD5 f' @ CHR 0x0A # y"
    using assms(5) by (simp add: fingerprint_line_def)
  from split_at_inject [OF this] assms(1,2)
  have "n = n'" and rest: "show_int64 (fileSize f) @ CHR ''|'' # fileMD5 f @ CHR 0x0A # x =
      show_int64 (fileSize f') @ CHR ''|'' # fileMD5 f' @ CHR 0x0A # y"
    by (auto simp: plain_text_def)
  from split_at_inject [OF rest] plain_show_int64
  have "fileSize f = fileSize f'" and md5: "fileMD5 f @ CHR 0x0A # x = fileMD5 f' @ CHR 0x0A # y"
    by (auto simp: plain_text_def show_int64_inject)
  from split_at_inject [OF md5] assms(3,4) have "fileMD5 f = fileMD5 f'" "x = y"
    by (auto simp: plain_text_def)
  then show ?thesis using \<open>n = n'\<close> \<open>fileSize f = fileSize f'\<close> by simp
qed

definition plain_manifest :: "manifest \<Rightarrow> bool" where
  "plain_manifest m \<longleftrightarrow> distinct (map fst (ManifestFiles m)) \<and>
     (\<forall>(n, f) \<in> set (ManifestFiles m). plain_text n \<and> plain_text (fileMD5 f))"

lemma set_listed_under: "set (listed_under m pre) = {n \<in> fst ` set (ManifestFiles m). prefix pre n}"
  by (auto simp: listed_under_def)

lemma manifest_entry_in: "n \<in> set (listed_under m pre) \<Longrightarrow> (n, manifest_entry m n) \<in> set (ManifestFiles m)"
proof -
  assume "n \<in> set (listed_under m pre)"
  then obtain f where "map_of (ManifestFiles m) n = Some f"
    by (cases "map_of (ManifestFiles m) n") (auto simp: set_listed_under map_of_eq_None_iff)
  then show ?thesis using map_of_SomeD by (fastforce simp: manifest_entry_def)
qed

lemma fingerprint_line_not_Nil: "fingerprint_line n f \<noteq> []"
  by (simp add: fingerprint_line_def)

lemma lines_inject:
  assumes "\<forall>n \<in> set ns. plain_text n \<and> plain_text (fileMD5 (f n))" "\<forall>n \<in> set ns'. plain_text n \<and> plain_text (fileMD5 (f' n))"
    and "concat (map (\<lambda>n. fingerprint_line n (f n)) ns) = concat (map (\<lambda>n. fingerprint_line n (f' n)) ns')"
  shows "ns = ns' \<and> (\<forall>n \<in> set ns. f n = f' n)"
  using assms
proof (induction ns arbitrary: ns')
  case Nil
  then show ?case by (cases ns') (simp_all add: fingerprint_line_not_Nil)
next
  case (Cons n ns)
  from Cons.prems(3) obtain n' rest where ns': "ns' = n' # rest"
    by (cases ns') (simp_all add: fingerprint_line_not_Nil)
  have "n = n' \<and> f n = f' n' \<and> concat (map (\<lambda>n. fingerprint_line n (f n)) ns) = concat (map (\<lambda>n. fingerprint_line n (f' n)) rest)"
    using Cons.prems unfolding ns' by (intro fingerprint_line_inject) simp_all
  moreover have "ns = rest \<and> (\<forall>n \<in> set ns. f n = f' n)"
    using Cons.prems calculation unfolding ns' by (intro Cons.IH) simp_all
  ultimately show ?case unfolding ns' by auto
qed

lemma fingerprint_text_inject:
  assumes "plain_manifest m" "plain_manifest n" "fingerprint_text m pre = fingerprint_text n pre'"
  shows "listed_under m pre = listed_under n pre' \<and> (\<forall>name \<in> set (listed_under m pre). manifest_entry m name = manifest_entry n name)"
proof -
  have plain: "\<forall>name \<in> set (listed_under k p). plain_text name \<and> plain_text (fileMD5 (manifest_entry k name))"
    if "plain_manifest k" for k p
    using that manifest_entry_in [of _ k p] by (fastforce simp: plain_manifest_def)
  show ?thesis
    by (rule lines_inject [OF plain [OF assms(1)] plain [OF assms(2)] assms(3) [unfolded fingerprint_text_def]])
qed

section \<open>The same files\<close>

text \<open>What the checks of a directory's files establish.\<close>

definition dir_checked :: "'x digests_scheme \<Rightarrow> export_dir \<Rightarrow> manifest \<Rightarrow> string \<Rightarrow> bool" where
  "dir_checked D X m dir \<longleftrightarrow>
     (\<forall>name \<in> set (listed_under m (dir @ ''/'')). \<exists>bs. map_of (exEntries X) name = Some (Content bs) \<and>
        of_nat (length bs) = fileSize (manifest_entry m name) \<and> md5_base64 D bs = fileMD5 (manifest_entry m name)) \<and>
     (\<forall>name \<in> set (glob_parquet X (dir @ ''/'') 0). name \<in> fst ` set (ManifestFiles m))"

lemma verify_listed_None:
  "verify_listed D X m names = None \<longleftrightarrow>
     (\<forall>name \<in> set names. \<exists>bs. map_of (exEntries X) name = Some (Content bs) \<and>
        of_nat (length bs) = fileSize (manifest_entry m name) \<and> md5_base64 D bs = fileMD5 (manifest_entry m name))"
  by (induction names) (auto simp: Let_def fileSizeAndMD5_def split: option.splits entry.splits)

lemma verify_unlisted_None: "verify_unlisted m names = None \<longleftrightarrow> set names \<subseteq> fst ` set (ManifestFiles m)"
  by (induction names) (auto simp: map_of_eq_None_iff)

lemma verifyFilesUnder_None:
  "verifyFilesUnder D X m pre = None \<longleftrightarrow> listed_under m pre \<noteq> [] \<and> verify_listed D X m (listed_under m pre) = None \<and>
     (\<forall>k < 3. set (glob_parquet X pre k) \<subseteq> fst ` set (ManifestFiles m))"
proof -
  have "(\<forall>k < 3. P k) \<longleftrightarrow> P 0 \<and> P 1 \<and> P (2 :: nat)" for P
    by (auto simp: less_Suc_eq numeral_3_eq_3 numeral_2_eq_2)
  then show ?thesis
    by (auto simp: verifyFilesUnder_def Let_def verify_unlisted_None split: option.splits)
qed

lemma verifyFilesUnder_checked: "verifyFilesUnder D X m (dir @ ''/'') = None \<Longrightarrow> dir_checked D X m dir"
  unfolding verifyFilesUnder_None dir_checked_def verify_listed_None
  by (intro conjI) (blast, use zero_less_numeral in blast)

lemma path_components_length: "length (path_components s) = Suc (count_list s CHR ''/'')"
  by (induction s) (auto split: list.splits)

lemma in_glob_parquet:
  "n \<in> set (glob_parquet X pre k) \<longleftrightarrow> n \<in> fst ` set (exEntries X) \<and> prefix pre n \<and>
     count_list (drop (length pre) n) CHR ''/'' = k \<and> suffix ''.parquet'' (drop (length pre) n)"
  by (auto simp: glob_parquet_def path_components_length)

lemma verifyFiles_checked:
  assumes "verifyFiles D X m = None" "count_list dir CHR ''/'' < 2"
  shows "dir_checked D X m dir"
proof -
  have v: "verify_listed D X m (listed_under m '''') = None" "\<forall>k < 3. set (glob_parquet X '''' k) \<subseteq> fst ` set (ManifestFiles m)"
    using assms(1) by (auto simp: verifyFiles_def verifyFilesUnder_None)
  have "name \<in> set (glob_parquet X '''' (Suc (count_list dir CHR ''/'')))" if n: "name \<in> set (glob_parquet X (dir @ ''/'') 0)" for name
  proof -
    obtain rest where rest: "name = dir @ ''/'' @ rest" using n by (auto simp: in_glob_parquet prefix_def)
    then show ?thesis using n by (auto simp: in_glob_parquet suffix_def)
  qed
  moreover have "Suc (count_list dir CHR ''/'') < 3" using assms(2) by simp
  ultimately have "\<forall>name \<in> set (glob_parquet X (dir @ ''/'') 0). name \<in> fst ` set (ManifestFiles m)"
    using v(2) by blast
  moreover have "set (listed_under m (dir @ ''/'')) \<subseteq> set (listed_under m '''')" by (auto simp: set_listed_under)
  ultimately show ?thesis using v(1) by (auto simp: dir_checked_def verify_listed_None)
qed

lemma glob_listed:
  assumes "dir_checked D X m dir"
  shows "set (glob_parquet X (dir @ ''/'') 0) =
    {n \<in> set (listed_under m (dir @ ''/'')). count_list (drop (length (dir @ ''/'')) n) CHR ''/'' = 0 \<and>
       suffix ''.parquet'' (drop (length (dir @ ''/'')) n)}" (is "?G = ?L")
proof -
  define pre where "pre = dir @ ''/''"
  have "n \<in> fst ` set (exEntries X)" if "n \<in> set (listed_under m pre)" for n
  proof (rule ccontr)
    assume "n \<notin> fst ` set (exEntries X)"
    then have "map_of (exEntries X) n = None" by (simp add: map_of_eq_None_iff)
    then show False using assms that unfolding dir_checked_def pre_def [symmetric] by fastforce
  qed
  then have c: "\<forall>n \<in> set (listed_under m pre). n \<in> fst ` set (exEntries X)"
      "\<forall>n \<in> set (glob_parquet X pre 0). n \<in> fst ` set (ManifestFiles m)"
    using assms unfolding dir_checked_def pre_def [symmetric] by blast+
  have "n \<in> set (glob_parquet X pre 0) \<longleftrightarrow> n \<in> set (listed_under m pre) \<and> count_list (drop (length pre) n) CHR ''/'' = 0 \<and>
      suffix ''.parquet'' (drop (length pre) n)" for n
  proof
    assume n: "n \<in> set (glob_parquet X pre 0)"
    with c(2) have "n \<in> fst ` set (ManifestFiles m)" by blast
    with n show "n \<in> set (listed_under m pre) \<and> count_list (drop (length pre) n) CHR ''/'' = 0 \<and>
        suffix ''.parquet'' (drop (length pre) n)"
      unfolding in_glob_parquet set_listed_under by blast
  next
    assume n: "n \<in> set (listed_under m pre) \<and> count_list (drop (length pre) n) CHR ''/'' = 0 \<and>
        suffix ''.parquet'' (drop (length pre) n)"
    with c(1) have "n \<in> fst ` set (exEntries X)" by blast
    with n show "n \<in> set (glob_parquet X pre 0)" unfolding in_glob_parquet set_listed_under by blast
  qed
  then show ?thesis unfolding pre_def by blast
qed

lemma distinct_glob: "distinct (map fst (exEntries X)) \<Longrightarrow> distinct (glob_parquet X pre k)"
  by (simp add: glob_parquet_def)

lemma parquetFiles_Inr:
  "parquetFiles X dir = Inr files \<longleftrightarrow> glob_parquet X (dir @ ''/'') 0 \<noteq> [] \<and> files = sort (glob_parquet X (dir @ ''/'') 0)"
  by (auto simp: parquetFiles_def Let_def)

text \<open>
  The digests do not collide on the exports at hand, and a fingerprint is never empty (SHA-256
  prints 64 digits): what the code relies on.
\<close>

definition no_collisions :: "'x digests_scheme \<Rightarrow> export_dir set \<Rightarrow> bool" where
  "no_collisions D Xs \<longleftrightarrow> (\<forall>s. sha256_hex D s \<noteq> '''') \<and>
     (\<forall>X \<in> Xs. \<forall>Y \<in> Xs. \<forall>m n pre. readManifest X = Inr m \<longrightarrow> readManifest Y = Inr n \<longrightarrow>
        unitFingerprint D m pre = unitFingerprint D n pre \<longrightarrow> fingerprint_text m pre = fingerprint_text n pre) \<and>
     (\<forall>X \<in> Xs. \<forall>Y \<in> Xs. \<forall>name bs bs'. map_of (exEntries X) name = Some (Content bs) \<longrightarrow>
        map_of (exEntries Y) name = Some (Content bs') \<longrightarrow> md5_base64 D bs = md5_base64 D bs' \<longrightarrow> bs = bs')"

text \<open>The paths of an export are distinct, and its manifest's texts are plain.\<close>

definition plain_exports :: "export_dir set \<Rightarrow> bool" where
  "plain_exports Xs \<longleftrightarrow> (\<forall>X \<in> Xs. distinct (map fst (exEntries X)) \<and> (\<forall>m. readManifest X = Inr m \<longrightarrow> plain_manifest m))"

lemma same_directory:
  assumes d: "no_collisions D Xs" "plain_exports Xs" "X \<in> Xs" "Y \<in> Xs" "readManifest X = Inr m" "readManifest Y = Inr n"
    and c: "dir_checked D X m dir" "dir_checked D Y n dir"
    and fp: "unitFingerprint D m (dir @ ''/'') = unitFingerprint D n (dir @ ''/'')"
  shows "parquetFiles X dir = Inr files \<longleftrightarrow> parquetFiles Y dir = Inr files"
    and "name \<in> set (glob_parquet X (dir @ ''/'') 0) \<Longrightarrow> map_of (exEntries X) name = map_of (exEntries Y) name"
proof -
  have "fingerprint_text m (dir @ ''/'') = fingerprint_text n (dir @ ''/'')"
    using d fp unfolding no_collisions_def by blast
  then have same: "listed_under m (dir @ ''/'') = listed_under n (dir @ ''/'')"
      "\<And>name. name \<in> set (listed_under m (dir @ ''/'')) \<Longrightarrow> manifest_entry m name = manifest_entry n name"
    using fingerprint_text_inject [of m n] d by (auto simp: plain_exports_def)
  have sets: "set (glob_parquet X (dir @ ''/'') 0) = set (glob_parquet Y (dir @ ''/'') 0)"
    unfolding glob_listed [OF c(1)] glob_listed [OF c(2)] same(1) ..
  have "distinct (glob_parquet X (dir @ ''/'') 0)" "distinct (glob_parquet Y (dir @ ''/'') 0)"
    using d by (simp_all add: plain_exports_def distinct_glob)
  then have "sort (glob_parquet X (dir @ ''/'') 0) = sort (glob_parquet Y (dir @ ''/'') 0)"
    using sets by (intro sorted_distinct_set_unique) simp_all
  moreover have "glob_parquet X (dir @ ''/'') 0 = [] \<longleftrightarrow> glob_parquet Y (dir @ ''/'') 0 = []"
    using sets by (metis set_empty)
  ultimately show "parquetFiles X dir = Inr files \<longleftrightarrow> parquetFiles Y dir = Inr files"
    by (simp add: parquetFiles_Inr)
  assume "name \<in> set (glob_parquet X (dir @ ''/'') 0)"
  then have name: "name \<in> set (listed_under m (dir @ ''/''))" using glob_listed [OF c(1)] by blast
  obtain bs where bs: "map_of (exEntries X) name = Some (Content bs)" "md5_base64 D bs = fileMD5 (manifest_entry m name)"
    using c(1) name by (auto simp: dir_checked_def)
  obtain bs' where bs': "map_of (exEntries Y) name = Some (Content bs')" "md5_base64 D bs' = fileMD5 (manifest_entry n name)"
    using c(2) name same(1) by (auto simp: dir_checked_def)
  have "md5_base64 D bs = md5_base64 D bs'" using bs(2) bs'(2) same(2) [OF name] by simp
  then have "bs = bs'" using d bs(1) bs'(1) unfolding no_collisions_def by blast
  then show "map_of (exEntries X) name = map_of (exEntries Y) name" using bs(1) bs'(1) by simp
qed

lemma join_rows_cong: "(\<And>x. x \<in> set xs \<Longrightarrow> f x = g x) \<Longrightarrow> join_rows f xs = join_rows g xs"
  by (induction xs) (auto split: option.splits)

lemma file_rows_cong:
  "map_of (exEntries X) name = map_of (exEntries Y) name \<Longrightarrow> map_of (exEntries X) name \<noteq> None \<Longrightarrow>
    file_rows V X row mapRow keep name = file_rows V Y row mapRow keep name"
  by (simp add: file_rows_def open_file_def split: option.splits)

text \<open>So the same fingerprint means the same rows.\<close>

lemma same_unit_rows:
  assumes "no_collisions V Xs" "plain_exports Xs" "X \<in> Xs" "Y \<in> Xs" "readManifest X = Inr m" "readManifest Y = Inr n"
    and "dir_checked V X m dir" "dir_checked V Y n dir"
    and "unitFingerprint V m (dir @ ''/'') = unitFingerprint V n (dir @ ''/'')"
  shows "(case parquetFiles X dir of Inl e \<Rightarrow> None | Inr files \<Rightarrow> join_rows (file_rows V X row mapRow keep) files) =
    (case parquetFiles Y dir of Inl e \<Rightarrow> None | Inr files \<Rightarrow> join_rows (file_rows V Y row mapRow keep) files)"
proof (cases "parquetFiles X dir")
  case (Inl e)
  then have "parquetFiles Y dir \<noteq> Inr files" for files using same_directory(1) [OF assms] by simp
  then show ?thesis using Inl by (cases "parquetFiles Y dir") auto
next
  case (Inr files)
  then have "parquetFiles Y dir = Inr files" using same_directory(1) [OF assms] by simp
  moreover have "join_rows (file_rows V X row mapRow keep) files = join_rows (file_rows V Y row mapRow keep) files"
  proof (rule join_rows_cong)
    fix name assume "name \<in> set files"
    then have name: "name \<in> set (glob_parquet X (dir @ ''/'') 0)" using Inr by (simp add: parquetFiles_Inr)
    moreover from this have "map_of (exEntries X) name \<noteq> None"
      by (auto simp: in_glob_parquet map_of_eq_None_iff)
    ultimately show "file_rows V X row mapRow keep name = file_rows V Y row mapRow keep name"
      using same_directory(2) [OF assms] by (intro file_rows_cong)
  qed
  ultimately show ?thesis using Inr by simp
qed

end
