(* ===== verification/BackfillFacts.thy ===== *)
theory BackfillFacts
  imports Backfill Fingerprint ApiErrors
begin

text \<open>
  What a published backfill is: the rows of the export that finish verified, all of them and
  nothing else, whatever stages of whatever exports ran and failed before. \<open>sound\<close> is the invariant
  that carries it: a unit recorded with an export's fingerprint holds that export's rows.
\<close>

section \<open>Units\<close>

lemma recorded_unit_record:
  "recorded (unit_record unit fp n t) unit' = (if unit' = unit then fp else recorded t unit')"
proof -
  have "map_of (filter (\<lambda>u. fst u \<noteq> unit) us) unit' = (if unit' = unit then None else map_of us unit')"
    for us :: "(string \<times> string \<times> int) list"
    by (induction us) auto
  then show ?thesis by (simp add: recorded_def unit_record_def)
qed

lemma manifestPartDir_inject: "manifestPartDir p = manifestPartDir q \<longleftrightarrow> p = q"
  by (simp add: manifestPartDir_def PartitionNumber_def show_u64_def word_unat_eq_iff)

lemma manifestPartDir_not_blocks: "manifestPartDir p \<noteq> blocksUnit" "blocksUnit \<noteq> manifestPartDir p"
  by (simp_all add: manifestPartDir_def blocksUnit_def)

lemma manifestPartDir_slashes: "count_list (manifestPartDir p) CHR ''/'' < 2"
proof -
  have zeros: "count_list (replicate k CHR ''0'') CHR ''/'' = 0" for k by (induction k) auto
  have "CHR ''/'' \<notin> set (dec n)" for n using subsetD [OF set_dec, of "CHR ''/''" n] by auto
  then have "count_list (dec n) CHR ''/'' = 0" for n by (simp add: count_list_0_iff)
  then have "count_list (PartitionNumber p) CHR ''/'' = 0"
    by (simp add: PartitionNumber_def pad3_def show_u64_def zeros)
  then show ?thesis by (simp add: manifestPartDir_def)
qed

text \<open>The interval of a part lies within its million heights, so two parts share no height.\<close>

lemma unit_interval_bounds:
  assumes "part \<in> part_numbers m" "plausible (BlocksLast m)" "unitInterval m part = (lo, hi)"
    "BlocksFirst m \<le> BlocksLast m"
  shows "int (unat part * pblocks) \<le> int64 lo" "int64 hi < int (unat part * pblocks + pblocks)"
    "lo = max (part * PartitionBlocks) (BlocksFirst m)" "hi \<le> BlocksLast m" "fits_int64 hi"
    "hi = min (part * PartitionBlocks + PartitionBlocks - 1) (BlocksLast m)"
proof -
  have part: "part \<le> BlocksLast m div PartitionBlocks" using assms(1) by (simp add: part_numbers_def)
  note start = part_start [OF this]
  have b: "unat (BlocksLast m) < 2 ^ 62" using assms(2) by (simp add: plausible_nat)
  show lo: "lo = max (part * PartitionBlocks) (BlocksFirst m)"
    and hi: "hi = min (part * PartitionBlocks + PartitionBlocks - 1) (BlocksLast m)"
    using assms(3) by (auto simp: unitInterval_def)
  show "hi \<le> BlocksLast m" by (simp add: hi)
  then show fhi: "fits_int64 hi" using plausible_fits [OF assms(2)] fits_int64_mono by blast
  have "unat (part * PartitionBlocks + PartitionBlocks) = unat part * pblocks + pblocks"
    using start b by (subst unat_add_no_wrap) auto
  then have "unat (part * PartitionBlocks + PartitionBlocks - 1) = unat part * pblocks + pblocks - 1"
    by (subst unat_sub) (simp_all add: word_le_nat_alt)
  then have "unat hi \<le> unat part * pblocks + pblocks - 1"
    unfolding hi by (simp add: min_def word_le_nat_alt)
  then have "unat hi < unat part * pblocks + pblocks" by linarith
  then show "int64 hi < int (unat part * pblocks + pblocks)"
    unfolding int64_unat [OF fhi] by (simp only: of_nat_less_iff)
  have "part * PartitionBlocks \<le> BlocksLast m" using start by (simp add: word_le_nat_alt)
  then have flo: "fits_int64 lo"
    using assms(4) plausible_fits [OF assms(2)] fits_int64_mono [of lo "BlocksLast m"] by (auto simp: lo)
  have "unat part * pblocks \<le> unat lo" unfolding lo by (simp add: max_def word_le_nat_alt start)
  then show "int (unat part * pblocks) \<le> int64 lo" unfolding int64_unat [OF flo] by (simp only: of_nat_le_iff)
qed

lemma parts_disjoint:
  assumes "part \<in> part_numbers m" "plausible (BlocksLast m)" "BlocksFirst m \<le> BlocksLast m" "unitInterval m part = (lo, hi)"
    and "part' \<in> part_numbers n" "plausible (BlocksLast n)" "BlocksFirst n \<le> BlocksLast n" "unitInterval n part' = (lo', hi')"
    and "part \<noteq> part'" "int64 lo \<le> i" "i \<le> int64 hi" "int64 lo' \<le> i"
  shows "int64 hi' < i"
proof (rule ccontr)
  assume "\<not> int64 hi' < i"
  then have a: "int (unat part * pblocks) \<le> i" "i < int (unat part * pblocks + pblocks)"
    "int (unat part' * pblocks) \<le> i" "i < int (unat part' * pblocks + pblocks)"
    using unit_interval_bounds(1,2) [OF assms(1,2,4,3)] unit_interval_bounds(1,2) [OF assms(5,6,8,7)] assms(10-12) by linarith+
  then have "int (unat part) * int pblocks < int (unat part' + 1) * int pblocks"
    "int (unat part') * int pblocks < int (unat part + 1) * int pblocks"
    by (simp_all add: algebra_simps)
  then have "unat part < unat part' + 1" "unat part' < unat part + 1"
    by (simp_all only: mult_less_cancel_right of_nat_less_iff)
  then have "part = part'" by (simp add: word_unat_eq_iff)
  with assms(9) show False by simp
qed

text \<open>The parts tile the interval of the manifest.\<close>

lemma part_of_height:
  assumes "plausible (BlocksLast m)" "BlocksFirst m \<le> BlocksLast m"
    and "int64 (BlocksFirst m) \<le> i" "i \<le> int64 (BlocksLast m)"
  obtains part lo hi where "part \<in> part_numbers m" "unitInterval m part = (lo, hi)" "int64 lo \<le> i" "i \<le> int64 hi"
proof -
  let ?a = "BlocksFirst m" and ?b = "BlocksLast m" and ?n = "uint64 i"
  have fits: "fits_int64 ?b" "fits_int64 ?a" using plausible_fits [OF assms(1)] assms(2) fits_int64_mono by blast+
  have "0 \<le> i" using assms(3) int64_nonneg [OF fits(2)] by linarith
  moreover have "i < 2 ^ 63" using assms(4) fits(1) by (simp add: int64_unat fits_int64_nat del: of_nat_unat)
  ultimately have n: "int64 ?n = i" "fits_int64 ?n" by (simp_all add: int64_uint64 fits_uint64)
  have le: "?a \<le> ?n" "?n \<le> ?b" using assms(3,4) n fits by (simp_all flip: int64_le_iff)
  let ?part = "?n div PartitionBlocks"
  obtain lo hi where iv: "unitInterval m ?part = (lo, hi)" by fastforce
  have part: "?part \<in> part_numbers m"
    using le by (simp add: part_numbers_def word_le_nat_alt unat_bucket bucket_def div_le_mono)
  note bounds = unit_interval_bounds [OF part assms(1) iv assms(2)]
  have "?part * PartitionBlocks \<le> ?n"
    using bucket_bounds(1) [of ?n] by (simp add: word_le_nat_alt unat_bucket_start)
  then have "lo \<le> ?n" using le by (simp add: bounds(3))
  moreover have "?n \<le> hi"
  proof -
    have "unat (?part * PartitionBlocks + PartitionBlocks) = bucket ?n * pblocks + pblocks"
      using bucket_bounds(1) [of ?n] le(2) assms(1)
      by (subst unat_add_no_wrap) (auto simp: unat_bucket_start plausible_nat word_le_nat_alt)
    then have "unat (?part * PartitionBlocks + PartitionBlocks - 1) = bucket ?n * pblocks + pblocks - 1"
      by (subst unat_sub) (simp_all add: word_le_nat_alt)
    then have "?n \<le> ?part * PartitionBlocks + PartitionBlocks - 1"
      using bucket_bounds(2) [of ?n] by (simp add: word_le_nat_alt)
    then show ?thesis using le by (simp add: bounds(6))
  qed
  moreover have "fits_int64 lo" using calculation n(2) fits_int64_mono by blast
  ultimately have "int64 lo \<le> i" "i \<le> int64 hi"
    using n bounds(5) int64_le_iff [of lo ?n] int64_le_iff [of ?n hi] by simp_all
  with part iv show thesis by (rule that)
qed

text \<open>The block rows of an export lie within its interval: the others are not copied.\<close>

lemma rows_of_cells_in: "rows_of_cells f cs = Some rs \<Longrightarrow> k \<in> set rs \<Longrightarrow> \<exists>c \<in> set cs. f c = Some k"
  by (induction cs arbitrary: rs) (auto split: option.splits)

lemma join_rows_in: "join_rows f xs = Some rs \<Longrightarrow> k \<in> set rs \<Longrightarrow> \<exists>x \<in> set xs. \<exists>rs'. f x = Some rs' \<and> k \<in> set rs'"
  by (induction xs arbitrary: rs) (auto split: option.splits)

lemma block_rows_within:
  assumes "block_rows V X m = Some rows" "k \<in> set rows" "plausible (BlocksLast m)"
  shows "int64 (BlocksFirst m) \<le> b_number k \<and> b_number k \<le> int64 (BlocksLast m)"
proof -
  obtain name rs where "file_rows V X block_of_cells (blockRow V) (Some (inInterval V m)) name = Some rs" "k \<in> set rs"
    using assms(1,2) join_rows_in by (fastforce simp: block_rows_def split: sum.splits)
  then obtain c r where r: "inInterval V m c r" "block_of_cells (blockRow V c r) = Some k"
    using rows_of_cells_in by (fastforce simp: file_rows_def Let_def kept_by_def split: sum.splits)
  let ?n = "Int64Of V (value_at c r ''number'')"
  have "b_number k = int64 ?n"
    using r(2) by (auto simp: blockRow_def bytesOrNil_def split: if_splits)
  moreover have n: "BlocksFirst m \<le> ?n" "?n \<le> BlocksLast m" using r(1) by (simp_all add: inInterval_def Let_def)
  moreover have "fits_int64 (BlocksLast m)" "fits_int64 ?n" "fits_int64 (BlocksFirst m)"
    using plausible_fits [OF assms(3)] n fits_int64_mono order_trans by blast+
  ultimately show ?thesis by (simp add: int64_le_iff)
qed

section \<open>Recorded units hold their export's rows\<close>

definition part_holds :: "'v libraries \<Rightarrow> export_dir \<Rightarrow> manifest \<Rightarrow> tables \<Rightarrow> u64 \<Rightarrow> bool" where
  "part_holds V X m t part \<longleftrightarrow>
     (\<exists>rows. part_rows V X part = Some rows \<and>
        (case unitInterval m part of (lo, hi) \<Rightarrow> between_logs lo hi t = sort_key row_key rows))"

definition blocks_hold :: "'v libraries \<Rightarrow> export_dir \<Rightarrow> manifest \<Rightarrow> tables \<Rightarrow> bool" where
  "blocks_hold V X m t \<longleftrightarrow>
     (\<exists>rows. block_rows V X m = Some rows \<and> between_blocks (BlocksFirst m) (BlocksLast m) t = rows)"

definition sound :: "'v libraries \<Rightarrow> export_dir set \<Rightarrow> tables \<Rightarrow> bool" where
  "sound V Xs t \<longleftrightarrow> (\<forall>X \<in> Xs. \<forall>m. readManifest X = Inr m \<longrightarrow>
     (\<forall>part \<in> part_numbers m. dir_checked V X m (manifestPartDir part) \<longrightarrow>
        recorded t (manifestPartDir part) = part_fingerprint V m part \<longrightarrow> part_holds V X m t part) \<and>
     (dir_checked V X m ''blocks'' \<longrightarrow> recorded t blocksUnit = unitFingerprint V m ''blocks/'' \<longrightarrow> blocks_hold V X m t))"

lemma sound_fresh:
  assumes "no_collisions V Xs" "backfill_units t = []"
  shows "sound V Xs t"
proof -
  have "recorded t unit \<noteq> unitFingerprint V m pre" for unit m pre
    using assms by (simp add: recorded_def unitFingerprint_def no_collisions_def eq_commute [of "''''"])
  then show ?thesis by (simp add: sound_def part_fingerprint_def)
qed

lemma sound_same:
  assumes "sound V Xs t" "rows_kept t t'"
  shows "sound V Xs t'"
  using assms
  by (simp add: sound_def rows_kept_def recorded_def part_holds_def blocks_hold_def between_logs_def between_blocks_def)

lemma same_rows_kept: "same_rows t t' \<Longrightarrow> rows_kept t t'"
  by (simp add: same_rows_def rows_kept_def)

text \<open>The assumptions on a family of exports under which the invariant holds.\<close>

definition sound_family :: "'v libraries \<Rightarrow> export_dir set \<Rightarrow> u64 \<Rightarrow> u64 \<Rightarrow> bool" where
  "sound_family V Xs a b \<longleftrightarrow> export_family V Xs a b \<and> no_collisions V Xs \<and> plain_exports Xs"

lemma family_manifest:
  assumes "export_family V Xs a b" "X \<in> Xs" "readManifest X = Inr m"
  shows "BlocksFirst m = a" "BlocksLast m = b" "plausible (BlocksLast m)" "BlocksFirst m \<le> BlocksLast m"
    "unitInterval m = (\<lambda>part. (max (part * PartitionBlocks) a, min (part * PartitionBlocks + PartitionBlocks - 1) b))"
  using assms by (auto simp: export_family_def unitInterval_def fun_eq_iff)

lemma loaded_part_sound:
  assumes fam: "sound_family V Xs a b" and s: "sound V Xs t" and Y: "Y \<in> Xs" "readManifest Y = Inr n" "q \<in> part_numbers n"
    and load: "part_loaded V Y n q t t'"
  shows "sound V Xs t'"
  unfolding sound_def
proof (intro ballI allI impI conjI)
  have fams: "export_family V Xs a b" "no_collisions V Xs" "plain_exports Xs" using fam by (simp_all add: sound_family_def)
  obtain lo' hi' where iv': "unitInterval n q = (lo', hi')" by fastforce
  note keep = part_loaded_keeps [OF load]
  obtain rows where rows: "part_rows V Y q = Some rows"
    and checked: "verifyFilesUnder V Y n (manifestPartDir q @ ''/'') = None"
    and within: "\<forall>r \<in> set rows. int64 lo' \<le> r_block_number r \<and> r_block_number r \<le> int64 hi'"
    and logs: "eth_logs t' = eth_logs (delete_logs_between (int64 lo') (int64 hi') t) @ sort_key row_key rows"
    and rec: "t' = unit_record (manifestPartDir q) (part_fingerprint V n q) (length rows) (t\<lparr>eth_logs := eth_logs t'\<rparr>)"
    by (rule part_loaded_fields [OF load iv'])
  have recorded': "recorded t' unit = (if unit = manifestPartDir q then part_fingerprint V n q else recorded t unit)" for unit
  proof -
    have "recorded t' unit = recorded (unit_record (manifestPartDir q) (part_fingerprint V n q) (length rows) (t\<lparr>eth_logs := eth_logs t'\<rparr>)) unit"
      using rec by simp
    also have "\<dots> = (if unit = manifestPartDir q then part_fingerprint V n q else recorded (t\<lparr>eth_logs := eth_logs t'\<rparr>) unit)"
      by (rule recorded_unit_record)
    finally show ?thesis by (simp add: recorded_def)
  qed
  fix X m assume X: "X \<in> Xs" "readManifest X = Inr m"
  note mX = family_manifest [OF fams(1) X] and mY = family_manifest [OF fams(1) Y(1,2)]
  {
    assume "dir_checked V X m ''blocks''" "recorded t' blocksUnit = unitFingerprint V m ''blocks/''"
    then have "blocks_hold V X m t" using s X by (simp add: sound_def recorded' manifestPartDir_not_blocks)
    then show "blocks_hold V X m t'" using keep by (simp add: blocks_hold_def between_blocks_def)
  next
    fix part assume part: "part \<in> part_numbers m" and c: "dir_checked V X m (manifestPartDir part)"
      and r: "recorded t' (manifestPartDir part) = part_fingerprint V m part"
    obtain lo hi where iv: "unitInterval m part = (lo, hi)" by fastforce
    show "part_holds V X m t' part"
    proof (cases "part = q")
      case True
      have "part_rows V X q = part_rows V Y q"
        unfolding part_rows_def
        by (rule same_unit_rows [OF fams(2,3) X(1) Y(1) X(2) Y(2)])
          (use c r True verifyFilesUnder_checked [OF checked] in \<open>simp_all add: recorded' part_fingerprint_def\<close>)
      moreover have "lo = lo'" "hi = hi'" using iv iv' mX(5) mY(5) True by simp_all
      moreover have "between_logs lo' hi' t' = sort_key row_key rows"
        using within by (auto simp: between_logs_def logs delete_logs_between_def filter_empty_conv filter_id_conv)
      ultimately show ?thesis using rows iv True by (simp add: part_holds_def)
    next
      case False
      have "part_holds V X m t part"
        using s X part c r False by (simp add: sound_def recorded' manifestPartDir_inject)
      moreover have "between_logs lo hi t' = between_logs lo hi t"
      proof -
        have apart: "int64 hi' < i" if "int64 lo \<le> i" "i \<le> int64 hi" "int64 lo' \<le> i" for i
          using parts_disjoint [OF part mX(3,4) iv Y(3) mY(3,4) iv' False that] .
        have "filter (\<lambda>r. int64 lo \<le> r_block_number r \<and> r_block_number r \<le> int64 hi) (sort_key row_key rows) = []"
          using within apart by (fastforce simp: filter_empty_conv)
        moreover have "\<not> (int64 lo' \<le> i \<and> i \<le> int64 hi')" if "int64 lo \<le> i" "i \<le> int64 hi" for i
          using apart [OF that] by linarith
        then have "filter (\<lambda>r. int64 lo \<le> r_block_number r \<and> r_block_number r \<le> int64 hi) (eth_logs (delete_logs_between (int64 lo') (int64 hi') t)) =
            filter (\<lambda>r. int64 lo \<le> r_block_number r \<and> r_block_number r \<le> int64 hi) (eth_logs t)"
          by (auto simp: delete_logs_between_def intro: filter_cong)
        ultimately show ?thesis by (simp add: between_logs_def logs)
      qed
      ultimately show ?thesis by (simp add: part_holds_def iv)
    qed
  }
qed

lemma loaded_blocks_sound:
  assumes fam: "sound_family V Xs a b" and s: "sound V Xs t" and Y: "Y \<in> Xs" "readManifest Y = Inr n"
    and load: "blocks_loaded V Y n t t'"
  shows "sound V Xs t'"
  unfolding sound_def
proof (intro ballI allI impI conjI)
  have fams: "export_family V Xs a b" "no_collisions V Xs" "plain_exports Xs" using fam by (simp_all add: sound_family_def)
  note keep = blocks_loaded_keeps [OF load]
  obtain rows where rows: "block_rows V Y n = Some rows"
    and checked: "verifyFilesUnder V Y n ''blocks/'' = None"
    and blocks: "eth_blocks t' = eth_blocks (delete_blocks_between (int64 (BlocksFirst n)) (int64 (BlocksLast n)) t) @ rows"
    and rec: "t' = unit_record blocksUnit (unitFingerprint V n ''blocks/'') (length rows) (t\<lparr>eth_blocks := eth_blocks t'\<rparr>)"
    by (rule blocks_loaded_fields [OF load])
  have recorded': "recorded t' unit = (if unit = blocksUnit then unitFingerprint V n ''blocks/'' else recorded t unit)" for unit
  proof -
    have "recorded t' unit = recorded (unit_record blocksUnit (unitFingerprint V n ''blocks/'') (length rows) (t\<lparr>eth_blocks := eth_blocks t'\<rparr>)) unit"
      using rec by simp
    also have "\<dots> = (if unit = blocksUnit then unitFingerprint V n ''blocks/'' else recorded (t\<lparr>eth_blocks := eth_blocks t'\<rparr>) unit)"
      by (rule recorded_unit_record)
    finally show ?thesis by (simp add: recorded_def)
  qed
  fix X m assume X: "X \<in> Xs" "readManifest X = Inr m"
  note mX = family_manifest [OF fams(1) X] and mY = family_manifest [OF fams(1) Y]
  {
    fix part assume "part \<in> part_numbers m" "dir_checked V X m (manifestPartDir part)"
      "recorded t' (manifestPartDir part) = part_fingerprint V m part"
    then have "part_holds V X m t part" using s X by (simp add: sound_def recorded' manifestPartDir_not_blocks)
    then show "part_holds V X m t' part" using keep by (simp add: part_holds_def between_logs_def)
  next
    assume c: "dir_checked V X m ''blocks''" and r: "recorded t' blocksUnit = unitFingerprint V m ''blocks/''"
    have "inInterval V m = inInterval V n" using mX(1,2) mY(1,2) by (simp add: inInterval_def fun_eq_iff)
    then have "block_rows V X m = block_rows V Y n"
      unfolding block_rows_def
      by (simp only:) (rule same_unit_rows [OF fams(2,3) X(1) Y(1) X(2) Y(2)];
        use c r verifyFilesUnder_checked [of V Y n "''blocks''"] checked in \<open>simp add: recorded'\<close>)
    moreover have "between_blocks (BlocksFirst n) (BlocksLast n) t' = rows"
      using block_rows_within [OF rows _ mY(3)]
      by (auto simp: between_blocks_def blocks delete_blocks_between_def filter_empty_conv filter_id_conv)
    ultimately show "blocks_hold V X m t'" using rows mX(1,2) mY(1,2) by (simp add: blocks_hold_def)
  }
qed

lemma step_sound:
  assumes fam: "sound_family V Xs a b" and s: "sound V Xs t" and step: "backfill_step V Xs t t'"
  shows "sound V Xs t'"
  using step
proof cases
  case (PartLoaded X m part)
  then show ?thesis using loaded_part_sound [OF fam s] by blast
next
  case (BlocksLoaded X m)
  then show ?thesis using loaded_blocks_sound [OF fam s] by blast
next
  case (Flagged why)
  then show ?thesis using sound_same [OF s same_rows_kept [OF same_rows_steps(1)]] by simp
next
  case (Partitioned X m part)
  show ?thesis by (rule sound_same [OF s same_rows_kept [OF same_rows_steps(3) [OF Partitioned(4)]]])
next
  case (Dropped name)
  then show ?thesis using sound_same [OF s same_rows_kept [OF same_rows_steps(2)]] by simp
next
  case (Indexed name)
  show ?thesis by (rule sound_same [OF s same_rows_kept [OF same_rows_steps(4) [OF Indexed]]])
next
  case (Published X m)
  show ?thesis by (rule sound_same [OF s published_publishes(2) [OF Published(4)]])
next
  case (Cleared X m)
  then show ?thesis using sound_same [OF s same_rows_kept [OF same_rows_steps(1)]] by simp
qed

lemma moves_sound:
  assumes "sound_family V Xs a b" "sound V Xs t"
  shows "moves V Xs t t' \<Longrightarrow> sound V Xs t'"
  by (induction rule: rtranclp_induct) (use assms step_sound in blast)+

section \<open>Readers\<close>

text \<open>\<open>eth_getLogs\<close> answers only from published tables without the maintenance flag.\<close>

lemma triple_any: "H \<Longrightarrow> triple P m (\<lambda>_ _. H) (\<lambda>_ _. True)"
  by (simp add: triple_def split: sum.splits)

lemma GetLogs_visible:
  assumes "GetLogs kc tags cfg crit s = (Inr logs, t)"
  shows "visible (tab s)"
proof -
  obtain u where run: "Read (get_logs_body kc tags cfg crit) s = (Inr logs, u)"
    using assms by (auto simp: GetLogs_def onErr_def throw_def split: if_splits option.splits prod.splits sum.splits)
  obtain s1 v where s1: "exec (\<lambda>t. Inr ((), t)) s = (Inr (), s1)" and body: "read_body (get_logs_body kc tags cfg crit) s1 = (Inr logs, v)"
    using run by (auto simp: Read_def commit_def Let_def split: prod.splits sum.splits option.splits fault.splits)
  then have tab: "tab s1 = tab s" by (auto simp: exec_def Let_def split: option.splits fault.splits)
  let ?t0 = "tab s"
  have adm: "triple (\<lambda>s. tab s = ?t0) admitted (\<lambda>_ s. tab s = ?t0) (\<lambda>_ _. True)"
    unfolding admitted_def by (intro triple_andThen [OF query_triple] triple_gets) auto
  have cov: "triple (\<lambda>s. tab s = ?t0) (get_logs_body kc tags cfg crit) (\<lambda>_ _. coverage_of ?t0 \<noteq> None) (\<lambda>_ _. True)"
    unfolding get_logs_body_def
    by (intro triple_andThen [OF readCoverage_triple] triple_given triple_case_option triple_throw triple_any) auto
  have "triple (\<lambda>s. tab s = ?t0) (read_body (get_logs_body kc tags cfg crit)) (\<lambda>_ _. visible ?t0) (\<lambda>_ _. True)"
    unfolding read_body_def
    by (intro triple_andThen [OF adm] triple_if triple_throw triple_andThen [OF query_triple] triple_given triple_conseq [OF cov])
      (auto simp: visible_def)
  from triple_value [OF this tab body] show ?thesis .
qed

section \<open>Properties\<close>

lemma finish_facts:
  assumes fam: "export_family V Xs a b" and jobs: "\<forall>(ctx, X, st) \<in> set jobs. X \<in> Xs" and X: "X \<in> Xs"
    and run: "Finish (V\<lparr>LoadCtxErr := ctx\<rparr>) X (run_jobs V jobs s) = (Inr (), t)"
  obtains m where "readManifest X = Inr m" "moves V Xs (tab s) (tab t)" "export_verified V X m (tab t)"
    "publishes m (tab t)" "\<not> maintenance (tab t)"
proof (cases "readManifest X")
  case (Inl e)
  then show thesis using run by (simp add: Finish_def preflightCoverage_def andThen_def lift_def throw_def)
next
  case (Inr m)
  let ?V = "V\<lparr>LoadCtxErr := ctx\<rparr>"
  have "verified_at ?V Xs X m (tab (run_jobs V jobs s)) (tab t) \<and> \<not> maintenance (tab t)"
    using triple_value [OF finish_triple [OF X Inr, where V = ?V] refl run] .
  then have v: "moves V Xs (tab (run_jobs V jobs s)) (tab t)" "export_verified V X m (tab t)" "publishes m (tab t)" "\<not> maintenance (tab t)"
    using no_context_moves [where V = V] by (auto simp: verified_at_def no_context_verified)
  show thesis
    by (rule that [OF Inr rtranclp_trans [OF run_jobs_moves [OF jobs] v(1)] v(2-4)])
qed

lemma verified_holds:
  assumes "sound V Xs t" "X \<in> Xs" "readManifest X = Inr m" "export_verified V X m t"
  shows "blocks_hold V X m t" "\<forall>part \<in> part_numbers m. part_holds V X m t part"
proof -
  have files: "verifyFiles V X m = None" using assms(4) by (simp add: export_verified_def)
  have "dir_checked V X m ''blocks''" by (rule verifyFiles_checked [OF files]) simp
  then show "blocks_hold V X m t"
    using assms by (simp add: sound_def export_verified_def)
  have "dir_checked V X m (manifestPartDir part)" for part
    by (rule verifyFiles_checked [OF files manifestPartDir_slashes])
  then show "\<forall>part \<in> part_numbers m. part_holds V X m t part"
    using assms by (simp add: sound_def export_verified_def part_verified_def)
qed

definition export_logs :: "'v libraries \<Rightarrow> export_dir \<Rightarrow> manifest \<Rightarrow> log_row set" where
  "export_logs V X m = (\<Union>part \<in> part_numbers m. case part_rows V X part of None \<Rightarrow> {} | Some rows \<Rightarrow> set rows)"

lemma parts_hold_all:
  assumes "\<forall>part \<in> part_numbers m. part_holds V X m t part" "plausible (BlocksLast m)" "BlocksFirst m \<le> BlocksLast m"
  shows "set (between_logs (BlocksFirst m) (BlocksLast m) t) = export_logs V X m"
proof
  have fits: "fits_int64 (BlocksLast m)" "fits_int64 (BlocksFirst m)"
    using plausible_fits [OF assms(2)] assms(3) fits_int64_mono by blast+
  show "set (between_logs (BlocksFirst m) (BlocksLast m) t) \<subseteq> export_logs V X m"
  proof
    fix r assume r: "r \<in> set (between_logs (BlocksFirst m) (BlocksLast m) t)"
    then obtain part lo hi where part: "part \<in> part_numbers m" "unitInterval m part = (lo, hi)"
        "int64 lo \<le> r_block_number r" "r_block_number r \<le> int64 hi"
      using part_of_height [OF assms(2,3), of "r_block_number r"] by (auto simp: between_logs_def)
    with r have "r \<in> set (between_logs lo hi t)" by (auto simp: between_logs_def)
    then show "r \<in> export_logs V X m"
      using assms(1) part by (force simp: part_holds_def export_logs_def)
  qed
  show "export_logs V X m \<subseteq> set (between_logs (BlocksFirst m) (BlocksLast m) t)"
  proof
    fix r assume "r \<in> export_logs V X m"
    then obtain part rows where part: "part \<in> part_numbers m" "part_rows V X part = Some rows" "r \<in> set rows"
      by (auto simp: export_logs_def split: option.splits)
    obtain lo hi where iv: "unitInterval m part = (lo, hi)" by fastforce
    have "r \<in> set (between_logs lo hi t)" using assms(1) part iv by (auto simp: part_holds_def)
    moreover note bounds = unit_interval_bounds [OF part(1) assms(2) iv assms(3)]
    moreover have "int64 (BlocksFirst m) \<le> int64 lo \<or> int64 hi < int64 lo"
    proof (cases "lo \<le> hi")
      case True
      then have "fits_int64 lo" using bounds(5) fits_int64_mono by blast
      then show ?thesis using fits bounds(3) by (simp add: int64_le_iff)
    next
      case False
      have "part * PartitionBlocks \<le> BlocksLast m"
        using part_start [of part "BlocksLast m"] part(1) by (simp add: part_numbers_def word_le_nat_alt)
      then have "fits_int64 lo" using bounds(3) assms(3) fits fits_int64_mono by (auto simp: max_def)
      then show ?thesis using False bounds(5) by (simp add: int64_less_iff not_le)
    qed
    moreover have "int64 hi \<le> int64 (BlocksLast m)" using bounds(4,5) fits by (simp add: int64_le_iff)
    ultimately show "r \<in> set (between_logs (BlocksFirst m) (BlocksLast m) t)" by (auto simp: between_logs_def)
  qed
qed

text \<open>
  C6. A published backfill is the export: after any stages run from any exports of the family, each
  ending anywhere, a finish that succeeds leaves, over the manifest's interval, exactly the block
  rows and exactly the logs of the export it verified, published and with the maintenance flag
  off. Rows of an earlier, different export of the same size cannot survive: the recorded
  fingerprints tell them apart.
\<close>

theorem backfill_publishes_export:
  assumes "sound_family V Xs a b" "\<forall>(ctx, X, st) \<in> set jobs. X \<in> Xs" "X \<in> Xs"
    and "sound V Xs (tab s)"
    and "Finish (V\<lparr>LoadCtxErr := ctx\<rparr>) X (run_jobs V jobs s) = (Inr (), t)"
  shows "\<exists>m. readManifest X = Inr m \<and> publishes m (tab t) \<and> \<not> maintenance (tab t) \<and>
    block_rows V X m = Some (between_blocks (BlocksFirst m) (BlocksLast m) (tab t)) \<and>
    set (between_logs (BlocksFirst m) (BlocksLast m) (tab t)) = export_logs V X m"
proof -
  have fam: "export_family V Xs a b" using assms(1) by (simp add: sound_family_def)
  obtain m where m: "readManifest X = Inr m" "moves V Xs (tab s) (tab t)" "export_verified V X m (tab t)"
      "publishes m (tab t)" "\<not> maintenance (tab t)"
    by (rule finish_facts [OF fam assms(2,3,5)])
  note holds = verified_holds [OF moves_sound [OF assms(1,4) m(2)] assms(3) m(1,3)]
  show ?thesis
    using m holds(1) parts_hold_all [OF holds(2) family_manifest(3,4) [OF fam assms(3) m(1)]]
    by (auto simp: blocks_hold_def)
qed

text \<open>
  C18. The warehouse is whole again: from tables in order, whatever stages ran and failed, a finish
  that succeeds leaves tables in order, every height of the published coverage with its block row.
\<close>

theorem backfill_restores_warehouse_ok:
  assumes "export_family V Xs a b" "\<forall>(ctx, X, st) \<in> set jobs. X \<in> Xs" "X \<in> Xs"
    and "warehouse_ok (tab s)"
    and "Finish (V\<lparr>LoadCtxErr := ctx\<rparr>) X (run_jobs V jobs s) = (Inr (), t)"
  shows "warehouse_ok (tab t)"
proof -
  obtain m where m: "readManifest X = Inr m" "moves V Xs (tab s) (tab t)" "export_verified V X m (tab t)"
    by (rule finish_facts [OF assms(1-3,5)])
  have r: "repairable a b (tab t)" by (rule moves_repairable [OF assms(1) warehouse_ok_repairable [OF assms(4)] m(2)])
  have "covered (tab t) (int64 a) (int64 b)"
    using verified_covered [OF m(1,3)] r family_manifest [OF assms(1,3) m(1)] by (simp add: repairable_def)
  with r show ?thesis by (rule repairable_warehouse_ok)
qed

text \<open>
  C7. A backfill never exposes a half-loaded warehouse: however its stages end, when
  \<open>eth_getLogs\<close> answers from the tables they left, either no block row and no log has changed since a moment it
  answered before them, or the tables have been verified against the manifest of an export and its
  interval is published.
\<close>

theorem backfill_never_exposes:
  assumes "\<forall>(ctx, X, st) \<in> set jobs. X \<in> Xs"
    and "tab d = tab (run_jobs V jobs s)" "GetLogs kc tags cfg crit d = (Inr logs, d')"
  shows "visible (tab s) \<and> eth_logs (tab d) = eth_logs (tab s) \<and> eth_blocks (tab d) = eth_blocks (tab s) \<or>
    verified_export V Xs (tab d)"
  using moves_safely_visible [OF run_jobs_moves [OF assms(1), of V s]] GetLogs_visible [OF assms(3)] assms(2)
  by (simp add: safely_visible_def)

text \<open>
  C20. Finish publishes only what it has verified, and touches no row: on success the tables hold the
  manifest's blocks and every part's logs by count and by fingerprint, the local files match, and
  the flag is off; on any error, at any point, every row is where it was.
\<close>

theorem Finish_publishes_verified:
  "case Finish V X s of
     (Inr _, t) \<Rightarrow> (\<exists>m. readManifest X = Inr m \<and> export_verified V X m (tab t) \<and> publishes m (tab t)) \<and>
       \<not> maintenance (tab t) \<and> rows_kept (tab s) (tab t)
   | (Inl _, t) \<Rightarrow> rows_kept (tab s) (tab t)"
proof (cases "readManifest X")
  case (Inl e)
  then show ?thesis by (simp add: Finish_def preflightCoverage_def andThen_def lift_def throw_def rows_kept_def)
next
  case (Inr m)
  obtain r t where run: "Finish V X s = (r, t)" by fastforce
  show ?thesis
  proof (cases r)
    case (Inl e)
    then show ?thesis
      using run triple_error [OF finish_triple [where Xs = "{X}" and V = V, OF _ Inr] refl] by auto
  next
    case (Inr x)
    then show ?thesis
      using run triple_value [OF finish_triple [where Xs = "{X}" and V = V, OF _ \<open>readManifest X = Inr m\<close>] refl]
        \<open>readManifest X = Inr m\<close> by (fastforce simp: verified_at_def)
  qed
qed

text \<open>
  C19. \<open>loadPart\<close> is all or nothing and exact: it succeeds by leaving everything as it is, when the part
  is recorded with the manifest's fingerprint and holds its count, or by replacing the rows of the
  part's interval by exactly the rows of its verified files, in one transaction, with the flag
  raised over a published coverage before it; when it fails, either no row has moved, or (the
  reply to COMMIT was lost) the part is loaded.
\<close>

theorem loadPart_replaces_part:
  assumes "X \<in> Xs" "readManifest X = Inr m" "part \<in> part_numbers m"
  shows "unit_outcome V Xs (tab s) (part_current V m part (tab s)) (part_loaded V X m part) (loadPart V X m part s)"
  using loadPart_triple [OF assms, where V = V] unfolding triple_outcome by blast

text \<open>
  C22. The source of a COPY: unless the context is cancelled, the rows it gives are exactly the rows of the
  row group that the filter keeps, in order, across every refill of the buffer; a COPY that reports
  no error has taken all of them. The error it reports is the reader's first error when that comes in
  a reply without rows; an error that comes together with rows is not looked at, and the reading
  goes on to the reply without rows that ends it.
\<close>

theorem copy_source_exact:
  "case copy_source keep (new_source ctx g) of (rows, e) \<Rightarrow>
     (e = None \<longrightarrow> rows = filter (kept_by keep) (delivered (Replies g)) \<and>
        (errors_alone (Replies g) \<longrightarrow> reader_error (Replies g) = None)) \<and>
     ((\<forall>n. ctx n = None) \<longrightarrow> rows = filter (kept_by keep) (delivered (Replies g)) \<and>
        (errors_alone (Replies g) \<longrightarrow> e = reader_error (Replies g)) \<and>
        e = (case dropWhile (\<lambda>(rows, e). rows \<noteq> []) (Replies g) of (_, ReadError x) # _ \<Rightarrow> Some x | _ \<Rightarrow> None))"
proof -
  obtain rows e where run: "copy_source keep (new_source ctx g) = (rows, e)" by fastforce
  note exact = copy_source_rows [OF new_source_ok(1) run, unfolded new_source_ok]
  have "ending_error replies = (case dropWhile (\<lambda>(rows, e). rows \<noteq> []) replies of (_, ReadError x) # _ \<Rightarrow> Some x | _ \<Rightarrow> None)"
    for replies :: "('a parquet_row list \<times> read_end) list"
    by (induction replies rule: ending_error.induct) (auto split: read_end.splits)
  with exact ending_reader_error [of "Replies g"] show ?thesis by (auto simp: run)
qed

text \<open>
  The error is lost when the reader returns it with the last rows it could read: the COPY of such a
  row group reports no error, although rows of the group are missing.
\<close>

lemma error_with_rows_is_dropped:
  "copy_source None (new_source (\<lambda>_. None) \<lparr>NumRows = 3, Replies = [([x], ReadError e), ([], EndOfFile)]\<rparr>) = ([x], None)"
  "reader_error [([x], ReadError e), ([], EndOfFile)] = Some e"
proof -
  let ?g = "\<lparr>NumRows = 3, Replies = [([x], ReadError e), ([], EndOfFile)]\<rparr>"
  obtain rows e' where run: "copy_source None (new_source (\<lambda>_. None) ?g) = (rows, e')" by fastforce
  from copy_source_rows [OF new_source_ok(1) run] show "copy_source None (new_source (\<lambda>_. None) ?g) = ([x], None)"
    by (simp add: new_source_ok kept_by_def run)
  show "reader_error [([x], ReadError e), ([], EndOfFile)] = Some e" by simp
qed

text \<open>
  C21. A fingerprint identifies content: when two exports pass the checks of a directory and have the
  same fingerprint for it, they have the same Parquet files there, byte for byte, as long as the
  digests do not collide on them.
\<close>

theorem unitFingerprint_identifies:
  assumes "no_collisions V Xs" "plain_exports Xs" "X \<in> Xs" "Y \<in> Xs" "readManifest X = Inr m" "readManifest Y = Inr n"
    and "verifyFilesUnder V X m (dir @ ''/'') = None" "verifyFilesUnder V Y n (dir @ ''/'') = None"
    and "unitFingerprint V m (dir @ ''/'') = unitFingerprint V n (dir @ ''/'')"
  shows "(\<forall>files. parquetFiles X dir = Inr files \<longleftrightarrow> parquetFiles Y dir = Inr files) \<and>
    (\<forall>files. parquetFiles X dir = Inr files \<longrightarrow> (\<forall>name \<in> set files. open_file V X name = open_file V Y name))"
proof -
  note same = same_directory [OF assms(1-6) verifyFilesUnder_checked [OF assms(7)] verifyFilesUnder_checked [OF assms(8)] assms(9)]
  have "open_file V X name = open_file V Y name" if f: "parquetFiles X dir = Inr files" and name: "name \<in> set files" for files name
  proof -
    have g: "name \<in> set (glob_parquet X (dir @ ''/'') 0)" using f name by (simp add: parquetFiles_Inr)
    then have "map_of (exEntries X) name \<noteq> None" by (auto simp: in_glob_parquet map_of_eq_None_iff)
    with same(2) [OF g] show ?thesis by (auto simp: open_file_def)
  qed
  then show ?thesis using same(1) by blast
qed

section \<open>A small export and its correction\<close>

datatype demo_value = DemoNull | DemoInt u64 | DemoBytes bytes

definition demo_block :: "u64 \<Rightarrow> demo_value parquet_row" where
  "demo_block n = (\<lambda>i. [DemoInt n, DemoBytes (hash_bytes (ucast n)), DemoInt (n + 100)] ! i)"

definition demo_log :: "u64 \<Rightarrow> log" where
  "demo_log i = \<lparr>logAddress = 0x77, logTopics = [MetadataUpdate mainnet_keccak, 0x2], logData = None, logBlockNumber = 6, logTxHash = 0x5,
     logTxIndex = 0, logBlockHash = 6, logBlockTimestamp = 0, logIndex = i, logRemoved = False\<rparr>"

definition demo_log_row :: "u64 \<Rightarrow> demo_value parquet_row" where
  "demo_log_row n = (\<lambda>i. [DemoInt 6, DemoInt n, DemoInt 0, DemoBytes (hash_bytes 0x5), DemoBytes (address_bytes 0x77),
     DemoBytes (hash_bytes (MetadataUpdate mainnet_keccak)), DemoBytes (hash_bytes 0x2), DemoNull, DemoNull, DemoNull] ! i)"

definition demo_columns :: "string list \<Rightarrow> (string list \<times> nat) list" where
  "demo_columns names = zip (map (\<lambda>n. [n]) names) [0..<length names]"

definition log_column_names :: "string list" where
  "log_column_names = [''block_number'', ''log_index'', ''tx_index'', ''tx_hash'', ''address'', ''topic0'', ''topic1'',
     ''topic2'', ''topic3'', ''data'']"

text \<open>The file of block rows has one row above the manifest's interval, and an empty row group.\<close>

definition demo_blocks_file :: "demo_value parquet_file" where
  "demo_blocks_file = \<lparr>SchemaColumns = demo_columns [''number'', ''block_hash'', ''ts''], FooterRows = 3,
     RowGroups = [\<lparr>NumRows = 0, Replies = []\<rparr>,
       \<lparr>NumRows = 3, Replies = [([demo_block 5, demo_block 6], NoError), ([demo_block 7], EndOfFile)]\<rparr>]\<rparr>"

definition demo_logs_file :: "u64 \<Rightarrow> demo_value parquet_file" where
  "demo_logs_file n = \<lparr>SchemaColumns = demo_columns log_column_names, FooterRows = 1,
     RowGroups = [\<lparr>NumRows = 1, Replies = [([demo_log_row n], EndOfFile)]\<rparr>]\<rparr>"

definition demo_lib :: "demo_value libraries" where
  "demo_lib = \<lparr>md5_base64 = (\<lambda>bs. concat (map hex_byte bs)), sha256_hex = (\<lambda>s. CHR ''0'' # s),
     OpenParquet = (\<lambda>bs. if bs = [1] then Inr demo_blocks_file else if bs = [2] then Inr (demo_logs_file 3)
       else if bs = [3] then Inr (demo_logs_file 4) else Inl (ErrNew ''not a parquet file'')),
     IsNull = (\<lambda>v. v = DemoNull), Int64Of = (\<lambda>v. case v of DemoInt w \<Rightarrow> w | _ \<Rightarrow> 0),
     ByteArrayOf = (\<lambda>v. case v of DemoBytes b \<Rightarrow> b | _ \<Rightarrow> []), LoadCtxErr = (\<lambda>_ _ _. None)\<rparr>"

definition demo_manifest :: "byte \<Rightarrow> manifest" where
  "demo_manifest c = \<lparr>exportName = ''demo'', exportSource = ''bq'', BlocksFirst = 5, BlocksLast = 6, BlocksRows = 2, LogsRows = 1,
     LogsParts = [(''000'', 1)],
     ManifestFiles = [(''logs/part=000/l.parquet'', \<lparr>fileSize = 1, fileMD5 = hex_byte c\<rparr>),
       (''blocks/b.parquet'', \<lparr>fileSize = 1, fileMD5 = ''01''\<rparr>)]\<rparr>"

definition demo_export :: "byte \<Rightarrow> export_dir" where
  "demo_export c = \<lparr>exRoot = ''/export'', exManifest = Parsed (demo_manifest c),
     exEntries = [(''blocks'', Unreadable (ErrNew ''is a directory'')), (''blocks/b.parquet'', Content [1]),
       (''logs/part=000'', Unreadable (ErrNew ''is a directory'')), (''logs/part=000/l.parquet'', Content [c])],
     exMissing = (\<lambda>name. ErrNew (name @ '': no such file''))\<rparr>"

text \<open>Export 3 was wrong and export 2 is its correction, with as many rows in as many bytes.\<close>

definition demo_family :: "export_dir set" where
  "demo_family = {demo_export 2, demo_export 3}"

definition reading :: "string \<Rightarrow> nat \<Rightarrow> nat \<Rightarrow> err option" where
  "reading = (\<lambda>_ _ _. None)"

definition cancelled :: "string \<Rightarrow> nat \<Rightarrow> nat \<Rightarrow> err option" where
  "cancelled = (\<lambda>_ _ _. Some (Sentinel Canceled))"

definition demo_jobs :: "job list" where
  "demo_jobs = [(reading, demo_export 3, PrepareStage), (reading, demo_export 3, LogsStage), (reading, demo_export 3, BlocksStage),
     (cancelled, demo_export 2, LogsStage), (reading, demo_export 2, LogsStage), (reading, demo_export 2, BlocksStage)]"

definition demo_run :: "(err + unit) \<times> pg" where
  "demo_run = Finish (demo_lib\<lparr>LoadCtxErr := reading\<rparr>) (demo_export 2) (run_jobs demo_lib demo_jobs (connect fresh_tables))"

definition demo_tables :: tables where
  "demo_tables = fresh_tables\<lparr>
     eth_blocks := map (\<lambda>n. BlockRow \<lparr>blkNumber = n, blkHash = ucast n, blkTimestamp = n + 100\<rparr>) [5, 6],
     eth_logs := [LogRow (demo_log 3)], partitions := [PartitionDDL 5], ingest_cursor := Some (5, 6),
     backfill_units := [(''logs/part=000'', part_fingerprint demo_lib (demo_manifest 2) 0, 1),
       (blocksUnit, unitFingerprint demo_lib (demo_manifest 2) ''blocks/'', 2)], indexes := map index_name SecondaryIndexes\<rparr>"

lemma demo_run_tables: "fst demo_run = Inr ()" "tab (snd demo_run) = demo_tables"
proof -
  have "(case demo_run of (r, s) \<Rightarrow> (r, tab s)) = (Inr (), demo_tables)" by code_simp
  then show "fst demo_run = Inr ()" "tab (snd demo_run) = demo_tables" by (simp_all add: case_prod_beta)
qed

lemma demo_manifest_read: "c \<in> {2, 3} \<Longrightarrow> readManifest (demo_export c) = Inr (demo_manifest c)"
  by (simp add: readManifest_def demo_export_def demo_manifest_def)

lemma demo_parts: "part_numbers (demo_manifest c) = {0}"
  by (simp add: part_numbers_def demo_manifest_def PartitionBlocks_def)

lemma demo_rows:
  "part_rows demo_lib (demo_export 2) 0 = Some [LogRow (demo_log 3)]"
  "part_rows demo_lib (demo_export 3) 0 = Some [LogRow (demo_log 4)]"
  "block_rows demo_lib (demo_export 2) (demo_manifest 2) = Some (map (\<lambda>n. BlockRow \<lparr>blkNumber = n, blkHash = ucast n, blkTimestamp = n + 100\<rparr>) [5, 6])"
  "block_rows demo_lib (demo_export 3) (demo_manifest 3) = Some (map (\<lambda>n. BlockRow \<lparr>blkNumber = n, blkHash = ucast n, blkTimestamp = n + 100\<rparr>) [5, 6])"
  by code_simp+

lemma demo_stored: "n \<in> {3, 4} \<Longrightarrow> stored_log (LogRow (demo_log n))"
  unfolding stored_log_def by (rule exI [of _ "demo_log n"]) (auto simp: wf_log_def demo_log_def fits_int64_def)

lemma demo_interval: "BlocksFirst (demo_manifest c) = 5" "BlocksLast (demo_manifest c) = 6"
  by (simp_all add: demo_manifest_def)

lemma demo_stored_block:
  "fits_int64 n \<Longrightarrow> stored_block (BlockRow \<lparr>blkNumber = n, blkHash = h, blkTimestamp = s\<rparr>)"
  unfolding stored_block_def by (rule exI [of _ "\<lparr>blkNumber = n, blkHash = h, blkTimestamp = s\<rparr>"]) simp

lemma demo_export_family: "export_family demo_lib demo_family 5 6"
  by (auto simp: export_family_def demo_family_def demo_manifest_read demo_parts demo_rows demo_stored demo_stored_block
      demo_interval plausible_def fits_int64_def)

lemma demo_digit: "digit 0 = CHR 0x30" "digit 2 = CHR 0x32" "digit 3 = CHR 0x33"
  by code_simp+

lemma demo_digests: "no_collisions demo_lib demo_family"
proof -
  have "fingerprint_text m pre = fingerprint_text n pre" if "unitFingerprint demo_lib m pre = unitFingerprint demo_lib n pre" for m n pre
    using that by (simp add: unitFingerprint_def demo_lib_def)
  moreover have "bs = bs'"
    if "X \<in> demo_family" "Y \<in> demo_family" "map_of (exEntries X) name = Some (Content bs)"
      "map_of (exEntries Y) name = Some (Content bs')" "md5_base64 demo_lib bs = md5_base64 demo_lib bs'" for X Y name bs bs'
    using that by (auto simp: demo_family_def demo_export_def demo_lib_def hex_byte_def demo_digit split: if_splits)
  moreover have "sha256_hex demo_lib s \<noteq> ''''" for s by (simp add: demo_lib_def)
  ultimately show ?thesis unfolding no_collisions_def by blast
qed

lemma demo_plain: "plain_exports demo_family"
proof -
  have "plain_manifest (demo_manifest c) \<and> distinct (map fst (exEntries (demo_export c)))" if "c \<in> {2, 3}" for c
    using that by (auto simp: plain_manifest_def demo_manifest_def demo_export_def plain_text_def hex_byte_def demo_digit)
  then show ?thesis by (auto simp: plain_exports_def demo_family_def demo_manifest_read)
qed

lemma demo_sound_family: "sound_family demo_lib demo_family 5 6"
  by (simp add: sound_family_def demo_export_family demo_digests demo_plain)

lemma demo_fresh: "sound demo_lib demo_family (tab (connect fresh_tables))"
  by (rule sound_fresh [OF demo_digests]) (simp add: fresh_tables_def connect_def)

lemma demo_jobs_family: "\<forall>(ctx, X, st) \<in> set demo_jobs. X \<in> demo_family" "demo_export 2 \<in> demo_family" "demo_export 3 \<in> demo_family"
  by (simp_all add: demo_jobs_def demo_family_def)

lemma demo_finish:
  "Finish (demo_lib\<lparr>LoadCtxErr := reading\<rparr>) (demo_export 2) (run_jobs demo_lib demo_jobs (connect fresh_tables)) = (Inr (), snd demo_run)"
  using demo_run_tables(1) by (simp add: demo_run_def prod_eq_iff)

theorem backfill_publishes_export_witness:
  "\<exists>m. readManifest (demo_export 2) = Inr m \<and> publishes m (tab (snd demo_run)) \<and> \<not> maintenance (tab (snd demo_run)) \<and>
    block_rows demo_lib (demo_export 2) m = Some (between_blocks (BlocksFirst m) (BlocksLast m) (tab (snd demo_run))) \<and>
    set (between_logs (BlocksFirst m) (BlocksLast m) (tab (snd demo_run))) = export_logs demo_lib (demo_export 2) m"
  by (rule backfill_publishes_export [OF demo_sound_family demo_jobs_family(1,2) demo_fresh demo_finish])

theorem backfill_restores_warehouse_ok_witness: "warehouse_ok (tab (snd demo_run))"
  by (rule backfill_restores_warehouse_ok [OF demo_export_family demo_jobs_family(1,2) _ demo_finish])
    (simp add: connect_def fresh_ok)

theorem loadPart_replaces_part_witness:
  "unit_outcome demo_lib demo_family (tab (connect fresh_tables)) (part_current demo_lib (demo_manifest 3) 0 (tab (connect fresh_tables)))
    (part_loaded demo_lib (demo_export 3) (demo_manifest 3) 0)
    (loadPart demo_lib (demo_export 3) (demo_manifest 3) 0 (connect fresh_tables))"
  by (rule loadPart_replaces_part [OF demo_jobs_family(3)]) (simp_all add: demo_manifest_read demo_parts)

lemma demo_blocks_verified:
  "verifyFilesUnder demo_lib (demo_export 2) (demo_manifest 2) (''blocks'' @ ''/'') = None"
  "verifyFilesUnder demo_lib (demo_export 3) (demo_manifest 3) (''blocks'' @ ''/'') = None"
  "unitFingerprint demo_lib (demo_manifest 2) (''blocks'' @ ''/'') = unitFingerprint demo_lib (demo_manifest 3) (''blocks'' @ ''/'')"
  by code_simp+

theorem unitFingerprint_identifies_witness:
  "parquetFiles (demo_export 3) ''blocks'' = Inr [''blocks/b.parquet''] \<and>
    open_file demo_lib (demo_export 2) ''blocks/b.parquet'' = open_file demo_lib (demo_export 3) ''blocks/b.parquet''"
proof -
  have "parquetFiles (demo_export 2) ''blocks'' = Inr [''blocks/b.parquet'']" by code_simp
  then show ?thesis
    using unitFingerprint_identifies [OF demo_digests demo_plain demo_jobs_family(2,3) _ _ demo_blocks_verified]
    by (simp add: demo_manifest_read)
qed

theorem copy_source_exact_witness:
  "copy_source (Some (inInterval demo_lib (demo_manifest 2) [(''number'', 0)]))
      (new_source (\<lambda>_. None) \<lparr>NumRows = 3, Replies = [([demo_block 5, demo_block 6], NoError), ([demo_block 7], EndOfFile)]\<rparr>) =
    ([demo_block 5, demo_block 6], None)"
proof -
  let ?keep = "Some (inInterval demo_lib (demo_manifest 2) [(''number'', 0)])"
  have "filter (kept_by ?keep) [demo_block 5, demo_block 6, demo_block 7] = [demo_block 5, demo_block 6]"
    by (simp add: kept_by_def inInterval_def value_at_def demo_block_def demo_lib_def demo_manifest_def int64_def)
  then show ?thesis
    using copy_source_exact [where keep = ?keep and ctx = "\<lambda>_. None" and
        g = "\<lparr>NumRows = 3, Replies = [([demo_block 5, demo_block 6], NoError), ([demo_block 7], EndOfFile)]\<rparr>"]
    by (simp add: case_prod_beta prod_eq_iff)
qed

text \<open>The answer served after the run: the log of the correction, and it is reached by \<open>eth_getLogs\<close>.\<close>

definition demo_request :: FilterCriteria where
  "demo_request = metadata_request\<lparr>cFromBlock := Some 5, cToBlock := Some 6\<rparr>"

lemma demo_answers:
  "isl (fst (GetLogs mainnet_keccak go_tags \<lparr>ChainID = 1, MaxResults = 10\<rparr> demo_request (connect demo_tables))) = False"
  by code_simp

theorem backfill_never_exposes_witness:
  "visible (tab (connect fresh_tables)) \<and> eth_logs (tab (connect demo_tables)) = eth_logs (tab (connect fresh_tables)) \<and>
      eth_blocks (tab (connect demo_tables)) = eth_blocks (tab (connect fresh_tables)) \<or>
    verified_export demo_lib demo_family (tab (connect demo_tables))"
proof -
  let ?jobs = "demo_jobs @ [(reading, demo_export 2, FinishStage)]"
  have "tab (connect demo_tables) = tab (run_jobs demo_lib ?jobs (connect fresh_tables))"
    by (simp add: run_jobs_append demo_run_def connect_def flip: demo_run_tables(2))
  moreover obtain logs d' where
      "GetLogs mainnet_keccak go_tags \<lparr>ChainID = 1, MaxResults = 10\<rparr> demo_request (connect demo_tables) = (Inr logs, d')"
    using demo_answers by (metis isl_def prod.collapse sum.exhaust_sel sum.disc(1))
  moreover have "\<forall>(ctx, X, st) \<in> set ?jobs. X \<in> demo_family" using demo_jobs_family by auto
  ultimately show ?thesis by (rule backfill_never_exposes [rotated])
qed

end
