(* ===== verification/Config.thy ===== *)
theory Config
  imports Errors "HOL-Library.Char_ord" "HOL-Library.List_Lexorder"
begin

text \<open>
  \<open>internal/config/config.go\<close>: the configuration, its validation, and the connection string of the
  database.

  A Go string is a list of bytes, which is what \<open>char\<close> is. \<open>time.Duration\<close> is an \<open>int\<close> of
  nanoseconds. \<open>net/url\<close> and \<open>net.JoinHostPort\<close> of the standard library are written out; viper and
  godotenv are parameters, given the settings the code makes.
\<close>

section \<open>The configuration\<close>

record server_section =
  ServerHost :: string
  ServerPort :: int
  ReadTimeout :: int
  WriteTimeout :: int
  IdleTimeout :: int

record database_section =
  DBHost :: string
  DBPort :: int
  DBUser :: string
  DBPassword :: string
  DBName :: string
  SSLMode :: string
  MaxConns :: int

record ethereum_section =
  WebSocketURL :: string
  EthChainID :: u64
  IngestionEnabled :: bool
  EthStartBlock :: u64
  EthConfirmationBlocks :: u64
  EthMaxCatchupBlocks :: u64
  GetLogsSpanCap :: u64
  RPCTimeout :: int
  EthHeadTimeout :: int

record rpc_section =
  RPCMaxResults :: int
  QueryTimeout :: int

record config =
  Debug :: bool
  SentryDSN :: string
  Server :: server_section
  Database :: database_section
  Ethereum :: ethereum_section
  RPC :: rpc_section

definition MainnetChainID :: u64 where
  "MainnetChainID = 1"

section \<open>Validation\<close>

fun join_comma :: "string list \<Rightarrow> string" where
  "join_comma [] = []"
| "join_comma [w] = w"
| "join_comma (w # ws) = w @ '', '' @ join_comma ws"

definition missing_keys :: "config \<Rightarrow> string list" where
  "missing_keys cfg =
     (if DBHost (Database cfg) = '''' then [''database.host''] else []) @
     (if IngestionEnabled (Ethereum cfg) \<and> WebSocketURL (Ethereum cfg) = '''' then [''ethereum.websocket_url''] else [])"

definition Validate :: "config \<Rightarrow> err option" where
  "Validate cfg =
     (let missing = missing_keys cfg in
      if length missing > 0 then Some (ErrNew (''missing required config: '' @ join_comma missing))
      else if EthMaxCatchupBlocks (Ethereum cfg) > 0 \<and> EthConfirmationBlocks (Ethereum cfg) \<ge> EthMaxCatchupBlocks (Ethereum cfg)
      then Some (ErrNew (''ethereum.confirmation_blocks ('' @ show_u64 (EthConfirmationBlocks (Ethereum cfg))
             @ '') must be below ethereum.max_catchup_blocks ('' @ show_u64 (EthMaxCatchupBlocks (Ethereum cfg)) @ '')''))
      else if EthChainID (Ethereum cfg) \<noteq> MainnetChainID
      then Some (ErrNew (''ethereum.chain_id must be '' @ show_u64 MainnetChainID @ '': the warehouse is mainnet-only (the schema carries no chain identity, so another chain''
             @ [CHR 0x27] @ ''s data could later be served as mainnet)''))
      else if RPCMaxResults (RPC cfg) < 0 then Some (ErrNew ''rpc.max_results must be >= 0'')
      else if MaxConns (Database cfg) < 2
      then Some (ErrNew (''database.max_conns must be >= 2: the advisory locks hold one connection for the lifetime of ingestion, ''
             @ ''a backfill run or a rewind, and every other operation needs another''))
      else if QueryTimeout (RPC cfg) \<le> 0
      then Some (ErrNew ''rpc.query_timeout must be > 0: it bounds every warehouse read (eth_getLogs, eth_blockNumber, /health)'')
      else None)"

section \<open>Loading\<close>

datatype setting = BoolSetting bool | IntSetting int | TextSetting string

definition EnvPrefix :: string where
  "EnvPrefix = ''FF_ETH_LOGS''"

text \<open>The sequence of calls on the viper value, as the settings they leave.\<close>

record viper =
  v_file :: "string option"
  v_name :: "string \<times> string"
  v_paths :: "string list"
  v_envPrefix :: string
  v_replacer :: "(string \<times> string) list"
  v_automaticEnv :: bool
  v_defaults :: "(string \<times> setting) list"
  v_bound :: "string list"

datatype config_read = ReadOk | ConfigFileNotFound err | ConfigUnreadable err

text \<open>
  The libraries, with the process environment as a state: \<open>Overload dir name\<close> sets the variables of a
  file (and ignores a missing one, as the code ignores its error).
\<close>

record 'env config_libs =
  Overload :: "string \<Rightarrow> string \<Rightarrow> 'env \<Rightarrow> 'env"
  ReadInConfig :: "viper \<Rightarrow> 'env \<Rightarrow> config_read"
  UnmarshalConfig :: "viper \<Rightarrow> 'env \<Rightarrow> err + config"

definition loadEnv :: "'env config_libs \<Rightarrow> string \<Rightarrow> 'env \<Rightarrow> 'env" where
  "loadEnv L envPath env =
     (let dir = (if envPath = '''' then ''config/'' else envPath)
      in fold (Overload L dir) [''.env'', ''.env.local''] env)"

definition config_keys :: "string list" where
  "config_keys =
     [''debug'', ''sentry_dsn'',
      ''server.host'', ''server.port'', ''server.read_timeout'', ''server.write_timeout'', ''server.idle_timeout'',
      ''database.host'', ''database.port'', ''database.user'', ''database.password'', ''database.dbname'', ''database.sslmode'',
      ''database.max_conns'',
      ''ethereum.websocket_url'', ''ethereum.chain_id'', ''ethereum.ingestion_enabled'', ''ethereum.start_block'',
      ''ethereum.confirmation_blocks'', ''ethereum.max_catchup_blocks'', ''ethereum.getlogs_span_cap'', ''ethereum.head_timeout'',
      ''ethereum.rpc_timeout'',
      ''rpc.max_results'', ''rpc.query_timeout'']"

definition applyDefaults :: "viper \<Rightarrow> viper" where
  "applyDefaults v = v\<lparr>v_defaults :=
     [(''debug'', BoolSetting False),
      (''server.host'', TextSetting ''0.0.0.0''), (''server.port'', IntSetting 8545),
      (''server.read_timeout'', TextSetting ''30s''), (''server.write_timeout'', TextSetting ''120s''),
      (''server.idle_timeout'', TextSetting ''120s''),
      (''database.port'', IntSetting 5432), (''database.user'', TextSetting ''postgres''),
      (''database.dbname'', TextSetting ''ff_eth_logs''), (''database.sslmode'', TextSetting ''disable''),
      (''database.max_conns'', IntSetting 16),
      (''ethereum.chain_id'', IntSetting 1), (''ethereum.ingestion_enabled'', BoolSetting True),
      (''ethereum.confirmation_blocks'', IntSetting 2), (''ethereum.max_catchup_blocks'', IntSetting 50000),
      (''ethereum.getlogs_span_cap'', IntSetting 10000), (''ethereum.head_timeout'', TextSetting ''5m''),
      (''ethereum.rpc_timeout'', TextSetting ''60s''),
      (''rpc.max_results'', IntSetting 100000), (''rpc.query_timeout'', TextSetting ''60s'')]\<rparr>"

definition load_settings :: "string \<Rightarrow> viper" where
  "load_settings configFile =
     (let v = applyDefaults
        \<lparr>v_file = (if configFile \<noteq> '''' then Some configFile else None),
         v_name = (if configFile \<noteq> '''' then ('''', '''') else (''config'', ''yaml'')),
         v_paths = (if configFile \<noteq> '''' then [] else [''.'', ''cmd/ff-eth-logs/'', ''config/'']),
         v_envPrefix = EnvPrefix, v_replacer = [(''.'', ''_'')], v_automaticEnv = True, v_defaults = [], v_bound = []\<rparr>
      in v\<lparr>v_bound := config_keys\<rparr>)"

definition Load :: "'env config_libs \<Rightarrow> string \<Rightarrow> string \<Rightarrow> 'env \<Rightarrow> err + config" where
  "Load L configFile envPath env0 =
     (let env = loadEnv L envPath env0; v = load_settings configFile in
      case ReadInConfig L v env of
        ConfigUnreadable e \<Rightarrow> Inl (Wrapf ''failed to read config: '' e '''')
      | _ \<Rightarrow>
          (case UnmarshalConfig L v env of
             Inl e \<Rightarrow> Inl (Wrapf ''failed to unmarshal config: '' e '''')
           | Inr cfg \<Rightarrow> (case Validate cfg of Some e \<Rightarrow> Inl e | None \<Rightarrow> Inr cfg)))"

section \<open>The connection string\<close>

text \<open>\<open>net/url\<close>: which characters a part of a URL escapes, and the escape.\<close>

datatype url_mode = encodeHost | encodePath | encodeUserPassword | encodeQueryComponent

definition alphanumeric :: "char \<Rightarrow> bool" where
  "alphanumeric c \<longleftrightarrow>
     (let n = (of_char c :: nat) in 97 \<le> n \<and> n \<le> 122 \<or> 65 \<le> n \<and> n \<le> 90 \<or> 48 \<le> n \<and> n \<le> 57)"

definition shouldEscape :: "char \<Rightarrow> url_mode \<Rightarrow> bool" where
  "shouldEscape c mode =
     (if alphanumeric c then False
      else if mode = encodeHost \<and> c \<in> set (''!$&()*+,;=:[]<>'' @ [CHR 0x27, CHR 0x22]) then False
      else if c \<in> set ''-_.~'' then False
      else if c \<in> set ''$&+,/:;=?@''
      then (case mode of
          encodePath \<Rightarrow> c = CHR ''?''
        | encodeUserPassword \<Rightarrow> c \<in> set ''@/?:''
        | _ \<Rightarrow> True)
      else True)"

definition upper_digit :: "nat \<Rightarrow> char" where
  "upper_digit d = ''0123456789ABCDEF'' ! (d mod 16)"

fun escape :: "url_mode \<Rightarrow> string \<Rightarrow> string" where
  "escape mode [] = []"
| "escape mode (c # cs) =
     (if shouldEscape c mode
      then (if c = CHR '' '' \<and> mode = encodeQueryComponent then [CHR ''+'']
            else [CHR ''%'', upper_digit (of_char c div 16), upper_digit (of_char c mod 16)])
      else [c]) @ escape mode cs"

definition JoinHostPort :: "string \<Rightarrow> string \<Rightarrow> string" where
  "JoinHostPort host port =
     (if CHR '':'' \<in> set host then ''['' @ host @ '']:'' @ port else host @ '':'' @ port)"

text \<open>\<open>url.URL.String\<close> for a URL with a scheme, user information and a raw query.\<close>

record url =
  u_scheme :: string
  u_user :: "string \<times> string"
  u_host :: string
  u_path :: string
  u_query :: string

definition url_string :: "url \<Rightarrow> string" where
  "url_string u =
     (let path = (if u_path u = ''*'' then ''*'' else escape encodePath (u_path u)) in
      u_scheme u @ ''://''
      @ escape encodeUserPassword (fst (u_user u)) @ '':'' @ escape encodeUserPassword (snd (u_user u)) @ ''@''
      @ escape encodeHost (u_host u)
      @ (if path \<noteq> [] \<and> hd path \<noteq> CHR ''/'' \<and> u_host u \<noteq> [] then ''/'' else [])
      @ path
      @ (if u_query u \<noteq> [] then ''?'' @ u_query u else []))"

text \<open>\<open>url.Values.Encode\<close>: the keys sorted, each with its one value.\<close>

fun join_amp :: "string list \<Rightarrow> string" where
  "join_amp [] = []"
| "join_amp [w] = w"
| "join_amp (w # ws) = w @ ''&'' @ join_amp ws"

definition values_encode :: "(string \<times> string) list \<Rightarrow> string" where
  "values_encode q =
     join_amp (map (\<lambda>(k, v). escape encodeQueryComponent k @ ''='' @ escape encodeQueryComponent v) (sort_key fst q))"

definition DSN :: "database_section \<Rightarrow> string" where
  "DSN d = url_string \<lparr>u_scheme = ''postgres'', u_user = (DBUser d, DBPassword d),
     u_host = JoinHostPort (DBHost d) (show_int (DBPort d)), u_path = ''/'' @ DBName d,
     u_query = values_encode [(''sslmode'', SSLMode d), (''pool_max_conns'', show_int (MaxConns d))]\<rparr>"

text \<open>The connection string of the configuration's tests.\<close>

lemma DSN_default:
  "DSN \<lparr>DBHost = ''dbhost'', DBPort = 5432, DBUser = ''postgres'', DBPassword = [], DBName = ''ff_eth_logs'', SSLMode = ''disable'',
     MaxConns = 16\<rparr> = ''postgres://postgres:@dbhost:5432/ff_eth_logs?pool_max_conns=16&sslmode=disable''"
  by (simp add: DSN_def url_string_def JoinHostPort_def values_encode_def shouldEscape_def alphanumeric_def show_int_def dec.simps
      digit_def)

subsection \<open>Reading it back\<close>

text \<open>
  The parts of a URL as \<open>net/url\<close> splits them: the query after the first question mark, the
  authority before the first slash, the user information before the last at sign, the password
  after the first colon, pairs at ampersands and equal signs.
\<close>

fun unescape :: "bool \<Rightarrow> string \<Rightarrow> string" where
  "unescape form (c # a # b # cs) =
     (if c = CHR ''%'' then char_of (16 * digit_value (char_lower a) + digit_value (char_lower b)) # unescape form cs
      else (if form \<and> c = CHR ''+'' then CHR '' '' else c) # unescape form (a # b # cs))"
| "unescape form (c # cs) = (if form \<and> c = CHR ''+'' then CHR '' '' else c) # unescape form cs"
| "unescape form [] = []"

definition cut :: "char \<Rightarrow> string \<Rightarrow> string \<times> string" where
  "cut c s = (takeWhile (\<lambda>x. x \<noteq> c) s, drop 1 (dropWhile (\<lambda>x. x \<noteq> c) s))"

definition cut_last :: "char \<Rightarrow> string \<Rightarrow> string \<times> string" where
  "cut_last c s = (case cut c (rev s) of (b, a) \<Rightarrow> (rev a, rev b))"

lemma unescape_plain: "c \<noteq> CHR ''%'' \<Longrightarrow> unescape form (c # cs) = (if form \<and> c = CHR ''+'' then CHR '' '' else c) # unescape form cs"
  by (cases cs rule: list.exhaust [case_names Nil Cons]; cases "tl cs") auto

lemma upper_digit_value: "d < 16 \<Longrightarrow> digit_value (char_lower (upper_digit d)) = d"
  by (drule less_16_cases) (elim disjE; hypsubst; code_simp)

lemma escaped_byte:
  "char_of (16 * digit_value (char_lower (upper_digit (of_char c div 16)))
     + digit_value (char_lower (upper_digit (of_char c mod 16 :: nat)))) = c"
proof -
  have "of_char c div 16 < (16 :: nat)" by (cases c) simp
  then show ?thesis by (simp add: upper_digit_value)
qed

lemma unescape_escape: "unescape (mode = encodeQueryComponent) (escape mode s) = s"
proof (induction s)
  case (Cons c cs)
  have "shouldEscape (CHR ''%'') mode" by (simp add: shouldEscape_def alphanumeric_def)
  moreover have "mode = encodeQueryComponent \<Longrightarrow> shouldEscape (CHR ''+'') mode" by (simp add: shouldEscape_def alphanumeric_def)
  ultimately have "\<not> shouldEscape c mode \<Longrightarrow> c \<noteq> CHR ''%'' \<and> (mode = encodeQueryComponent \<longrightarrow> c \<noteq> CHR ''+'')" by auto
  then show ?case
    using Cons by (cases "shouldEscape c mode") (auto simp: escaped_byte unescape_plain)
qed simp

text \<open>What an escaped text is made of.\<close>

definition escaped_chars :: "url_mode \<Rightarrow> string \<Rightarrow> bool" where
  "escaped_chars mode s \<longleftrightarrow>
     (\<forall>c \<in> set s. \<not> shouldEscape c mode \<or> c = CHR ''%'' \<or> alphanumeric c \<or> mode = encodeQueryComponent \<and> c = CHR ''+'')"

lemma upper_digit_alphanumeric: "alphanumeric (upper_digit d)"
proof -
  have "upper_digit d \<in> set ''0123456789ABCDEF''" unfolding upper_digit_def by (rule nth_mem) simp
  moreover have "\<forall>c \<in> set ''0123456789ABCDEF''. alphanumeric c" by code_simp
  ultimately show ?thesis by blast
qed

lemma escape_chars: "escaped_chars mode (escape mode s)"
  by (induction s) (auto simp: escaped_chars_def upper_digit_alphanumeric)

lemma escape_avoids:
  assumes "shouldEscape c mode" "\<not> alphanumeric c" "c \<noteq> CHR ''%''" "c = CHR ''+'' \<longrightarrow> mode \<noteq> encodeQueryComponent"
  shows "c \<notin> set (escape mode s)"
  using escape_chars [of mode s] assms by (auto simp: escaped_chars_def)

lemma cut_append: "c \<notin> set a \<Longrightarrow> cut c (a @ c # b) = (a, b)"
  by (induction a) (auto simp: cut_def)

lemma cut_last_append: "c \<notin> set b \<Longrightarrow> cut_last c (a @ c # b) = (a, b)"
  using cut_append [of c "rev b" "rev a"] by (simp add: cut_last_def)

definition read_pair :: "string \<Rightarrow> string \<times> string" where
  "read_pair kv = (case cut CHR ''='' kv of (k, v) \<Rightarrow> (unescape True k, unescape True v))"

text \<open>User, password, host and port as written, database name, and the two query values in their order.\<close>

definition read_DSN :: "string \<Rightarrow> (string \<times> string) \<times> string \<times> string \<times> (string \<times> string) \<times> (string \<times> string)" where
  "read_DSN s =
     (let (main, query) = cut CHR ''?'' s;
          (authority, name) = cut CHR ''/'' (drop (length ''postgres://'') main);
          (user, host) = cut_last CHR ''@'' authority;
          (name_part, password) = cut CHR '':'' user;
          (q1, q2) = cut CHR ''&'' query
      in ((unescape False name_part, unescape False password), host, unescape False name, read_pair q1, read_pair q2))"

definition plain_host :: "string \<Rightarrow> bool" where
  "plain_host h \<longleftrightarrow> (\<forall>c \<in> set h. alphanumeric c \<or> c \<in> set ''-_.~:'')"

lemma escape_plain: "\<forall>c \<in> set s. \<not> shouldEscape c mode \<Longrightarrow> escape mode s = s"
  by (induction s) auto

lemma set_show_int: "c \<in> set (show_int i) \<Longrightarrow> alphanumeric c \<or> c = CHR ''-''"
proof -
  have "\<forall>c \<in> set ''0123456789abcdef''. alphanumeric c" by (simp add: alphanumeric_def)
  then have "c \<in> set (dec n) \<Longrightarrow> alphanumeric c" for n using subsetD [OF set_dec, of c n] by blast
  then show "c \<in> set (show_int i) \<Longrightarrow> alphanumeric c \<or> c = CHR ''-''"
    by (auto simp: show_int_def split: if_splits)
qed

lemma escape_host:
  assumes "plain_host h"
  shows "escape encodeHost (JoinHostPort h (show_int p)) = JoinHostPort h (show_int p)"
    and "CHR ''@'' \<notin> set (JoinHostPort h (show_int p))" "CHR ''/'' \<notin> set (JoinHostPort h (show_int p))"
    "CHR ''?'' \<notin> set (JoinHostPort h (show_int p))"
proof -
  have chars: "alphanumeric c \<or> c \<in> set ''-_.~:[]''" if "c \<in> set (JoinHostPort h (show_int p))" for c
    using that assms set_show_int [of c p] by (auto simp: JoinHostPort_def plain_host_def split: if_splits)
  have "\<not> shouldEscape c encodeHost" if "alphanumeric c \<or> c \<in> set ''-_.~:[]''" for c
    using that by (auto simp: shouldEscape_def)
  with chars show "escape encodeHost (JoinHostPort h (show_int p)) = JoinHostPort h (show_int p)"
    by (intro escape_plain) blast
  show "CHR ''@'' \<notin> set (JoinHostPort h (show_int p))" "CHR ''/'' \<notin> set (JoinHostPort h (show_int p))"
    "CHR ''?'' \<notin> set (JoinHostPort h (show_int p))"
    using chars by (force simp: alphanumeric_def)+
qed

lemma escape_show_int: "escape encodeQueryComponent (show_int i) = show_int i"
  by (rule escape_plain) (auto dest!: set_show_int simp: shouldEscape_def)

lemma escaped_avoid:
  "CHR ''@'' \<notin> set (escape encodeUserPassword s)" "CHR ''/'' \<notin> set (escape encodeUserPassword s)"
  "CHR '':'' \<notin> set (escape encodeUserPassword s)" "CHR ''?'' \<notin> set (escape encodeUserPassword s)"
  "CHR ''?'' \<notin> set (escape encodePath s)"
  "CHR ''&'' \<notin> set (escape encodeQueryComponent s)" "CHR ''='' \<notin> set (escape encodeQueryComponent s)"
  by (rule escape_avoids; simp add: shouldEscape_def alphanumeric_def)+

lemma DSN_text:
  assumes "plain_host (DBHost d)"
  shows "DSN d = ''postgres://'' @ escape encodeUserPassword (DBUser d) @ '':'' @ escape encodeUserPassword (DBPassword d) @ ''@''
    @ JoinHostPort (DBHost d) (show_int (DBPort d)) @ ''/'' @ escape encodePath (DBName d)
    @ ''?pool_max_conns='' @ show_int (MaxConns d) @ ''&sslmode='' @ escape encodeQueryComponent (SSLMode d)"
proof -
  have keys: "escape encodeQueryComponent ''pool_max_conns'' = ''pool_max_conns''" "escape encodeQueryComponent ''sslmode'' = ''sslmode''"
    by (simp_all add: shouldEscape_def alphanumeric_def)
  have "\<not> shouldEscape (CHR ''/'') encodePath" by (simp add: shouldEscape_def alphanumeric_def)
  then show ?thesis
    using keys by (simp add: DSN_def url_string_def values_encode_def escape_host [OF assms] escape_show_int)
qed

text \<open>
  C37. The connection string says what the configuration says: for a plain host (letters, digits and
  the characters \<open>-_.~:\<close> of names and addresses) and whatever bytes the user, the password, the
  database name and the SSL mode hold, splitting the string as a URL and unescaping gives them back,
  with the configured host and port; no character of a password can move the host.
\<close>

theorem DSN_reads_back:
  assumes "plain_host (DBHost d)"
  shows "read_DSN (DSN d) = ((DBUser d, DBPassword d), JoinHostPort (DBHost d) (show_int (DBPort d)), DBName d,
    (''pool_max_conns'', show_int (MaxConns d)), (''sslmode'', SSLMode d))"
proof -
  let ?user = "escape encodeUserPassword (DBUser d)" and ?password = "escape encodeUserPassword (DBPassword d)"
  let ?host = "JoinHostPort (DBHost d) (show_int (DBPort d))" and ?name = "escape encodePath (DBName d)"
  let ?q1 = "''pool_max_conns='' @ show_int (MaxConns d)" and ?q2 = "''sslmode='' @ escape encodeQueryComponent (SSLMode d)"
  let ?authority = "?user @ CHR '':'' # ?password @ CHR ''@'' # ?host"
  note host = escape_host [OF assms, of "DBPort d"]
  have parts: "DSN d = (''postgres://'' @ ?authority @ CHR ''/'' # ?name) @ CHR ''?'' # ?q1 @ CHR ''&'' # ?q2"
    by (simp add: DSN_text [OF assms])
  have "cut (CHR ''?'') (DSN d) = (''postgres://'' @ ?authority @ CHR ''/'' # ?name, ?q1 @ CHR ''&'' # ?q2)"
    unfolding parts by (rule cut_append) (simp add: escaped_avoid host)
  moreover have "cut (CHR ''/'') (?authority @ CHR ''/'' # ?name) = (?authority, ?name)"
    by (rule cut_append) (simp add: escaped_avoid host)
  moreover have "cut_last (CHR ''@'') ?authority = (?user @ CHR '':'' # ?password, ?host)"
    using cut_last_append [OF host(2), of "?user @ CHR '':'' # ?password"] by simp
  moreover have "cut (CHR '':'') (?user @ CHR '':'' # ?password) = (?user, ?password)"
    by (rule cut_append) (simp add: escaped_avoid)
  moreover have "CHR ''&'' \<notin> set (show_int i)" "CHR ''='' \<notin> set (show_int i)" "CHR ''%'' \<notin> set (show_int i)" for i
    using set_show_int [of "CHR ''&''" i] set_show_int [of "CHR ''=''" i] set_show_int [of "CHR ''%''" i]
    by (auto simp: alphanumeric_def)
  moreover have "cut (CHR ''&'') (?q1 @ CHR ''&'' # ?q2) = (?q1, ?q2)"
    by (rule cut_append) (simp add: calculation)
  moreover have "read_pair ?q1 = (''pool_max_conns'', show_int (MaxConns d))"
    using cut_append [of "CHR ''=''" "''pool_max_conns''" "show_int (MaxConns d)"]
      unescape_escape [of encodeQueryComponent "show_int (MaxConns d)"]
    by (simp add: read_pair_def escape_show_int)
  moreover have "read_pair ?q2 = (''sslmode'', SSLMode d)"
    using cut_append [of "CHR ''=''" "''sslmode''" "escape encodeQueryComponent (SSLMode d)"]
      unescape_escape [of encodeQueryComponent "SSLMode d"]
    by (simp add: read_pair_def)
  ultimately show ?thesis
    using unescape_escape [of encodeUserPassword] unescape_escape [of encodePath] by (simp add: read_DSN_def)
qed

theorem DSN_reads_back_witness:
  "read_DSN (DSN \<lparr>DBHost = ''db.internal'', DBPort = 5433, DBUser = ''ff user'', DBPassword = ''p@ss:w/rd?&'', DBName = ''logs'',
      SSLMode = ''require'', MaxConns = 8\<rparr>) =
    ((''ff user'', ''p@ss:w/rd?&''), ''db.internal:5433'', ''logs'', (''pool_max_conns'', ''8''), (''sslmode'', ''require''))"
  using DSN_reads_back [of "\<lparr>DBHost = ''db.internal'', DBPort = 5433, DBUser = ''ff user'', DBPassword = ''p@ss:w/rd?&'', DBName = ''logs'',
      SSLMode = ''require'', MaxConns = 8\<rparr>"]
  by (simp add: plain_host_def alphanumeric_def JoinHostPort_def show_int_def dec.simps digit_def)

end
