(* ===== verification/Locks.thy ===== *)
theory Locks
  imports Store
begin

text \<open>
  The advisory locks of \<open>internal/logstore/store.go\<close>: every writer of the warehouse (tail
  ingestion, a backfill, a rewind) holds the writer lock for its lifetime, a backfill also the
  maintenance lock, which readers take shared.

  The server's side, and the code that acquires and releases locks, in the presence of other sessions
  that act between any two statements and of statements that fail. That two commands exclude each
  other is proved of the commands themselves, in \<open>Commands\<close>.
\<close>

section \<open>The lock table of the server\<close>

type_synonym session = nat

datatype lock_mode = Shared | Exclusive

type_synonym lock_table = "(session \<times> u64 \<times> lock_mode) list"

definition writerLockKey :: u64 where
  "writerLockKey = 0x66665f6574685f6c"

definition maintenanceLockKey :: u64 where
  "maintenanceLockKey = 0x66665f6574685f6d"

definition conflict :: "lock_mode \<Rightarrow> lock_mode \<Rightarrow> bool" where
  "conflict a b \<longleftrightarrow> a = Exclusive \<or> b = Exclusive"

definition grantable :: "session \<Rightarrow> u64 \<Rightarrow> lock_mode \<Rightarrow> lock_table \<Rightarrow> bool" where
  "grantable me key mode t \<longleftrightarrow> (\<forall>(s, k, m) \<in> set t. s \<noteq> me \<and> k = key \<longrightarrow> \<not> conflict mode m)"

text \<open>\<open>pg_try_advisory_lock\<close>, its shared form, and \<open>pg_advisory_unlock_all\<close>.\<close>

definition try_advisory :: "session \<Rightarrow> u64 \<Rightarrow> lock_mode \<Rightarrow> lock_table \<Rightarrow> bool \<times> lock_table" where
  "try_advisory me key mode t = (if grantable me key mode t then (True, (me, key, mode) # t) else (False, t))"

definition unlock_all :: "session \<Rightarrow> lock_table \<Rightarrow> lock_table" where
  "unlock_all me t = filter (\<lambda>(s, k, m). s \<noteq> me) t"

definition own_locks :: "session \<Rightarrow> lock_table \<Rightarrow> (u64 \<times> lock_mode) list" where
  "own_locks me t = map snd (filter (\<lambda>(s, k, m). s = me) t)"

text \<open>No two sessions hold conflicting locks.\<close>

definition no_conflicts :: "lock_table \<Rightarrow> bool" where
  "no_conflicts t \<longleftrightarrow> (\<forall>(s, k, m) \<in> set t. \<forall>(s', k', m') \<in> set t. s \<noteq> s' \<and> k = k' \<longrightarrow> \<not> conflict m m')"

lemma no_conflicts_try: "no_conflicts t \<Longrightarrow> no_conflicts (snd (try_advisory me key mode t))"
  by (fastforce simp: no_conflicts_def try_advisory_def grantable_def conflict_def)

lemma no_conflicts_unlock: "no_conflicts t \<Longrightarrow> no_conflicts (unlock_all me t)"
  by (auto simp: no_conflicts_def unlock_all_def)

lemma own_locks_try:
  "own_locks s (snd (try_advisory me key mode t)) =
    (if s = me \<and> fst (try_advisory me key mode t) then (key, mode) # own_locks s t else own_locks s t)"
  by (auto simp: own_locks_def try_advisory_def)

lemma own_locks_unlock: "own_locks s (unlock_all me t) = (if s = me then [] else own_locks s t)"
  by (auto simp: own_locks_def unlock_all_def filter_empty_conv intro!: arg_cong [where f = "map snd"] filter_cong)

lemma own_locks_iff: "(key, mode) \<in> set (own_locks s t) \<longleftrightarrow> (s, key, mode) \<in> set t"
  by (force simp: own_locks_def)

text \<open>An exclusive holder excludes every other session from the key.\<close>

lemma exclusive_alone:
  "no_conflicts t \<Longrightarrow> (key, Exclusive) \<in> set (own_locks s t) \<Longrightarrow> (key, m) \<in> set (own_locks s' t) \<Longrightarrow> s' = s"
  unfolding own_locks_iff by (fastforce simp: no_conflicts_def conflict_def)

section \<open>Acquiring\<close>

text \<open>
  The connection that takes the locks: \<open>others n\<close> is what the other sessions have done to the lock
  table when statement \<open>n\<close> is served, \<open>took n\<close> how many milliseconds it lasts, \<open>fate n\<close> whether it
  fails, and \<open>survives n\<close> whether the connection lives on when it does.
\<close>

record lock_conn =
  locks :: lock_table
  clock :: nat
  sent :: nat
  others :: "nat \<Rightarrow> lock_table \<Rightarrow> lock_table"
  took :: "nat \<Rightarrow> nat"
  fate :: "nat \<Rightarrow> fault option"
  survives :: "nat \<Rightarrow> bool"

definition lock_statement :: "(lock_table \<Rightarrow> 'a \<times> lock_table) \<Rightarrow> (lock_conn, err, 'a) step" where
  "lock_statement f c =
     (let t = others c (sent c) (locks c);
          c1 = c\<lparr>locks := t, clock := clock c + took c (sent c), sent := sent c + 1\<rparr> in
      case fate c (sent c) of
        Some (Failed e) \<Rightarrow> (Inl e, c1)
      | Some (ReplyLost e) \<Rightarrow> (Inl e, c1\<lparr>locks := snd (f t)\<rparr>)
      | None \<Rightarrow> (Inr (fst (f t)), c1\<lparr>locks := snd (f t)\<rparr>))"

definition rollbackTimeout :: nat where
  "rollbackTimeout = 5000"

record lockRequest =
  lr_key :: u64
  lr_wait :: bool

function tryLock_until :: "nat \<Rightarrow> session \<Rightarrow> lockRequest \<Rightarrow> (lock_conn, err, unit) step" where
  "tryLock_until deadline me r c =
     (case lock_statement (try_advisory me (lr_key r) Exclusive) c of
        (Inl e, c1) \<Rightarrow> (Inl (Wrapf (''advisory lock '' @ show_int (int64 (lr_key r)) @ '': '') e ''''), c1)
      | (Inr True, c1) \<Rightarrow> (Inr (), c1)
      | (Inr False, c1) \<Rightarrow>
          if \<not> lr_wait r then (Inl (Sentinel ErrWriterBusy), c1)
          else if clock c1 > deadline then (Inl (ErrNew ''maintenance lock: readers did not drain in time''), c1)
          else tryLock_until deadline me r (c1\<lparr>clock := clock c1 + 100\<rparr>))"
  by pat_completeness auto

lemma lock_statement_clock: "lock_statement f c = (r, c1) \<Longrightarrow> clock c \<le> clock c1"
  by (auto simp: lock_statement_def Let_def split: option.splits fault.splits)

termination tryLock_until
  by (relation "measure (\<lambda>(deadline, me, r, c). deadline + 1 - clock c)")
    (auto dest!: lock_statement_clock [OF sym])

declare tryLock_until.simps [simp del]

definition tryLock :: "session \<Rightarrow> lockRequest \<Rightarrow> (lock_conn, err, unit) step" where
  "tryLock me r c = tryLock_until (clock c + rollbackTimeout) me r c"

text \<open>
  Release. The error of the unlock statement is not looked at and the connection goes back to the
  pool: the locks are gone when the statement ran (its reply may be lost), or when the connection
  is, since the server drops the locks of a session that ends; a connection that survives the
  failure keeps them.
\<close>

definition unlock_refused :: "lock_conn \<Rightarrow> nat \<Rightarrow> bool" where
  "unlock_refused c n \<longleftrightarrow> (case fate c n of Some (Failed e) \<Rightarrow> survives c n | _ \<Rightarrow> False)"

definition release_locks :: "session \<Rightarrow> lock_conn \<Rightarrow> lock_conn" where
  "release_locks me c =
     (let t = others c (sent c) (locks c) in
      c\<lparr>locks := (if unlock_refused c (sent c) then t else unlock_all me t), clock := clock c + took c (sent c),
        sent := sent c + 1\<rparr>)"

definition acquireLocks :: "session \<Rightarrow> lockRequest list \<Rightarrow> (lock_conn, err, unit) step" where
  "acquireLocks me reqs c =
     (case lock_statement (\<lambda>t. ((), t)) c of
        (Inl e, c1) \<Rightarrow> (Inl (Wrapf ''acquire connection for advisory locks: '' e ''''), c1)
      | (Inr _, c1) \<Rightarrow>
          (case for_each reqs (tryLock me) c1 of
             (Inl e, c2) \<Rightarrow> (Inl e, release_locks me c2)
           | (Inr _, c2) \<Rightarrow> (Inr (), c2)))"

definition writer_request :: lockRequest where
  "writer_request = \<lparr>lr_key = writerLockKey, lr_wait = False\<rparr>"

definition maintenance_request :: lockRequest where
  "maintenance_request = \<lparr>lr_key = maintenanceLockKey, lr_wait = True\<rparr>"

definition AcquireWriterLock :: "session \<Rightarrow> (lock_conn, err, unit) step" where
  "AcquireWriterLock me = acquireLocks me [writer_request]"

definition AcquireMaintenanceLock :: "session \<Rightarrow> (lock_conn, err, unit) step" where
  "AcquireMaintenanceLock me = acquireLocks me [maintenance_request]"

definition AcquireBackfillLocks :: "session \<Rightarrow> (lock_conn, err, unit) step" where
  "AcquireBackfillLocks me = acquireLocks me [writer_request, maintenance_request]"

section \<open>What acquiring gives\<close>

text \<open>The other sessions touch only their own locks, and the server grants none that conflict.\<close>

definition polite :: "session \<Rightarrow> lock_conn \<Rightarrow> bool" where
  "polite me c \<longleftrightarrow>
     (\<forall>n t. no_conflicts t \<longrightarrow> no_conflicts (others c n t) \<and> own_locks me (others c n t) = own_locks me t)"

text \<open>A statement of the code: it keeps the surroundings and the server's order.\<close>

definition same_others :: "lock_conn \<Rightarrow> lock_conn \<Rightarrow> bool" where
  "same_others c d \<longleftrightarrow> others d = others c \<and> took d = took c \<and> fate d = fate c \<and> survives d = survives c"

lemma same_others_simps [simp]:
  "same_others c (c\<lparr>clock := n\<rparr>)" "same_others c c" "same_others (c\<lparr>clock := n\<rparr>) d = same_others c d"
  by (simp_all add: same_others_def)

lemma same_others_trans: "same_others a b \<Longrightarrow> same_others b c \<Longrightarrow> same_others a c"
  by (simp add: same_others_def)

lemma polite_same: "same_others c d \<Longrightarrow> polite me d = polite me c"
  by (simp add: polite_def same_others_def)

lemma lock_statement_result:
  assumes "lock_statement (try_advisory me key mode) c = (r, d)" "polite me c" "no_conflicts (locks c)"
  shows "same_others c d \<and> no_conflicts (locks d) \<and>
    (case r of Inr True \<Rightarrow> own_locks me (locks d) = (key, mode) # own_locks me (locks c)
     | Inr False \<Rightarrow> own_locks me (locks d) = own_locks me (locks c) | Inl _ \<Rightarrow> True)"
proof -
  have t: "no_conflicts (others c (sent c) (locks c))" "own_locks me (others c (sent c) (locks c)) = own_locks me (locks c)"
    using assms(2,3) by (simp_all add: polite_def)
  then show ?thesis
    using assms(1) no_conflicts_try [OF t(1), of me key mode] own_locks_try [of me me key mode "others c (sent c) (locks c)"]
    by (auto simp: lock_statement_def same_others_def Let_def split: option.splits fault.splits bool.splits)
qed

lemma tryLock_until_result:
  assumes "tryLock_until deadline me r c = (x, d)" "polite me c" "no_conflicts (locks c)"
  shows "same_others c d \<and> no_conflicts (locks d) \<and>
    (\<forall>u. x = Inr u \<longrightarrow> own_locks me (locks d) = (lr_key r, Exclusive) # own_locks me (locks c))"
  using assms
proof (induction deadline me r c arbitrary: x d rule: tryLock_until.induct)
  case (1 deadline me r c)
  obtain y c1 where s: "lock_statement (try_advisory me (lr_key r) Exclusive) c = (y, c1)" by fastforce
  note one = lock_statement_result [OF s 1(3,4)]
  show ?case
  proof (cases "y = Inr False \<and> lr_wait r \<and> \<not> clock c1 > deadline")
    case True
    let ?c2 = "c1\<lparr>clock := clock c1 + 100\<rparr>"
    have "tryLock_until deadline me r ?c2 = (x, d)"
      using 1(2) s True by (simp add: tryLock_until.simps [of deadline me r c])
    moreover have "same_others c ?c2" using one by (simp add: same_others_def)
    ultimately have "same_others ?c2 d \<and> no_conflicts (locks d) \<and>
        (\<forall>u. x = Inr u \<longrightarrow> own_locks me (locks d) = (lr_key r, Exclusive) # own_locks me (locks ?c2))"
      using 1(1) [OF s [symmetric]] one True polite_same [of c ?c2 me] 1(3) by auto
    then show ?thesis using one True same_others_trans [of c c1 d] by auto
  next
    case False
    then show ?thesis
      using 1(2) s one by (auto simp: tryLock_until.simps [of deadline me r c] split: sum.splits bool.splits if_splits)
  qed
qed

lemma for_each_tryLock:
  assumes "for_each reqs (tryLock me) c = (x, d)" "polite me c" "no_conflicts (locks c)"
  shows "same_others c d \<and> no_conflicts (locks d) \<and>
    (\<forall>u. x = Inr u \<longrightarrow>
       own_locks me (locks d) = rev (map (\<lambda>r. (lr_key r, Exclusive)) reqs) @ own_locks me (locks c))"
  using assms
proof (induction reqs arbitrary: c)
  case Nil
  then show ?case by (simp add: ret_def)
next
  case (Cons r reqs)
  obtain y c1 where s: "tryLock me r c = (y, c1)" by fastforce
  note one = tryLock_until_result [OF s [unfolded tryLock_def] Cons(3,4)]
  show ?case
  proof (cases y)
    case (Inl e)
    then show ?thesis using Cons(2) s one by (auto simp: andThen_def)
  next
    case (Inr u)
    then have "for_each reqs (tryLock me) c1 = (x, d)" using Cons(2) s by (simp add: andThen_def)
    from Cons.IH [OF this] show ?thesis
      using one Inr Cons(3) polite_same [of c c1 me] same_others_trans [of c c1 d] by auto
  qed
qed

lemma unlock_refused_same: "same_others c d \<Longrightarrow> unlock_refused d = unlock_refused c"
  by (intro ext) (simp add: unlock_refused_def same_others_def split: option.split fault.split)

text \<open>
  C10. Locks are taken all or none: when \<open>acquireLocks\<close> succeeds the session holds exactly the locks asked
  for, exclusively, so no other session holds any of them in any mode; when it fails, whether a lock
  was refused, the readers did not drain or a reply was lost, it holds none, unless the unlock
  statement itself, its last, failed at the server on a connection that lives on.
\<close>

theorem acquireLocks_all_or_nothing:
  assumes "polite me c" "no_conflicts (locks c)" "own_locks me (locks c) = []"
  shows "case acquireLocks me reqs c of
    (Inr _, d) \<Rightarrow> own_locks me (locks d) = rev (map (\<lambda>r. (lr_key r, Exclusive)) reqs) \<and>
      (\<forall>r \<in> set reqs. \<forall>s m. (lr_key r, m) \<in> set (own_locks s (locks d)) \<longrightarrow> s = me)
  | (Inl _, d) \<Rightarrow> own_locks me (locks d) = [] \<or>
      (\<exists>n e. sent d = n + 1 \<and> fate c n = Some (Failed e) \<and> survives c n)"
proof -
  obtain y c1 where s: "lock_statement (\<lambda>t. ((), t)) c = (y, c1)" by fastforce
  then have c1: "same_others c c1" "no_conflicts (locks c1)" "own_locks me (locks c1) = []"
    using assms by (auto simp: lock_statement_def polite_def same_others_def Let_def split: option.splits fault.splits)
  obtain x d where run: "for_each reqs (tryLock me) c1 = (x, d)" by fastforce
  note taken = for_each_tryLock [OF run _ c1(2)]
  show ?thesis
  proof (cases y)
    case (Inl e)
    then show ?thesis using s c1 by (simp add: acquireLocks_def)
  next
    case (Inr u)
    have p: "polite me c1" using polite_same [OF c1(1)] assms(1) by simp
    show ?thesis
    proof (cases x)
      case (Inl e)
      have "same_others c d" using taken [OF p] same_others_trans [OF c1(1)] by blast
      then have refused: "unlock_refused d (sent d) = unlock_refused c (sent d)" by (simp add: unlock_refused_same)
      show ?thesis
      proof (cases "unlock_refused d (sent d)")
        case True
        then obtain e' where "fate c (sent d) = Some (Failed e')" "survives c (sent d)"
          unfolding refused by (auto simp: unlock_refused_def split: option.splits fault.splits)
        then show ?thesis using s Inr run Inl by (simp add: acquireLocks_def release_locks_def Let_def)
      next
        case False
        then show ?thesis using s Inr run Inl by (simp add: acquireLocks_def release_locks_def own_locks_unlock Let_def)
      qed
    next
      case (Inr v)
      have own: "own_locks me (locks d) = rev (map (\<lambda>r. (lr_key r, Exclusive)) reqs)" "no_conflicts (locks d)"
        using taken [OF p] c1(3) Inr by simp_all
      have "s = me" if "r \<in> set reqs" "(lr_key r, m) \<in> set (own_locks s (locks d))" for r s m
        using exclusive_alone [OF own(2) _ that(2), of me] that(1) by (auto simp: own(1))
      then show ?thesis using s \<open>y = Inr u\<close> run Inr own(1) by (auto simp: acquireLocks_def)
    qed
  qed
qed

lemma tryLock_until_attempts:
  assumes "tryLock_until deadline me r c = (x, d)"
  shows "sent d \<le> sent c + (if lr_wait r \<and> clock c \<le> deadline then (deadline - clock c) div 100 + 2 else 1)"
  using assms
proof (induction deadline me r c arbitrary: x d rule: tryLock_until.induct)
  case (1 deadline me r c)
  obtain y c1 where s: "lock_statement (try_advisory me (lr_key r) Exclusive) c = (y, c1)" by fastforce
  have one: "sent c1 = sent c + 1" "clock c \<le> clock c1"
    using s lock_statement_clock [OF s] by (auto simp: lock_statement_def Let_def split: option.splits fault.splits)
  show ?case
  proof (cases "y = Inr False \<and> lr_wait r \<and> \<not> clock c1 > deadline")
    case True
    let ?c2 = "c1\<lparr>clock := clock c1 + 100\<rparr>"
    have "tryLock_until deadline me r ?c2 = (x, d)"
      using 1(2) s True by (simp add: tryLock_until.simps [of deadline me r c])
    then have "sent d \<le> sent ?c2 + (if lr_wait r \<and> clock ?c2 \<le> deadline then (deadline - clock ?c2) div 100 + 2 else 1)"
      using 1(1) [OF s [symmetric]] True by (auto; blast)
    moreover have "(deadline - (clock c1 + 100)) div 100 + 1 \<le> (deadline - clock c) div 100" if "clock c1 + 100 \<le> deadline"
    proof -
      have "(deadline - (clock c1 + 100)) div 100 + 1 = (deadline - clock c1) div 100"
        using that le_div_geq [of 100 "deadline - clock c1"] by simp
      also have "\<dots> \<le> (deadline - clock c) div 100" using one by (intro div_le_mono) simp
      finally show ?thesis .
    qed
    ultimately show ?thesis using one True by (auto split: if_splits)
  next
    case False
    then have "d = c1"
      using 1(2) s by (auto simp: tryLock_until.simps [of deadline me r c] split: sum.splits bool.splits if_splits)
    then show ?thesis using one by simp
  qed
qed

text \<open>
  C39. Waiting is bounded: a lock is tried at most 52 times, every 100 ms for \<open>rollbackTimeout\<close>, whatever
  the other sessions do; a lock that is not waited for is tried once.
\<close>

theorem tryLock_bounded:
  "sent (snd (tryLock me r c)) \<le> sent c + (if lr_wait r then 52 else 1)"
  using tryLock_until_attempts [of "clock c + rollbackTimeout" me r c "fst (tryLock me r c)" "snd (tryLock me r c)"]
  by (simp add: tryLock_def rollbackTimeout_def split: if_splits)

section \<open>A backfill at work\<close>

definition both_locks :: lock_table where
  "both_locks = [(0, maintenanceLockKey, Exclusive), (0, writerLockKey, Exclusive)]"

text \<open>
  Ingestion that finds a backfill at work, and a backfill that waits for a reader: the reader has
  closed its snapshot by the third try.
\<close>

definition racing :: "lock_table \<Rightarrow> (nat \<Rightarrow> lock_table \<Rightarrow> lock_table) \<Rightarrow> lock_conn" where
  "racing t oth = \<lparr>locks = t, clock = 0, sent = 0, others = oth, took = (\<lambda>_. 1), fate = (\<lambda>_. None), survives = (\<lambda>_. True)\<rparr>"

lemma AcquireWriterLock_busy: "fst (AcquireWriterLock 1 (racing both_locks (\<lambda>_ t. t))) = Inl (Sentinel ErrWriterBusy)"
  by code_simp

lemma AcquireBackfillLocks_waits:
  "fst (AcquireBackfillLocks 0 (racing [(2, maintenanceLockKey, Shared)] (\<lambda>n t. if n = 4 then unlock_all 2 t else t))) = Inr ()"
  by code_simp

theorem acquireLocks_all_or_nothing_witness:
  "own_locks 0 (locks (snd (acquireLocks 0 [writer_request, maintenance_request]
      (racing [(2, maintenanceLockKey, Shared)] (\<lambda>n t. if n = 4 then unlock_all 2 t else t))))) =
    [(maintenanceLockKey, Exclusive), (writerLockKey, Exclusive)]"
proof -
  let ?c = "racing [(2, maintenanceLockKey, Shared)] (\<lambda>n t. if n = 4 then unlock_all 2 t else t)"
  have c: "polite 0 ?c" "no_conflicts (locks ?c)" "own_locks 0 (locks ?c) = []"
    by (simp add: polite_def racing_def no_conflicts_unlock own_locks_unlock, simp_all add: racing_def no_conflicts_def own_locks_def)
  obtain x d where run: "acquireLocks 0 [writer_request, maintenance_request] ?c = (x, d)" by fastforce
  moreover have "x = Inr ()" using AcquireBackfillLocks_waits unfolding AcquireBackfillLocks_def run by simp
  ultimately have "own_locks 0 (locks d) = rev (map (\<lambda>r. (lr_key r, Exclusive)) [writer_request, maintenance_request])"
    using acquireLocks_all_or_nothing [OF c, of "[writer_request, maintenance_request]"] unfolding run by simp
  then show ?thesis unfolding run by (simp add: writer_request_def maintenance_request_def)
qed

text \<open>
  The case in which a failed acquisition leaves a lock behind: the writer lock is taken, the request
  for the maintenance lock fails at the server, and so does the unlock; the connection, with the
  writer lock, goes back to the pool.
\<close>

definition unlucky :: lock_conn where
  "unlucky = \<lparr>locks = [], clock = 0, sent = 0, others = (\<lambda>_ t. t), took = (\<lambda>_. 1),
     fate = (\<lambda>n. if 2 \<le> n then Some (Failed (DbError ''out of shared memory'')) else None), survives = (\<lambda>_. True)\<rparr>"

lemma failed_unlock_keeps_lock:
  "case AcquireBackfillLocks 0 unlucky of (r, d) \<Rightarrow> isl r \<and> own_locks 0 (locks d) = [(writerLockKey, Exclusive)]"
  by (simp add: AcquireBackfillLocks_def acquireLocks_def lock_statement_def tryLock_def tryLock_until.simps
      andThen_def unlucky_def try_advisory_def grantable_def
      writer_request_def maintenance_request_def writerLockKey_def maintenanceLockKey_def release_locks_def unlock_refused_def own_locks_def)

end
