(* ===== verification/Commands.thy ===== *)
theory Commands
  imports Config Locks Runner Recovery Backfill Reader
begin

text \<open>
  \<open>cmd/ff-eth-logs/main.go\<close> and \<open>backfill.go\<close>: the command line, the three writers it starts
  (ingestion, a backfill, a rewind), and the lock each of them holds.

  The flag package and \<open>strconv.ParseUint\<close> of the standard library are written out, \<open>%q\<close> as plain
  quotation marks. Dialling, connecting and setting up the logger are parameters. A command runs on
  the connection that holds its locks and on the rest of its state.
\<close>

section \<open>Flags\<close>

text \<open>\<open>flag.FlagSet.Parse\<close> with \<open>ContinueOnError\<close>: \<open>F name\<close> sets the flag of that name, if it is defined.\<close>

definition split_flag :: "string \<Rightarrow> string \<times> string option" where
  "split_flag body =
     (if CHR ''='' \<in> set body then (case cut CHR ''='' body of (n, v) \<Rightarrow> (n, Some v)) else (body, None))"

fun parse_flags :: "(string \<Rightarrow> (string \<Rightarrow> 'f \<Rightarrow> err + 'f) option) \<Rightarrow> string list \<Rightarrow> 'f \<Rightarrow> err + 'f" where
  "parse_flags F [] f = Inr f"
| "parse_flags F (s # args) f =
     (if length s < 2 \<or> hd s \<noteq> CHR ''-'' \<or> s = ''--'' then Inr f
      else
      let body = (if s ! 1 = CHR ''-'' then drop 2 s else drop 1 s) in
      if body = [] \<or> hd body = CHR ''-'' \<or> hd body = CHR ''='' then Inl (ErrNew (''bad flag syntax: '' @ s))
      else
      let (name, value) = split_flag body in
      case F name of
        None \<Rightarrow>
          if name = ''help'' \<or> name = ''h'' then Inl (ErrNew ''flag: help requested'')
          else Inl (ErrNew (''flag provided but not defined: -'' @ name))
      | Some set_flag \<Rightarrow>
          let set_to = (\<lambda>v. case set_flag v f of
              Inl e \<Rightarrow> Inl (ErrNew (''invalid value \"'' @ v @ ''\" for flag -'' @ name @ '': '' @ Error e))
            | Inr f' \<Rightarrow> Inr f')
          in case value of
               Some v \<Rightarrow> (case set_to v of Inl e \<Rightarrow> Inl e | Inr f' \<Rightarrow> parse_flags F args f')
             | None \<Rightarrow>
                 (case args of
                    [] \<Rightarrow> Inl (ErrNew (''flag needs an argument: -'' @ name))
                  | v # rest \<Rightarrow> (case set_to v of Inl e \<Rightarrow> Inl e | Inr f' \<Rightarrow> parse_flags F rest f')))"

text \<open>\<open>strconv.ParseUint(v, 10, 64)\<close>, a digit at a time.\<close>

fun parse_digits :: "string \<Rightarrow> nat \<Rightarrow> string \<Rightarrow> err + nat" where
  "parse_digits v n [] = Inr n"
| "parse_digits v n (c # cs) =
     (let d = (of_char c :: nat) in
      if d < 48 \<or> 57 < d then Inl (ErrNew (''strconv.ParseUint: parsing \"'' @ v @ ''\": invalid syntax''))
      else if 2 ^ 64 \<le> 10 * n + (d - 48) then Inl (ErrNew (''strconv.ParseUint: parsing \"'' @ v @ ''\": value out of range''))
      else parse_digits v (10 * n + (d - 48)) cs)"

definition ParseUint :: "string \<Rightarrow> err + u64" where
  "ParseUint v =
     (if v = '''' then Inl (ErrNew ''strconv.ParseUint: parsing \"\": invalid syntax'')
      else (case parse_digits v 0 v of Inl e \<Rightarrow> Inl e | Inr n \<Rightarrow> Inr (of_nat n)))"

record flags =
  f_config :: string
  f_env :: string
  f_dir :: string
  f_stage :: string
  f_to :: "u64 option"

definition default_flags :: flags where
  "default_flags = \<lparr>f_config = '''', f_env = ''config/'', f_dir = '''', f_stage = ''all'', f_to = None\<rparr>"

text \<open>The flags every command has, those of \<open>backfill\<close> and that of \<open>rewind\<close>.\<close>

definition common_flag :: "string \<Rightarrow> (string \<Rightarrow> flags \<Rightarrow> err + flags) option" where
  "common_flag name =
     (if name = ''config'' then Some (\<lambda>v f. Inr (f\<lparr>f_config := v\<rparr>))
      else if name = ''env'' then Some (\<lambda>v f. Inr (f\<lparr>f_env := v\<rparr>))
      else None)"

definition backfill_flag :: "string \<Rightarrow> (string \<Rightarrow> flags \<Rightarrow> err + flags) option" where
  "backfill_flag name =
     (if name = ''dir'' then Some (\<lambda>v f. Inr (f\<lparr>f_dir := v\<rparr>))
      else if name = ''stage'' then Some (\<lambda>v f. Inr (f\<lparr>f_stage := v\<rparr>))
      else common_flag name)"

definition rewind_flag :: "string \<Rightarrow> (string \<Rightarrow> flags \<Rightarrow> err + flags) option" where
  "rewind_flag name =
     (if name = ''to''
      then Some (\<lambda>v f. case ParseUint v of
          Inl e \<Rightarrow> Inl (Wrapf ''-to must be a block number: '' e '''')
        | Inr n \<Rightarrow> Inr (f\<lparr>f_to := Some n\<rparr>))
      else common_flag name)"

section \<open>What a command needs\<close>

text \<open>
  \<open>NewPool\<close> and \<open>Ping\<close> are the errors of opening the pool at a connection string; \<open>ShowDuration\<close> is
  \<open>time.Duration.String\<close>.
\<close>

record ('env, 'p) platform = "'env config_libs" +
  InitLogger :: "config \<Rightarrow> err option"
  NewPool :: "string \<Rightarrow> err option"
  Ping :: "string \<Rightarrow> err option"
  Dial :: "string \<Rightarrow> int \<Rightarrow> err + 'p eth_client"
  ShowDuration :: "int \<Rightarrow> string"

definition OpenStore :: "('env, 'p) platform \<Rightarrow> string \<Rightarrow> err option" where
  "OpenStore P dsn =
     (case NewPool P dsn of
        Some e \<Rightarrow> Some (Wrapf ''open warehouse database: '' e '''')
      | None \<Rightarrow> (case Ping P dsn of Some e \<Rightarrow> Some (Wrapf ''ping warehouse database: '' e '''') | None \<Rightarrow> None))"

definition commonFlags ::
  "('env, 'p) platform \<Rightarrow> (string \<Rightarrow> (string \<Rightarrow> flags \<Rightarrow> err + flags) option) \<Rightarrow> string list \<Rightarrow> 'env \<Rightarrow> err + config \<times> flags" where
  "commonFlags P F args env =
     (case parse_flags F args default_flags of
        Inl e \<Rightarrow> Inl e
      | Inr f \<Rightarrow>
          (case Load (config_libs.truncate P) (f_config f) (f_env f) env of
             Inl e \<Rightarrow> Inl (Wrapf ''load config: '' e '''')
           | Inr cfg \<Rightarrow>
               (case InitLogger P cfg of Some e \<Rightarrow> Inl (Wrapf ''initialize logger: '' e '''') | None \<Rightarrow> Inr (cfg, f))))"

text \<open>Acquire the locks, run, let go: the \<open>release\<close> is deferred, so it comes on every return.\<close>

definition under_locks ::
  "session \<Rightarrow> (lock_conn, err, unit) step \<Rightarrow> (err \<Rightarrow> err) \<Rightarrow> ('s, err, unit) step \<Rightarrow> (lock_conn \<times> 's, err, unit) step" where
  "under_locks me acquire wrap body =
     (\<lambda>(c, s). case acquire c of
        (Inl e, d) \<Rightarrow> (Inl (wrap e), (d, s))
      | (Inr _, d) \<Rightarrow> (case body s of (r, t) \<Rightarrow> (r, (release_locks me d, t))))"

section \<open>The commands\<close>

definition run_config_of :: "('env, 'p) platform \<Rightarrow> config \<Rightarrow> run_config" where
  "run_config_of P cfg =
     \<lparr>LoopConfig = \<lparr>MaxCatchupBlocks = EthMaxCatchupBlocks (Ethereum cfg), ConfirmationBlocks = EthConfirmationBlocks (Ethereum cfg),
        HeadTimeout = EthHeadTimeout (Ethereum cfg), HeadTimeoutText = ShowDuration P (EthHeadTimeout (Ethereum cfg))\<rparr>,
      RunChainID = EthChainID (Ethereum cfg), StartBlock = EthStartBlock (Ethereum cfg), SpanCap = GetLogsSpanCap (Ethereum cfg)\<rparr>"

text \<open>\<open>runIngestion\<close>: under the writer lock, dial and run; the node's state is \<open>node\<close> when it is dialled.\<close>

definition ingest_on ::
  "keccak \<Rightarrow> run_config \<Rightarrow> 'p eth_client \<Rightarrow> event list \<Rightarrow> 'p \<Rightarrow> (pg, err, unit) step" where
  "ingest_on kc cfg client events node d =
     (case RunIngestion kc cfg client pg_store events
         \<lparr>provider = node, warehouse = d, stream = \<lparr>st_next = 0, st_lowerBound = 0, st_tip = 0, st_heads = []\<rparr>\<rparr> of
        (r, t) \<Rightarrow> (r, warehouse t))"

definition runIngestion ::
  "('env, 'p) platform \<Rightarrow> keccak \<Rightarrow> session \<Rightarrow> config \<Rightarrow> event list \<Rightarrow> 'p \<Rightarrow> (lock_conn \<times> pg, err, unit) step" where
  "runIngestion P kc me cfg events node =
     under_locks me (AcquireWriterLock me) (\<lambda>e. Wrapf ''ingestion: '' e '''')
       (andThen (lift (case Dial P (WebSocketURL (Ethereum cfg)) (RPCTimeout (Ethereum cfg)) of
           Inl e \<Rightarrow> Inl (Wrapf ''dial ethereum websocket: '' e '''') | Inr client \<Rightarrow> Inr client))
         (\<lambda>client. ingest_on kc (run_config_of P cfg) client events node))"

text \<open>
  \<open>internal/rpcapi/server.go\<close>: the HTTP server. How \<open>RegisterName\<close> ends and how the server's life
  ends are arguments: the listener returns an error (\<open>closed\<close> when it is \<open>http.ErrServerClosed\<close>), or the
  context ends and \<open>Shutdown\<close> has its own result.
\<close>

record http_server =
  srv_Addr :: string
  srv_ReadTimeout :: int
  srv_WriteTimeout :: int
  srv_IdleTimeout :: int

definition NewServer :: "err option \<Rightarrow> server_section \<Rightarrow> err + http_server" where
  "NewServer register cfg =
     (case register of
        Some e \<Rightarrow> Inl (Wrapf ''register eth namespace: '' e '''')
      | None \<Rightarrow> Inr \<lparr>srv_Addr = JoinHostPort (ServerHost cfg) (show_int (ServerPort cfg)), srv_ReadTimeout = ReadTimeout cfg,
          srv_WriteTimeout = WriteTimeout cfg, srv_IdleTimeout = IdleTimeout cfg\<rparr>)"

datatype server_end = ListenerEnds err bool | ContextEnds err "err option"

fun ServerRun :: "server_end \<Rightarrow> err option" where
  "ServerRun (ListenerEnds e closed) = (if closed then None else Some e)"
| "ServerRun (ContextEnds ctxErr shutdown) = (case shutdown of Some e \<Rightarrow> Some e | None \<Rightarrow> Some ctxErr)"

text \<open>
  \<open>runServe\<close>: the server and ingestion run side by side, and \<open>errgroup.Wait\<close> gives the first error of
  the two to return; whether the server returns first is an argument.
\<close>

record http_outcome =
  RegisterErr :: "err option"
  ServerEnd :: server_end
  ServerFirst :: bool

definition group_error :: "bool \<Rightarrow> err option \<Rightarrow> err option \<Rightarrow> err option" where
  "group_error first a b = (if first \<and> a \<noteq> None \<or> b = None then a else b)"

definition error_of :: "err + unit \<Rightarrow> err option" where
  "error_of r = (case r of Inl e \<Rightarrow> Some e | Inr _ \<Rightarrow> None)"

definition runServe ::
  "('env, 'p) platform \<Rightarrow> keccak \<Rightarrow> session \<Rightarrow> http_outcome \<Rightarrow> event list \<Rightarrow> 'p \<Rightarrow> string list \<Rightarrow> 'env \<Rightarrow> (lock_conn \<times> pg, err, unit) step" where
  "runServe P kc me http events node args env =
     andThen (lift (commonFlags P common_flag args env)) (\<lambda>(cfg, f).
     andThen (fail_with (OpenStore P (DSN (Database cfg)))) (\<lambda>_.
     andThen (lift (NewServer (RegisterErr http) (Server cfg))) (\<lambda>_.
     if IngestionEnabled (Ethereum cfg)
     then (\<lambda>s. case runIngestion P kc me cfg events node s of
         (r, t) \<Rightarrow> (case group_error (ServerFirst http) (ServerRun (ServerEnd http)) (error_of r) of
             Some e \<Rightarrow> (Inl e, t) | None \<Rightarrow> (Inr (), t)))
     else fail_with (ServerRun (ServerEnd http)))))"

text \<open>\<open>disk dir\<close> is the export at \<open>dir\<close>.\<close>

definition runBackfill ::
  "('env, 'p) platform \<Rightarrow> 'v libraries \<Rightarrow> (string \<Rightarrow> export_dir) \<Rightarrow> session \<Rightarrow> string list \<Rightarrow> 'env \<Rightarrow> (lock_conn \<times> pg, err, unit) step" where
  "runBackfill P V disk me args env =
     andThen (lift (commonFlags P backfill_flag args env)) (\<lambda>(cfg, f).
     if f_dir f = '''' then throw (ErrNew ''backfill: -dir is required'')
     else
     andThen (fail_with (OpenStore P (DSN (Database cfg)))) (\<lambda>_.
     under_locks me (AcquireBackfillLocks me) (\<lambda>e. Wrapf ''backfill: '' e '' (stop the service first)'')
       (runStages V (disk (f_dir f)) (f_stage f))))"

definition runRewind :: "('env, 'p) platform \<Rightarrow> session \<Rightarrow> string list \<Rightarrow> 'env \<Rightarrow> (lock_conn \<times> pg, err, unit) step" where
  "runRewind P me args env =
     andThen (lift (commonFlags P rewind_flag args env)) (\<lambda>(cfg, f).
     case f_to f of
       None \<Rightarrow> throw (ErrNew ''rewind: -to is required'')
     | Some n \<Rightarrow>
         andThen (fail_with (OpenStore P (DSN (Database cfg)))) (\<lambda>_.
         under_locks me (AcquireWriterLock me) (\<lambda>e. Wrapf ''rewind: '' e '' (stop the service first)'') (Rewind n)))"

section \<open>The process\<close>

definition exit_code :: "err + unit \<Rightarrow> nat" where
  "exit_code r = (case r of Inl e \<Rightarrow> if errors_Is e Canceled then 0 else 1 | Inr _ \<Rightarrow> 0)"

definition subcommand :: "string list \<Rightarrow> string \<times> string list" where
  "subcommand args =
     (if args \<noteq> [] \<and> hd args \<noteq> '''' \<and> hd (hd args) \<noteq> CHR ''-'' then (hd args, tl args) else (''serve'', args))"

text \<open>\<open>run\<close>: dispatch on the subcommand; the result is the exit code.\<close>

definition run_process ::
  "(string list \<Rightarrow> ('s, err, unit) step) \<Rightarrow> (string list \<Rightarrow> ('s, err, unit) step) \<Rightarrow> (string list \<Rightarrow> ('s, err, unit) step) \<Rightarrow>
    string list \<Rightarrow> 's \<Rightarrow> nat \<times> 's" where
  "run_process serve backfill rewind args s =
     (case subcommand args of (cmd, rest) \<Rightarrow>
        if cmd = ''serve'' then apfst exit_code (serve rest s)
        else if cmd = ''backfill'' then apfst exit_code (backfill rest s)
        else if cmd = ''rewind'' then apfst exit_code (rewind rest s)
        else (2, s))"

section \<open>A configuration that loads\<close>

lemma Load_Validate: "Load L file path env = Inr cfg \<Longrightarrow> Validate cfg = None"
  by (auto simp: Load_def Let_def split: config_read.splits sum.splits option.splits)

lemma Validate_None:
  assumes "Validate cfg = None"
  shows "DBHost (Database cfg) \<noteq> ''''" "IngestionEnabled (Ethereum cfg) \<Longrightarrow> WebSocketURL (Ethereum cfg) \<noteq> ''''"
    "EthMaxCatchupBlocks (Ethereum cfg) = 0 \<or> EthConfirmationBlocks (Ethereum cfg) < EthMaxCatchupBlocks (Ethereum cfg)"
    "EthChainID (Ethereum cfg) = MainnetChainID" "2 \<le> MaxConns (Database cfg)" "0 < QueryTimeout (RPC cfg)" "0 \<le> RPCMaxResults (RPC cfg)"
  using assms by (auto simp: Validate_def missing_keys_def Let_def not_less not_le split: if_splits)

lemma next_gap: "m < M \<Longrightarrow> g \<le> m \<Longrightarrow> g + 1 \<le> (M :: u64)"
  by (metis inc_le le_less_trans)

text \<open>
  C38. A configuration that loads can be used: the process follows mainnet, it has a database to connect to,
  a connection beside the one its locks hold and a deadline for its reads, a node to dial when it
  ingests, and its catch-up bound admits every gap that waiting for the confirmations opens, so
  ingestion at the head of the chain is never refused for being behind.
\<close>

theorem loaded_config_usable:
  assumes "Load L file path env = Inr cfg"
  shows "RunChainID (run_config_of P cfg) = MainnetChainID \<and> DBHost (Database cfg) \<noteq> '''' \<and> 2 \<le> MaxConns (Database cfg) \<and>
    0 < QueryTimeout (RPC cfg) \<and> 0 \<le> RPCMaxResults (RPC cfg) \<and>
    (IngestionEnabled (Ethereum cfg) \<longrightarrow> WebSocketURL (Ethereum cfg) \<noteq> '''') \<and>
    (\<forall>n tip s. n \<le> tip \<and> tip - n \<le> EthConfirmationBlocks (Ethereum cfg) \<longrightarrow>
       checkCatchupBound (LoopConfig (run_config_of P cfg)) n tip s = (Inr (), s))"
proof -
  note valid = Validate_None [OF Load_Validate [OF assms]]
  have "checkCatchupBound (LoopConfig (run_config_of P cfg)) n tip s = (Inr (), s)"
    if "n \<le> tip" "tip - n \<le> EthConfirmationBlocks (Ethereum cfg)" for n tip s
    using valid(3) next_gap [OF _ that(2)] by (auto simp: checkCatchupBound_cases run_config_of_def not_less)
  then show ?thesis using valid(1,2,4-) by (auto simp: run_config_of_def)
qed

section \<open>A writer at work\<close>

text \<open>Another session holds the writer lock when each statement of this one is served.\<close>

definition writer_elsewhere :: "session \<Rightarrow> lock_conn \<Rightarrow> bool" where
  "writer_elsewhere me c \<longleftrightarrow> (\<forall>n t. \<exists>s. s \<noteq> me \<and> (s, writerLockKey, Exclusive) \<in> set (others c n t))"

lemma tryLock_refused:
  assumes "writer_elsewhere me c"
  shows "\<exists>e d. tryLock me writer_request c = (Inl e, d)"
proof -
  have "\<not> grantable me writerLockKey Exclusive (others c n t)" for n t
    using assms by (fastforce simp: writer_elsewhere_def grantable_def conflict_def)
  then show ?thesis
    unfolding tryLock_def
    by (subst tryLock_until.simps) (auto simp: lock_statement_def try_advisory_def
        writer_request_def Let_def split: option.splits fault.splits)
qed

lemma acquireLocks_refused:
  assumes "writer_elsewhere me c"
  shows "\<exists>e d. acquireLocks me (writer_request # reqs) c = (Inl e, d)"
proof -
  obtain r c1 where s: "lock_statement (\<lambda>t. ((), t)) c = (r, c1)" by fastforce
  then have "writer_elsewhere me c1"
    using assms by (auto simp: lock_statement_def writer_elsewhere_def Let_def split: option.splits fault.splits)
  from tryLock_refused [OF this] show ?thesis
    using s by (cases r) (auto simp: acquireLocks_def andThen_def)
qed

lemma under_locks_refused:
  "acquire c = (Inl e, d) \<Longrightarrow> \<exists>e' d'. under_locks me acquire wrap body (c, s) = (Inl e', (d', s))"
  by (simp add: under_locks_def)

lemmas refused = acquireLocks_refused [of _ _ "[]", folded AcquireWriterLock_def]
  acquireLocks_refused [of _ _ "[maintenance_request]", folded AcquireBackfillLocks_def]

text \<open>What a process does that is refused its locks, whatever the reason.\<close>

lemma refused_commands:
  assumes w: "\<exists>e x. AcquireWriterLock me c = (Inl e, x)" and b: "\<exists>e x. AcquireBackfillLocks me c = (Inl e, x)"
  shows "(\<exists>e c'. runIngestion P kc me cfg events node (c, d) = (Inl e, (c', d))) \<and>
    (\<exists>e c'. runBackfill P V disk me args env (c, d) = (Inl e, (c', d))) \<and>
    (\<exists>e c'. runRewind P me args env (c, d) = (Inl e, (c', d))) \<and>
    snd (snd (runServe P kc me http events node args env (c, d))) = d"
proof (intro conjI)
  have writer: "\<exists>e c'. under_locks me (AcquireWriterLock me) wrap body (c, d) = (Inl e, (c', d))" for wrap and body :: "(pg, err, unit) step"
    using w under_locks_refused by metis
  have both: "\<exists>e c'. under_locks me (AcquireBackfillLocks me) wrap body (c, d) = (Inl e, (c', d))" for wrap and body :: "(pg, err, unit) step"
    using b under_locks_refused by metis
  show ingestion: "\<exists>e c'. runIngestion P kc me cfg events node (c, d) = (Inl e, (c', d))" for cfg
    unfolding runIngestion_def by (rule writer)
  show "\<exists>e c'. runBackfill P V disk me args env (c, d) = (Inl e, (c', d))"
    using both unfolding runBackfill_def
    by (auto simp: andThen_def lift_def fail_with_def throw_def ret_def split: sum.splits option.splits prod.splits)
  show "\<exists>e c'. runRewind P me args env (c, d) = (Inl e, (c', d))"
    using writer unfolding runRewind_def
    by (auto simp: andThen_def lift_def fail_with_def throw_def ret_def split: sum.splits option.splits prod.splits)
  have "snd (snd (runIngestion P kc me cfg events node (c, d))) = d" for cfg
    using ingestion [of cfg] by auto
  then show "snd (snd (runServe P kc me http events node args env (c, d))) = d"
    by (simp add: runServe_def andThen_def lift_def fail_with_def throw_def ret_def case_prod_beta split: sum.split option.split)
qed

text \<open>
  C11. While another process holds the writer lock, this one writes nothing: ingestion, a backfill and a
  rewind all end with an error, without one statement on any other connection, whatever the
  arguments, the configuration and the failures of the connection that asks for the lock; a service
  keeps the warehouse as it is.
\<close>

theorem busy_writers_are_refused:
  assumes "writer_elsewhere me c"
  shows "(\<exists>e c'. runIngestion P kc me cfg events node (c, d) = (Inl e, (c', d))) \<and>
    (\<exists>e c'. runBackfill P V disk me args env (c, d) = (Inl e, (c', d))) \<and>
    (\<exists>e c'. runRewind P me args env (c, d) = (Inl e, (c', d))) \<and>
    snd (snd (runServe P kc me http events node args env (c, d))) = d"
  using refused [OF assms] by (rule refused_commands)

section \<open>Exclusion\<close>

text \<open>What the code that acquires locks gives: the locks asked for, in a table without conflicts.\<close>

lemma acquireLocks_takes:
  assumes "acquireLocks me reqs c = (Inr u, d)" "polite me c" "no_conflicts (locks c)"
  shows "no_conflicts (locks d) \<and> (\<forall>r \<in> set reqs. (lr_key r, Exclusive) \<in> set (own_locks me (locks d)))"
proof -
  obtain y c1 where s: "lock_statement (\<lambda>t. ((), t)) c = (y, c1)" by fastforce
  then have c1: "same_others c c1" "no_conflicts (locks c1)"
    using assms(2,3) by (auto simp: lock_statement_def polite_def same_others_def Let_def split: option.splits fault.splits)
  have "polite me c1" using polite_same [OF c1(1)] assms(2) by simp
  moreover have "for_each reqs (tryLock me) c1 = (Inr u, d)"
    using assms(1) s by (auto simp: acquireLocks_def split: sum.splits prod.splits)
  ultimately show ?thesis using for_each_tryLock [OF _ _ c1(2)] by fastforce
qed

lemma acquired_writer:
  assumes "AcquireWriterLock me c = (Inr u, d) \<or> AcquireBackfillLocks me c = (Inr u, d)" "polite me c" "no_conflicts (locks c)"
  shows "no_conflicts (locks d)" "(writerLockKey, Exclusive) \<in> set (own_locks me (locks d))"
  using assms(1) acquireLocks_takes [OF _ assms(2,3), of "[writer_request]"]
    acquireLocks_takes [OF _ assms(2,3), of "[writer_request, maintenance_request]"]
  by (auto simp: AcquireWriterLock_def AcquireBackfillLocks_def writer_request_def)

lemma acquired_maintenance:
  assumes "AcquireBackfillLocks me c = (Inr u, d)" "polite me c" "no_conflicts (locks c)"
  shows "(maintenanceLockKey, Exclusive) \<in> set (own_locks me (locks d))"
  using acquireLocks_takes [OF assms(1) [unfolded AcquireBackfillLocks_def] assms(2,3)] by (simp add: maintenance_request_def)

text \<open>
  The locks of session \<open>s\<close>, acquired in \<open>d\<close>, are still in the table \<open>t\<close>: its connection lives and it has not
  unlocked.
\<close>

definition still_held :: "session \<Rightarrow> lock_conn \<Rightarrow> lock_table \<Rightarrow> bool" where
  "still_held s d t \<longleftrightarrow> set (own_locks s (locks d)) \<subseteq> set (own_locks s t)"

lemma Read_refused: "maintenance_locked q \<Longrightarrow> \<exists>e q'. Read fn q = (Inl e, q') \<and> tab q' = tab q"
  by (auto simp: Read_def read_body_def admitted_def query_def exec_def andThen_def onErr_def gets_def throw_def
      rollback_def Let_def split: prod.splits sum.splits option.splits fault.splits)

lemma shared_refused: "(key, Exclusive) \<in> set (own_locks s t) \<Longrightarrow> u \<noteq> s \<Longrightarrow> \<not> fst (try_advisory u key Shared t)"
  unfolding own_locks_iff by (auto simp: try_advisory_def grantable_def conflict_def)

text \<open>
  C9. Writers exclude each other. Let one process have acquired the locks of a writer (ingestion, a rewind or
  a backfill), with any other sessions at work between its statements. Any other process whose own
  acquisition, whenever it began, ends while these locks are still held, ends with an error as
  ingestion, as a backfill and as a rewind, and leaves the warehouse without one statement; as a
  service it leaves it as it is. When the locks are those of a backfill, no reader had a snapshot open at the
  moment they were acquired, and every read that asks while they are held is refused. The locks are
  held by one connection: the premise does not cover a writer whose lock connection is lost while
  its other connections go on.
\<close>

theorem writers_exclude:
  assumes "AcquireWriterLock s c = (Inr (), d) \<or> AcquireBackfillLocks s c = (Inr (), d)" "polite s c" "no_conflicts (locks c)"
    and "me \<noteq> s" "polite me c'" "no_conflicts (locks c')"
    and "still_held s d (locks (snd (AcquireWriterLock me c')))" "still_held s d (locks (snd (AcquireBackfillLocks me c')))"
  shows "(\<exists>e x. runIngestion P kc me cfg events node (c', p) = (Inl e, (x, p))) \<and>
    (\<exists>e x. runBackfill P V disk me args env (c', p) = (Inl e, (x, p))) \<and>
    (\<exists>e x. runRewind P me args env (c', p) = (Inl e, (x, p))) \<and>
    snd (snd (runServe P kc me http events node args env (c', p))) = p \<and>
    (AcquireBackfillLocks s c = (Inr (), d) \<longrightarrow>
      (\<forall>u m. (maintenanceLockKey, m) \<in> set (own_locks u (locks d)) \<longrightarrow> u = s) \<and>
      (\<forall>u t q. u \<noteq> s \<and> still_held s d t \<and> maintenance_locked q = (\<not> fst (try_advisory u maintenanceLockKey Shared t)) \<longrightarrow>
        (\<exists>e q'. Read fn q = (Inl e, q') \<and> tab q' = tab q)))"
proof -
  note mine = acquired_writer [OF assms(1-3)]
  have refused: "\<exists>e x. acquire c' = (Inl e, x)"
    if "acquire = AcquireWriterLock me \<or> acquire = AcquireBackfillLocks me" for acquire
  proof (rule ccontr)
    obtain r x where run: "acquire c' = (r, x)" by fastforce
    assume "\<nexists>e x. acquire c' = (Inl e, x)"
    then have ok: "acquire c' = (Inr (), x)" using run by (cases r) auto
    then have "AcquireWriterLock me c' = (Inr (), x) \<or> AcquireBackfillLocks me c' = (Inr (), x)" using that by metis
    note theirs = acquired_writer [OF this assms(5,6)]
    have "still_held s d (locks x)" using assms(7,8) ok that by auto
    then have "(writerLockKey, Exclusive) \<in> set (own_locks s (locks x))" using mine(2) by (auto simp: still_held_def)
    from exclusive_alone [OF theirs(1) this theirs(2)] show False using assms(4) by simp
  qed
  have alone: "u = s" if "AcquireBackfillLocks s c = (Inr (), d)" "(maintenanceLockKey, m) \<in> set (own_locks u (locks d))" for u m
    by (rule exclusive_alone [OF mine(1) acquired_maintenance [OF that(1) assms(2,3)] that(2)])
  have reads: "\<exists>e q'. Read fn q = (Inl e, q') \<and> tab q' = tab q"
    if "AcquireBackfillLocks s c = (Inr (), d)" "u \<noteq> s" "still_held s d t" "maintenance_locked q = (\<not> fst (try_advisory u maintenanceLockKey Shared t))"
    for u t q
  proof (rule Read_refused)
    have "(maintenanceLockKey, Exclusive) \<in> set (own_locks s t)"
      using acquired_maintenance [OF that(1) assms(2,3)] that(3) unfolding still_held_def by blast
    from shared_refused [OF this that(2)] show "maintenance_locked q" using that(4) by simp
  qed
  have "\<exists>e x. AcquireWriterLock me c' = (Inl e, x)" "\<exists>e x. AcquireBackfillLocks me c' = (Inl e, x)"
    by (rule refused, simp)+
  note none = refused_commands [OF this]
  note none = none [THEN conjunct1] none [THEN conjunct2, THEN conjunct1] none [THEN conjunct2, THEN conjunct2, THEN conjunct1]
    none [THEN conjunct2, THEN conjunct2, THEN conjunct2]
  show ?thesis
  proof (intro conjI impI none)
    assume b: "AcquireBackfillLocks s c = (Inr (), d)"
    show "\<forall>u m. (maintenanceLockKey, m) \<in> set (own_locks u (locks d)) \<longrightarrow> u = s"
      by (intro allI impI) (rule alone [OF b])
    show "\<forall>u t q. u \<noteq> s \<and> still_held s d t \<and> maintenance_locked q = (\<not> fst (try_advisory u maintenanceLockKey Shared t)) \<longrightarrow>
        (\<exists>e q'. Read fn q = (Inl e, q') \<and> tab q' = tab q)"
      by (intro allI impI, elim conjE) (rule reads [OF b])
  qed
qed

text \<open>
  What the premise leaves out: when the connection that holds the locks is lost, the server drops
  them and another writer acquires them, while the first process still has its pool.
\<close>

lemma lost_connection_admits_another:
  "fst (AcquireWriterLock 1 (racing [(0, writerLockKey, Exclusive)] (\<lambda>n t. if n = 1 then unlock_all 0 t else t))) = Inr ()"
  by code_simp

end
