(* ===== verification/System.thy ===== *)
theory System
  imports Commands
begin

text \<open>
  The whole program over time: processes that serve, backfill and rewind, one after the other, each
  with any arguments, any configuration and any failure. \<open>in_order a b\<close> is what they keep: the tables
  are in order but for the interval \<open>[a, b]\<close> of the exports, and where the block rows of that
  interval may be missing the maintenance flag is up.
\<close>

section \<open>The warehouse with a hole\<close>

text \<open>The tables with block rows added for the missing heights: in order exactly when the rest is.\<close>

definition filled :: "block_row list \<Rightarrow> tables \<Rightarrow> tables" where
  "filled g t = t\<lparr>eth_blocks := g @ eth_blocks t\<rparr>"

lemma filled_simps [simp]:
  "eth_blocks (filled g t) = g @ eth_blocks t" "eth_logs (filled g t) = eth_logs t" "partitions (filled g t) = partitions t"
  "ingest_cursor (filled g t) = ingest_cursor t" "maintenance (filled g t) = maintenance t"
  "coverage_of (filled g t) = coverage_of t" "routed (filled g t) r = routed t r"
  by (simp_all add: filled_def coverage_of_def routed_def)

text \<open>The rows to add, one for each height of the interval without one.\<close>

definition ghost :: "int \<Rightarrow> block_row" where
  "ghost i = BlockRow \<lparr>blkNumber = uint64 i, blkHash = 0, blkTimestamp = 0\<rparr>"

definition ghosts :: "u64 \<Rightarrow> u64 \<Rightarrow> tables \<Rightarrow> block_row list" where
  "ghosts a b t = map ghost (filter (\<lambda>i. i \<notin> b_number ` set (eth_blocks t)) [int64 a..int64 b])"

definition within_hole :: "u64 \<Rightarrow> u64 \<Rightarrow> block_row list \<Rightarrow> bool" where
  "within_hole a b g \<longleftrightarrow> b_number ` set g \<subseteq> {int64 a..int64 b}"

lemma ghost_facts: "0 \<le> i \<Longrightarrow> i < 2 ^ 63 \<Longrightarrow> b_number (ghost i) = i \<and> stored_block (ghost i)"
  unfolding ghost_def stored_block_def
  by (auto simp: BlockRow_simps int64_uint64 fits_uint64 intro!: exI [of _ "\<lparr>blkNumber = uint64 i, blkHash = 0, blkTimestamp = 0\<rparr>"])

lemma interval_bounds:
  assumes "a \<le> b" "plausible b" "i \<in> {int64 a..int64 b}"
  shows "0 \<le> i" "i < 2 ^ 63"
proof -
  have f: "fits_int64 b" "fits_int64 a" using assms(1,2) plausible_fits fits_int64_mono by blast+
  show "0 \<le> i" using assms(3) int64_nonneg [OF f(2)] by simp
  show "i < 2 ^ 63" using assms(3) f(1) by (simp add: int64_unat fits_int64_nat del: of_nat_unat)
qed

lemma repairable_filled:
  assumes "repairable a b t" "a \<le> b" "plausible b"
  shows "within_hole a b (ghosts a b t)" "warehouse_ok (filled (ghosts a b t) t)"
proof -
  let ?g = "ghosts a b t"
  have num: "b_number (ghost i) = i" "stored_block (ghost i)" if "i \<in> {int64 a..int64 b}" for i
    using ghost_facts interval_bounds [OF assms(2,3) that] by blast+
  let ?free = "filter (\<lambda>i. i \<notin> b_number ` set (eth_blocks t)) [int64 a..int64 b]"
  have nums: "map b_number ?g = ?free"
    unfolding ghosts_def map_map by (rule map_idI) (auto simp: num)
  have "b_number ` set ?g = set ?free" unfolding nums [symmetric] by simp
  then have heights: "b_number ` set ?g = {int64 a..int64 b} - b_number ` set (eth_blocks t)" by auto
  then show "within_hole a b ?g" by (auto simp: within_hole_def)
  have "distinct (map b_number (eth_blocks (filled ?g t)))"
    using assms(1) unfolding filled_simps map_append nums by (simp add: repairable_def unique_heights_def disjoint_iff)
  moreover have "\<forall>k \<in> set (eth_blocks (filled ?g t)). stored_block k"
    using assms(1) num by (auto simp: repairable_def ghosts_def)
  moreover have "covered (filled ?g t) c h" if "{c..h} - {int64 a..int64 b} \<subseteq> b_number ` set (eth_blocks t)" for c h
    using that heights by (auto simp: covered_def image_Un)
  ultimately show "warehouse_ok (filled ?g t)"
    using assms(1) by (auto simp: repairable_def warehouse_ok_def covered_but_def split: option.splits)
qed

lemma filled_repairable:
  assumes "warehouse_ok (filled g t)" "within_hole a b g"
  shows "repairable a b t"
proof -
  have "{c..h} - {int64 a..int64 b} \<subseteq> b_number ` set (eth_blocks t)" if "covered (filled g t) c h" for c h
    using that assms(2) unfolding covered_def within_hole_def filled_simps set_append image_Un by blast
  then show ?thesis
    using assms(1) by (auto simp: repairable_def warehouse_ok_def covered_but_def unique_heights_def split: option.splits)
qed

lemma repairable_iff: "a \<le> b \<Longrightarrow> plausible b \<Longrightarrow> repairable a b t \<longleftrightarrow> (\<exists>g. within_hole a b g \<and> warehouse_ok (filled g t))"
  using repairable_filled filled_repairable by blast

text \<open>The writer and the rewind do to the filled tables what they do to the tables.\<close>

lemma write_committed_filled:
  assumes w: "write_committed from to blocks logs t0 t" and ok: "warehouse_ok (filled g t0)" and b: "batch_covers from to blocks logs"
  defines "h \<equiv> filter (\<lambda>k. \<not> (int64 from \<le> b_number k \<and> b_number k \<le> int64 to)) g"
  shows "write_committed from to blocks logs (filled g t0) (filled h t)"
proof -
  note f = write_committed_fields [OF w]
  have pl: "plausible to" "blkNumber ` set blocks = {from..to}" using b by (simp_all add: batch_covers_def)
  have "distinct (map b_number (eth_blocks (cleared from to (filled g t0))))"
    using cleared_distinct(1) [of "filled g t0"] ok by (simp add: warehouse_ok_def)
  moreover have blocks: "eth_blocks (cleared from to (filled g t0)) = h @ eth_blocks (cleared from to t0)"
    by (simp add: cleared_def delete_blocks_between_def delete_logs_between_def h_def filled_def)
  moreover have new: "int64 from \<le> b_number k \<and> b_number k \<le> int64 to" if "k \<in> set (map BlockRow blocks)" for k
  proof -
    obtain x where x: "x \<in> set blocks" "k = BlockRow x" using \<open>k \<in> set (map BlockRow blocks)\<close> by auto
    then have "from \<le> blkNumber x" "blkNumber x \<le> to" using pl(2) by auto
    moreover from this have "fits_int64 to" "fits_int64 (blkNumber x)" "fits_int64 from"
      using plausible_fits [OF pl(1)] fits_int64_mono by blast+
    ultimately show ?thesis using x(2) by (simp add: BlockRow_simps int64_le_iff)
  qed
  ultimately have "b_number ` set h \<inter> b_number ` set (eth_blocks t) = {}" "distinct (map b_number h)"
    unfolding blocks f(1) by (simp, fastforce simp: h_def, simp)
  then have "distinct (map b_number (h @ eth_blocks t))"
    using w by (simp add: write_committed_def)
  moreover have "(filled h t)\<lparr>partitions := partitions (filled g t0)\<rparr> = write_effect from to blocks logs (filled g t0)"
  proof -
    have eq: "t\<lparr>partitions := partitions t0\<rparr> = write_effect from to blocks logs t0"
      using w by (simp add: write_committed_def)
    have "(filled h t)\<lparr>partitions := partitions (filled g t0)\<rparr> = (t\<lparr>partitions := partitions t0\<rparr>)\<lparr>eth_blocks := h @ eth_blocks t\<rparr>"
      by (simp add: filled_def)
    then show ?thesis
      unfolding eq f(1)
      by (simp add: write_effect_def Let_def filled_def delete_blocks_between_def delete_logs_between_def h_def cleared_def coverage_of_def)
  qed
  ultimately show ?thesis using w by (auto simp: write_committed_def)
qed

lemma rewound_filled:
  assumes "rewound to t0 t"
  shows "rewound to (filled g t0) (filled (filter (\<lambda>k. \<not> b_number k > int64 to) g) t)"
  using assms by (auto simp: rewound_by_deletes filled_def delete_blocks_above_def delete_logs_above_def coverage_of_def)

section \<open>What the processes keep\<close>

definition in_order :: "u64 \<Rightarrow> u64 \<Rightarrow> tables \<Rightarrow> bool" where
  "in_order a b t \<longleftrightarrow> repairable a b t \<and> (maintenance t \<or> warehouse_ok t)"

lemma in_order_fresh: "in_order a b fresh_tables"
  using warehouse_ok_repairable [OF fresh_ok] fresh_ok by (simp add: in_order_def)

lemma write_in_order:
  assumes "a \<le> b" "plausible b" "in_order a b t0" "batch_covers from to blocks logs" "write_committed from to blocks logs t0 t"
  shows "in_order a b t"
proof -
  obtain g where g: "within_hole a b g" "warehouse_ok (filled g t0)"
    using assms(1-3) repairable_iff by (auto simp: in_order_def)
  let ?h = "filter (\<lambda>k. \<not> (int64 from \<le> b_number k \<and> b_number k \<le> int64 to)) g"
  have "warehouse_ok (filled ?h t)"
    by (rule write_committed_ok [OF g(2) assms(4) write_committed_filled [OF assms(5) g(2) assms(4)]])
  moreover have "within_hole a b ?h" using g(1) by (auto simp: within_hole_def)
  ultimately have "repairable a b t" by (rule filled_repairable)
  then show ?thesis
    using assms(3) write_committed_ok [OF _ assms(4,5)] write_committed_fields(5) [OF assms(5)] by (auto simp: in_order_def)
qed

lemma rewind_in_order:
  assumes "a \<le> b" "plausible b" "in_order a b t0" "rewound to t0 t"
  shows "in_order a b t"
proof -
  obtain g where g: "within_hole a b g" "warehouse_ok (filled g t0)"
    using assms(1-3) repairable_iff by (auto simp: in_order_def)
  let ?h = "filter (\<lambda>k. \<not> b_number k > int64 to) g"
  have "warehouse_ok (filled ?h t)" by (rule rewound_ok [OF g(2) rewound_filled [OF assms(4)]])
  moreover have "within_hole a b ?h" using g(1) by (auto simp: within_hole_def)
  ultimately have "repairable a b t" by (rule filled_repairable)
  moreover have "maintenance t = maintenance t0"
    using assms(4) by (auto simp: rewound_by_deletes delete_blocks_above_def delete_logs_above_def)
  ultimately show ?thesis using assms(3) rewound_ok [OF _ assms(4)] by (auto simp: in_order_def)
qed

lemma uncovered_ok: "repairable a b t \<Longrightarrow> coverage_of t = None \<Longrightarrow> warehouse_ok t"
  by (auto simp: repairable_def warehouse_ok_def unique_heights_def coverage_of_def split: option.splits)

lemma warehouse_ok_same_rows: "warehouse_ok t \<Longrightarrow> same_rows t t' \<Longrightarrow> partitions t' = partitions t \<Longrightarrow> warehouse_ok t'"
  by (auto simp: warehouse_ok_def same_rows_def covered_def routed_def split: option.splits)

lemma backfill_step_in_order:
  assumes fam: "export_family V Xs a b" and ok: "in_order a b t" and step: "backfill_step V Xs t t'"
  shows "in_order a b t'"
proof -
  have r': "repairable a b t'" using step_repairable [OF fam _ step] ok by (simp add: in_order_def)
  have whole: "warehouse_ok t" if "X \<in> Xs" "readManifest X = Inr m" "export_verified V X m t" for X m
  proof -
    have m: "BlocksFirst m = a" "BlocksLast m = b" "plausible b" using fam that(1,2) by (auto simp: export_family_def)
    have "covered t (int64 a) (int64 b)"
      using verified_covered [OF that(2,3)] ok m by (simp add: in_order_def repairable_def)
    then show ?thesis using repairable_warehouse_ok [of a b t] ok by (simp add: in_order_def)
  qed
  have guard: "maintenance t' \<or> warehouse_ok t'"
    if "guarded t" "ingest_cursor t' = ingest_cursor t" "maintenance t' = maintenance t"
    using that uncovered_ok [OF r'] by (auto simp: guarded_def coverage_of_def)
  have "maintenance t' \<or> warehouse_ok t'"
    using step
  proof cases
    case (Partitioned X m part)
    have keeps: "maintenance t' = maintenance t" "same_rows t t'"
      using Partitioned(4) same_rows_steps(3) by (auto simp: create_partition_def split: if_splits)
    have "warehouse_ok t \<Longrightarrow> warehouse_ok t'"
      using r' keeps(2) by (auto simp: warehouse_ok_def repairable_def same_rows_def unique_heights_def covered_def split: option.splits)
    then show ?thesis using ok keeps(1) by (auto simp: in_order_def)
  next
    case (Dropped name)
    then show ?thesis
      using ok warehouse_ok_same_rows [OF _ same_rows_steps(2), of t name] by (auto simp: in_order_def drop_index_def)
  next
    case (Indexed name)
    then have "t' = t\<lparr>indexes := indexes t @ [name]\<rparr>" by (simp add: create_index_def split: if_splits)
    then show ?thesis
      using ok warehouse_ok_same_rows [OF _ same_rows_steps(4) [OF Indexed]] by (auto simp: in_order_def)
  next
    case (PartLoaded X m part)
    then show ?thesis using guard part_loaded_keeps [OF PartLoaded(5)] by simp
  next
    case (BlocksLoaded X m)
    then show ?thesis using guard blocks_loaded_keeps [OF BlocksLoaded(4)] by simp
  next
    case (Published X m)
    have m: "BlocksFirst m = a" "BlocksLast m = b" "plausible b" "a \<le> b" using fam Published(1,2) by (auto simp: export_family_def)
    have "covered t (int64 a) (int64 b)"
      using verified_covered [OF Published(2,3)] ok m by (simp add: in_order_def repairable_def)
    then show ?thesis using published_ok [OF whole [OF Published(1-3)] Published(4)] m by simp
  next
    case (Cleared X m)
    then show ?thesis
      using warehouse_ok_same_rows [OF whole [OF Cleared(2-4)] same_rows_steps(1)] by simp
  qed simp
  with r' show ?thesis by (simp add: in_order_def)
qed

lemma moves_in_order: "export_family V Xs a b \<Longrightarrow> in_order a b t \<Longrightarrow> moves V Xs t t' \<Longrightarrow> in_order a b t'"
  by (rotate_tac 2, induction rule: rtranclp_induct) (simp_all add: backfill_step_in_order)

definition held :: "'v libraries \<Rightarrow> export_dir set \<Rightarrow> u64 \<Rightarrow> u64 \<Rightarrow> tables \<Rightarrow> bool" where
  "held V Xs a b t \<longleftrightarrow> export_family V Xs a b \<and> in_order a b t"

lemma held_head:
  assumes "held V Xs a b t" "coverage_of t = Some c"
  shows "fits_int64 (covHead c)"
proof -
  obtain x y where xy: "ingest_cursor t = Some (x, y)" "c = \<lparr>covStart = uint64 x, covHead = uint64 y\<rparr>"
    using assms(2) by (auto simp: coverage_of_def split: option.splits prod.splits)
  then have "0 \<le> y" "y < 2 ^ 63"
    using assms(1) by (auto simp: held_def in_order_def repairable_def covered_but_def)
  then show ?thesis using xy(2) by (simp add: fits_uint64)
qed

section \<open>Commands that keep an invariant\<close>

text \<open>A command ends with the invariant when it starts with it, whatever it returns.\<close>

definition keeping :: "('s \<Rightarrow> bool) \<Rightarrow> ('s, err, 'a) step \<Rightarrow> bool" where
  "keeping J m \<longleftrightarrow> triple J m (\<lambda>_. J) (\<lambda>_. J)"

named_theorems keeping_rules

lemma keepingI: "(\<And>s. J s \<Longrightarrow> J (snd (m s))) \<Longrightarrow> keeping J m"
  unfolding keeping_def by (rule tripleI) (metis snd_conv)+

lemma keepingD: "keeping J m \<Longrightarrow> J s \<Longrightarrow> J (snd (m s))"
  using triple_value [of J m "\<lambda>_. J" "\<lambda>_. J"] triple_error [of J m "\<lambda>_. J" "\<lambda>_. J"]
  unfolding keeping_def by (metis prod.collapse sum.exhaust)

lemma keeping_andThen [keeping_rules]: "keeping J m \<Longrightarrow> (\<And>x. keeping J (f x)) \<Longrightarrow> keeping J (andThen m f)"
  unfolding keeping_def by (rule triple_andThen)

lemma keeping_lift [keeping_rules]: "keeping J (lift r)"
  by (rule keepingI) (simp add: lift_def ret_def throw_def split: sum.splits)

lemma keeping_fail [keeping_rules]: "keeping J (fail_with e)" "keeping J (throw e')"
  unfolding keeping_def by (rule tripleI; auto simp: fail_with_def throw_def ret_def split: option.splits)+

lemma keeping_onErr [keeping_rules]: "keeping J m \<Longrightarrow> keeping J (onErr g m)"
  unfolding keeping_def by (rule triple_onErr)

lemma keeping_for_each: "(\<And>x. keeping J (body x)) \<Longrightarrow> keeping J (for_each xs body)"
proof (induction xs)
  case Nil
  then show ?case by (simp add: keeping_def triple_ret)
qed (simp add: keeping_andThen)

text \<open>The locks come and go beside the state of the command.\<close>

lemma keeping_under_locks [keeping_rules]:
  "keeping J body \<Longrightarrow> keeping (\<lambda>(c, s). J s) (under_locks me acquire wrap body)"
  by (rule keepingI) (auto simp: under_locks_def split: prod.splits sum.splits dest!: keepingD)

definition stays :: "(tables \<Rightarrow> bool) \<Rightarrow> pg \<Rightarrow> bool" where
  "stays I d \<longleftrightarrow> I (tab d)"

definition holds :: "(tables \<Rightarrow> bool) \<Rightarrow> pg \<Rightarrow> bool" where
  "holds I d \<longleftrightarrow> I (tab d) \<and> quiet_faults d"

text \<open>What is asked of the node a process dials, under the configuration it loads.\<close>

definition dials :: "(('p, pg) subscriber \<Rightarrow> bool) \<Rightarrow> keccak \<Rightarrow> ('env, 'p) platform \<Rightarrow> 'env \<Rightarrow> bool" where
  "dials Node kc P env \<longleftrightarrow>
     (\<forall>args cfg f client. commonFlags P common_flag args env = Inr (cfg, f) \<and>
        Dial P (WebSocketURL (Ethereum cfg)) (RPCTimeout (Ethereum cfg)) = Inr client \<longrightarrow>
        Node (subscriber_of kc (run_config_of P cfg) client pg_store))"

text \<open>
  An invariant of the tables that every writer keeps: the batches of ingestion from the nodes
  \<open>Node\<close> admits, rewinds, and the steps of backfills from the exports \<open>Xs\<close>.
\<close>

locale kept_by_commands = table_invariant I Good
  for I :: "tables \<Rightarrow> bool" and Good :: "u64 \<Rightarrow> u64 \<Rightarrow> block list \<Rightarrow> log list \<Rightarrow> bool" +
  fixes V :: "'v libraries" and Xs :: "export_dir set"
    and Node :: "('p, pg) subscriber \<Rightarrow> bool" and Seen :: "block_head \<Rightarrow> bool"
  assumes moves_keep: "I t0 \<Longrightarrow> moves V Xs t0 t1 \<Longrightarrow> I t1"
    and node_ordinary: "Node S \<Longrightarrow> ordinary S Seen"
    and node_good: "Node S \<Longrightarrow> good_batch S Seen f t bs ls \<Longrightarrow> Good f t bs ls"
begin

lemma ingest_on_keeps:
  assumes "Node (subscriber_of kc cfg client pg_store)" "\<forall>ev \<in> set events. event_ok Seen ev"
  shows "keeping (holds I) (ingest_on kc cfg client events node)"
proof (rule keepingI)
  fix d assume d: "holds I d"
  let ?s = "\<lparr>provider = node, warehouse = d, stream = \<lparr>st_next = 0, st_lowerBound = 0, st_tip = 0, st_heads = []\<rparr>\<rparr>"
  obtain r t where run: "RunIngestion kc cfg client pg_store events ?s = (r, t)" by fastforce
  have "quiet_faults (warehouse ?s)" using d by (simp add: holds_def)
  with run have "holds I (warehouse t)"
  proof (rule RunIngestion_parts)
    fix "from" u assume u: "Run (subscriber_of kc cfg client pg_store) from events u = (r, t)"
      "tab (warehouse u) = tab (warehouse ?s)" "quiet_faults (warehouse u)" "next_is (warehouse u) from"
    then have "I (tab (warehouse u)) \<and> quiet_faults (warehouse u)" using d by (simp add: holds_def)
    from Run_on_tables [OF node_good [OF assms(1)] subscriber_sink node_ordinary [OF assms(1)] assms(2) this u(4)] u(1)
    show ?thesis by (cases r) (simp_all add: holds_def)
  qed (use d in \<open>simp add: holds_def\<close>)
  then show "holds I (snd (ingest_on kc cfg client events node d))" by (simp add: ingest_on_def run)
qed

lemma runIngestion_keeps:
  assumes "\<And>client. Dial P (WebSocketURL (Ethereum cfg)) (RPCTimeout (Ethereum cfg)) = Inr client \<Longrightarrow>
      Node (subscriber_of kc (run_config_of P cfg) client pg_store)"
    and "\<forall>ev \<in> set events. event_ok Seen ev"
  shows "keeping (\<lambda>(c, d). holds I d) (runIngestion P kc me cfg events node)"
proof -
  have "keeping (holds I) (andThen (lift (case Dial P (WebSocketURL (Ethereum cfg)) (RPCTimeout (Ethereum cfg)) of
      Inl e \<Rightarrow> Inl (Wrapf w e '''') | Inr client \<Rightarrow> Inr client)) (\<lambda>client. ingest_on kc (run_config_of P cfg) client events node))" for w
    unfolding keeping_def
    by (rule triple_lift) (use ingest_on_keeps [OF assms(1) assms(2), unfolded keeping_def] in \<open>auto split: sum.splits\<close>)
  then show ?thesis unfolding runIngestion_def by (rule keeping_under_locks)
qed

lemma runServe_keeps:
  assumes "dials Node kc P env" "\<forall>ev \<in> set events. event_ok Seen ev"
  shows "keeping (\<lambda>(c, d). holds I d) (runServe P kc me http events node args env)"
proof -
  let ?J = "\<lambda>(c :: lock_conn, d). holds I d"
  have ingest: "keeping ?J (runIngestion P kc me cfg events node)" if "commonFlags P common_flag args env = Inr (cfg, f)" for cfg f
    by (rule runIngestion_keeps [OF _ assms(2)]) (use assms(1) that in \<open>auto simp: dials_def\<close>)
  have both: "keeping ?J (\<lambda>s. case m s of (r, t) \<Rightarrow> (case g r of Some e \<Rightarrow> (Inl e, t) | None \<Rightarrow> (Inr (), t)))"
    if "keeping ?J m" for m :: "(lock_conn \<times> pg, err, unit) step" and g
    by (rule keepingI, drule keepingD [OF that]) (auto split: prod.splits option.splits)
  show ?thesis
    unfolding runServe_def keeping_def
  proof (rule triple_lift, unfold keeping_def [symmetric])
    fix x assume x: "commonFlags P common_flag args env = Inr x"
    obtain cfg f where cf: "x = (cfg, f)" by force
    show "keeping ?J (case x of (cfg, f) \<Rightarrow>
        andThen (fail_with (OpenStore P (DSN (Database cfg)))) (\<lambda>_. andThen (lift (NewServer (RegisterErr http) (Server cfg))) (\<lambda>_.
        if IngestionEnabled (Ethereum cfg)
        then (\<lambda>s. case runIngestion P kc me cfg events node s of
            (r, t) \<Rightarrow> (case group_error (ServerFirst http) (ServerRun (ServerEnd http)) (error_of r) of Some e \<Rightarrow> (Inl e, t) | None \<Rightarrow> (Inr (), t)))
        else fail_with (ServerRun (ServerEnd http)))))"
      unfolding cf prod.case
      using both [OF ingest [OF x [unfolded cf]], of "\<lambda>r. group_error (ServerFirst http) (ServerRun (ServerEnd http)) (error_of r)"]
      by (intro keeping_andThen keeping_lift keeping_fail; simp add: keeping_fail)
  qed
qed

lemma named_stage_keeps:
  assumes "X \<in> Xs"
  shows "keeping (stays I) (named_stage (V\<lparr>LoadCtxErr := c\<rparr>) X st)"
  unfolding named_stage_def
proof (rule keeping_onErr, rule keepingI)
  fix d assume d: "stays I d"
  obtain r t where run: "run_stage (V\<lparr>LoadCtxErr := c\<rparr>) X st d = (r, t)" by fastforce
  have "moves V Xs (tab d) (tab t)" using movingD [OF run_stage_moving [OF assms] run] by (rule no_context_moves)
  then show "stays I (snd (run_stage (V\<lparr>LoadCtxErr := c\<rparr>) X st d))"
    using moves_keep [of "tab d" "tab t"] d by (simp add: stays_def run)
qed

lemma runStages_keeps: "X \<in> Xs \<Longrightarrow> keeping (stays I) (runStages (V\<lparr>LoadCtxErr := c\<rparr>) X arg)"
  using named_stage_keeps
  by (auto simp: runStages_def keeping_fail intro: keeping_for_each split: option.splits)

lemma runBackfill_keeps:
  assumes "range disk \<subseteq> Xs"
  shows "keeping (\<lambda>(c, d). stays I d) (runBackfill P (V\<lparr>LoadCtxErr := ctx\<rparr>) disk me args env)"
proof -
  have "keeping (stays I) (runStages (V\<lparr>LoadCtxErr := ctx\<rparr>) (disk dir) arg)" for dir arg
    using runStages_keeps assms by blast
  then show ?thesis
    unfolding runBackfill_def
    by (intro keeping_andThen keeping_lift) (auto intro!: keeping_andThen keeping_fail keeping_under_locks split: prod.splits)
qed

lemma Rewind_keeps: "keeping (stays I) (Rewind n)"
proof (rule keepingI)
  fix d assume d: "stays I d"
  obtain r u where run: "Rewind n d = (r, u)" by fastforce
  then show "stays I (snd (Rewind n d))"
    using Rewind_commits [of n d] rewind_keeps [of "tab d"] d by (cases r) (auto simp: stays_def all_or_nothing_def)
qed

lemma runRewind_keeps: "keeping (\<lambda>(c, d). stays I d) (runRewind P me args env)"
  unfolding runRewind_def
  by (intro keeping_andThen keeping_lift)
    (auto intro!: keeping_andThen keeping_fail keeping_under_locks Rewind_keeps split: prod.splits option.splits)

end

section \<open>The life of the program\<close>

text \<open>
  One process: its command line, its environment and platform, the database connections it opens
  (with the failures they meet; a process that dies is one whose statements all fail from then
  on), what its HTTP server, its node and its head subscription do. Only the tables outlive it.
\<close>

record ('env, 'p) life =
  l_args :: "string list"
  l_env :: 'env
  l_platform :: "('env, 'p) platform"
  l_session :: session
  l_locks :: lock_conn
  l_pool :: pg
  l_http :: http_outcome
  l_events :: "event list"
  l_node :: 'p
  l_context :: "string \<Rightarrow> nat \<Rightarrow> nat \<Rightarrow> err option"

definition process ::
  "keccak \<Rightarrow> 'v libraries \<Rightarrow> (string \<Rightarrow> export_dir) \<Rightarrow> ('env, 'p) life \<Rightarrow> tables \<Rightarrow> nat \<times> tables" where
  "process kc V disk l t =
     (case run_process
         (\<lambda>args. runServe (l_platform l) kc (l_session l) (l_http l) (l_events l) (l_node l) args (l_env l))
         (\<lambda>args. runBackfill (l_platform l) (V\<lparr>LoadCtxErr := l_context l\<rparr>) disk (l_session l) args (l_env l))
         (\<lambda>args. runRewind (l_platform l) (l_session l) args (l_env l))
         (l_args l) (l_locks l, (l_pool l)\<lparr>tab := t\<rparr>) of
       (code, (c, d)) \<Rightarrow> (code, tab d))"

fun processes ::
  "keccak \<Rightarrow> 'v libraries \<Rightarrow> (string \<Rightarrow> export_dir) \<Rightarrow> ('env, 'p) life list \<Rightarrow> tables \<Rightarrow> nat list \<times> tables" where
  "processes kc V disk [] t = ([], t)"
| "processes kc V disk (l # lives) t =
     (case process kc V disk l t of (code, u) \<Rightarrow> apfst (\<lambda>codes. code # codes) (processes kc V disk lives u))"

definition sane :: "(('p, pg) subscriber \<Rightarrow> bool) \<Rightarrow> (block_head \<Rightarrow> bool) \<Rightarrow> keccak \<Rightarrow> ('env, 'p) life \<Rightarrow> bool" where
  "sane Node Seen kc l \<longleftrightarrow> quiet_faults (l_pool l) \<and> (\<forall>ev \<in> set (l_events l). event_ok Seen ev) \<and>
     dials Node kc (l_platform l) (l_env l)"

lemma run_process_state:
  "\<exists>rest. snd (run_process serve backfill rewind args s) \<in> {s, snd (serve rest s), snd (backfill rest s), snd (rewind rest s)}"
  by (cases "subcommand args") (auto simp: run_process_def apfst_def map_prod_def case_prod_beta)

context kept_by_commands begin

lemma process_keeps:
  assumes disk: "range disk \<subseteq> Xs" and l: "sane Node Seen kc l" and t: "I t"
  shows "I (snd (process kc V disk l t))"
proof -
  let ?s = "(l_locks l, (l_pool l)\<lparr>tab := t\<rparr>)"
  let ?serve = "\<lambda>args. runServe (l_platform l) kc (l_session l) (l_http l) (l_events l) (l_node l) args (l_env l)"
  let ?backfill = "\<lambda>args. runBackfill (l_platform l) (V\<lparr>LoadCtxErr := l_context l\<rparr>) disk (l_session l) args (l_env l)"
  let ?rewind = "\<lambda>args. runRewind (l_platform l) (l_session l) args (l_env l)"
  have l': "\<forall>ev \<in> set (l_events l). event_ok Seen ev" "dials Node kc (l_platform l) (l_env l)"
    using l by (simp_all add: sane_def)
  have s: "holds I (snd ?s)" "stays I (snd ?s)" using l t by (simp_all add: sane_def holds_def stays_def quiet_faults_def)
  have serve: "stays I (snd (snd (?serve args ?s)))" for args
    using keepingD [OF runServe_keeps [OF l'(2,1)], of ?s] s(1) by (simp add: holds_def stays_def case_prod_beta)
  have backfill: "stays I (snd (snd (?backfill args ?s)))" for args
    using keepingD [OF runBackfill_keeps [OF disk], of ?s] s(2) by (simp add: case_prod_beta)
  have rewind: "stays I (snd (snd (?rewind args ?s)))" for args
    using keepingD [OF runRewind_keeps, of ?s] s(2) by (simp add: case_prod_beta)
  have "stays I (snd (snd (run_process ?serve ?backfill ?rewind (l_args l) ?s)))"
    using run_process_state [of ?serve ?backfill ?rewind "l_args l" ?s] s(2) serve backfill rewind by fastforce
  then show ?thesis by (simp add: process_def stays_def case_prod_beta)
qed

lemma processes_keep:
  assumes "range disk \<subseteq> Xs"
  shows "\<forall>l \<in> set lives. sane Node Seen kc l \<Longrightarrow> I t \<Longrightarrow> I (snd (processes kc V disk lives t))"
proof (induction lives arbitrary: t)
  case (Cons l lives)
  have "I (snd (process kc V disk l t))"
    by (rule process_keeps [OF assms _ Cons.prems(2)]) (use Cons.prems(1) in simp)
  with Cons.IH [OF _ this] Cons.prems(1) show ?case by (simp add: case_prod_beta)
qed simp

end

text \<open>The order is such an invariant, for every node that is ordinary.\<close>

interpretation held: kept_by_commands "held V Xs a b" batch_covers V Xs "\<lambda>S :: ('p, pg) subscriber. ordinary S Seen" Seen
  for V :: "'v libraries" and Xs a b Seen
proof unfold_locales
  show "held V Xs a b t0 \<Longrightarrow> batch_covers f t bs ls \<Longrightarrow> write_committed f t bs ls t0 t1 \<Longrightarrow> held V Xs a b t1" for t0 f t bs ls t1
    using write_in_order [of a b t0 f t bs ls t1] by (auto simp: held_def export_family_def)
  show "held V Xs a b t0 \<Longrightarrow> rewound n t0 t1 \<Longrightarrow> held V Xs a b t1" for t0 n t1
    using rewind_in_order [of a b t0 n t1] by (auto simp: held_def export_family_def)
  show "held V Xs a b t0 \<Longrightarrow> moves V Xs t0 t1 \<Longrightarrow> held V Xs a b t1" for t0 t1
    using moves_in_order [of V Xs a b t0 t1] by (simp add: held_def)
  show "ordinary S Seen \<Longrightarrow> good_batch S Seen f t bs ls \<Longrightarrow> batch_covers f t bs ls" for S :: "('p, pg) subscriber" and f t bs ls
    by (rule good_batch_covers)
qed (assumption | erule (1) held_head)+

text \<open>
  C4. The life of the warehouse: any number of processes, each a serve, a backfill or a rewind with any
  arguments and configuration, of any exports of one interval, against any ordinary node, each losing
  the locks, failing or dying anywhere, keep the tables in order: keys are unique, every row is
  readable and in its partition, every height of the published coverage has its block row unless it
  is one of the exports' interval, and not even then when the maintenance flag is down, which is
  when readers are answered.
\<close>

theorem processes_keep_in_order:
  assumes "export_family V Xs a b" "range disk \<subseteq> Xs" "\<forall>l \<in> set lives. sane (\<lambda>S. ordinary S Seen) Seen kc l" "in_order a b t"
  shows "in_order a b (snd (processes kc V disk lives t))"
  using held.processes_keep [OF assms(2,3), of V a b t] assms(1,4) by (simp add: held_def)

end
