(* ===== verification/Truth.thy ===== *)
theory Truth
  imports System BackfillFacts
begin

text \<open>
  What readers are told over the whole life of the program. When every node serves one chain and
  every export was taken from it, the tables never hold a row that is not of the chain, and at
  every published height whose rows are not being reloaded they hold all of them: whatever
  \<open>eth_getLogs\<close> answers, after any services, backfills and rewinds, is the chain's answer.
\<close>

section \<open>Tables of one chain\<close>

definition row_of :: "(u64 \<Rightarrow> log list) \<Rightarrow> u64 \<Rightarrow> log_row \<Rightarrow> bool" where
  "row_of K n r \<longleftrightarrow> (\<exists>l \<in> set (K n). wf_log l \<and> r = LogRow l)"

definition truthful :: "(u64 \<Rightarrow> block_head) \<Rightarrow> (u64 \<Rightarrow> log list) \<Rightarrow> tables \<Rightarrow> bool" where
  "truthful H K t \<longleftrightarrow>
     (\<forall>k \<in> set (eth_blocks t). \<exists>n. k = BlockRow (block_of (H n))) \<and> (\<forall>r \<in> set (eth_logs t). \<exists>n. row_of K n r)"

definition complete_at :: "(u64 \<Rightarrow> log list) \<Rightarrow> tables \<Rightarrow> u64 \<Rightarrow> bool" where
  "complete_at K t n \<longleftrightarrow> (\<forall>l \<in> set (K n). wf_log l \<and> LogRow l \<in> set (eth_logs t))"

definition faithful :: "(u64 \<Rightarrow> block_head) \<Rightarrow> (u64 \<Rightarrow> log list) \<Rightarrow> u64 \<Rightarrow> u64 \<Rightarrow> tables \<Rightarrow> bool" where
  "faithful H K a b t \<longleftrightarrow> truthful H K t \<and>
     (\<forall>c. coverage_of t = Some c \<longrightarrow>
        (\<forall>n \<in> {covStart c..covHead c}. maintenance t \<and> n \<in> {a..b} \<or> complete_at K t n))"

lemma faithful_fresh: "faithful H K a b fresh_tables"
  by (simp add: faithful_def truthful_def fresh_tables_def coverage_of_def)

lemma row_of_number: "chain_ok H K \<Longrightarrow> row_of K n r \<Longrightarrow> r_block_number r = int64 n"
  by (auto simp: row_of_def chain_ok_def)

lemma complete_at_mono: "complete_at K t n \<Longrightarrow> set (eth_logs t) \<subseteq> set (eth_logs t') \<Longrightarrow> complete_at K t' n"
  by (auto simp: complete_at_def)

text \<open>Rows of other heights do not matter.\<close>

lemma complete_at_kept:
  assumes "complete_at K t n" "chain_ok H K" "\<And>r. r \<in> set (eth_logs t) \<Longrightarrow> r_block_number r = int64 n \<Longrightarrow> r \<in> set (eth_logs t')"
  shows "complete_at K t' n"
  using assms by (auto simp: complete_at_def chain_ok_def)

section \<open>The hull of two intervals that touch\<close>

lemma hull_covers:
  assumes "touches cov from to" "\<And>c. cov = Some c \<Longrightarrow> fits_int64 (covHead c)" "fits_int64 to" "from \<le> to"
    and "n \<in> {covStart (extended_coverage cov from to)..covHead (extended_coverage cov from to)}"
  shows "n \<in> {from..to} \<or> (\<exists>c. cov = Some c \<and> n \<in> {covStart c..covHead c})"
proof (cases cov)
  case None
  then show ?thesis using assms(5) by (simp add: extended_coverage_def)
next
  case (Some c)
  have f: "fits_int64 (covHead c)" using assms(2) Some by simp
  have n: "min (covStart c) from \<le> n" "n \<le> max (covHead c) to"
    using assms(5) Some by (auto simp: extended_coverage_def min.commute max.commute)
  have touch: "from \<le> covHead c + 1" "covStart c \<le> to + 1"
    using assms(1) Some by (simp_all add: touches_def not_less)
  show ?thesis
  proof (rule ccontr)
    assume no: "\<not> ?thesis"
    then consider "n < from" "covHead c < n" | "to < n" "n < covStart c"
      using n Some by (auto simp: not_le min_le_iff_disj le_max_iff_disj)
    then show False
    proof cases
      case 1
      then have "covHead c + 1 \<le> n" using suc_le_iff [OF f] by simp
      with touch(1) 1(1) show False by simp
    next
      case 2
      then have "to + 1 \<le> n" using suc_le_iff [OF assms(3)] by simp
      with touch(2) 2(2) show False by simp
    qed
  qed
qed

section \<open>Ingestion and rewinds\<close>

lemma write_faithful:
  assumes f: "faithful H K a b t0" and g: "chain_batch H K from to bs ls" and w: "write_committed from to bs ls t0 t1"
    and head: "\<And>c. coverage_of t0 = Some c \<Longrightarrow> fits_int64 (covHead c)"
  shows "faithful H K a b t1"
proof -
  note fields = write_committed_fields [OF w]
  have ch: "chain_ok H K" and le: "from \<le> to" and pl: "plausible to" and wf: "\<forall>l \<in> set ls. wf_log l"
    and bs: "bs = map (\<lambda>n. block_of (H n)) (heights from to)" and ls: "ls = concat (map K (heights from to))"
    using g by (auto simp: chain_batch_def batch_covers_def)
  have fits: "fits_int64 to" "fits_int64 from" using pl le plausible_fits fits_int64_mono by blast+
  have "\<exists>n. row_of K n (LogRow l)" if "l \<in> set ls" for l
    using wf that by (auto simp: ls row_of_def)
  then have truth: "truthful H K t1"
    using f unfolding faithful_def truthful_def fields(1,2) by (auto simp: cleared_rows bs)
  have new: "complete_at K t1 n" if "n \<in> {from..to}" for n
  proof -
    have "set (K n) \<subseteq> set ls" using that by (auto simp: ls set_heights)
    then show ?thesis using wf by (auto simp: complete_at_def fields(2))
  qed
  have old: "complete_at K t1 n" if "complete_at K t0 n" "n \<notin> {from..to}" "fits_int64 n" for n
  proof (rule complete_at_kept [OF that(1) ch])
    fix r assume r: "r \<in> set (eth_logs t0)" "r_block_number r = int64 n"
    have "\<not> (int64 from \<le> int64 n \<and> int64 n \<le> int64 to)" using that(2,3) fits by (simp add: int64_le_iff)
    then show "r \<in> set (eth_logs t1)" using r by (simp add: fields(2) cleared_rows)
  qed
  have "maintenance t1 \<and> n \<in> {a..b} \<or> complete_at K t1 n"
    if c: "coverage_of t1 = Some c" and n: "n \<in> {covStart c..covHead c}" for c n
  proof (cases "n \<in> {from..to}")
    case False
    have "touches (coverage_of t0) from to" using w by (simp add: write_committed_def)
    from hull_covers [OF this head fits(1) le, of n] obtain d where d: "coverage_of t0 = Some d" "n \<in> {covStart d..covHead d}"
      using c n False fields(4) by auto
    then have "fits_int64 n" using head fits_int64_mono by auto
    then show ?thesis using f d old False fields(5) by (auto simp: faithful_def)
  qed (use new in simp)
  then show ?thesis using truth by (simp add: faithful_def)
qed

lemma rewind_faithful:
  assumes f: "faithful H K a b t0" and ch: "chain_ok H K" and r: "rewound n t0 t1"
    and head: "\<And>c. coverage_of t0 = Some c \<Longrightarrow> fits_int64 (covHead c)"
  shows "faithful H K a b t1"
proof -
  obtain c where c: "coverage_of t0 = Some c" "covStart c \<le> n" "n < covHead c"
    and t1: "t1 = (delete_blocks_above (int64 n) (delete_logs_above (int64 n) t0))
           \<lparr>ingest_cursor := Some (int64 (covStart c), int64 n)\<rparr>"
    using r by (auto simp: rewound_by_deletes)
  have fits: "fits_int64 n" using head [OF c(1)] c(3) fits_int64_mono [of n "covHead c"] by simp
  have rows: "set (eth_blocks t1) = {b \<in> set (eth_blocks t0). \<not> int64 n < b_number b}"
    "set (eth_logs t1) = {r \<in> set (eth_logs t0). \<not> int64 n < r_block_number r}" "maintenance t1 = maintenance t0"
    by (auto simp: t1 delete_blocks_above_def delete_logs_above_def)
  have cov: "coverage_of t1 = Some \<lparr>covStart = covStart c, covHead = n\<rparr>" by (simp add: t1 coverage_of_def)
  have "complete_at K t1 k" if "complete_at K t0 k" "k \<le> n" for k
  proof (rule complete_at_kept [OF that(1) ch])
    fix r assume "r \<in> set (eth_logs t0)" "r_block_number r = int64 k"
    moreover have "\<not> int64 n < int64 k" using that(2) fits fits_int64_mono [OF _ fits] by (simp add: int64_less_iff not_less)
    ultimately show "r \<in> set (eth_logs t1)" by (simp add: rows)
  qed
  moreover have "k \<in> {covStart c..covHead c}" if "k \<in> {covStart c..n}" for k using that c(3) by auto
  ultimately have "maintenance t1 \<and> k \<in> {a..b} \<or> complete_at K t1 k" if "k \<in> {covStart c..n}" for k
    using f c(1) that rows(3) unfolding faithful_def by (metis atLeastAtMost_iff)
  moreover have "truthful H K t1" using f by (simp add: faithful_def truthful_def rows)
  ultimately show ?thesis by (auto simp: faithful_def cov)
qed

section \<open>Backfills\<close>

text \<open>
  The exports were taken from the chain: their rows are of the chain, and their manifests count the
  rows the chain has in each part.
\<close>

definition taken_from ::
  "(u64 \<Rightarrow> block_head) \<Rightarrow> (u64 \<Rightarrow> log list) \<Rightarrow> 'v libraries \<Rightarrow> export_dir set \<Rightarrow> u64 \<Rightarrow> u64 \<Rightarrow> bool" where
  "taken_from H K V Xs a b \<longleftrightarrow> export_family V Xs a b \<and> (\<forall>n \<in> {a..b}. \<forall>l \<in> set (K n). wf_log l) \<and>
     (\<forall>X \<in> Xs. \<forall>m. readManifest X = Inr m \<longrightarrow>
        (\<forall>part \<in> part_numbers m.
           (\<forall>rows. part_rows V X part = Some rows \<longrightarrow> (\<forall>r \<in> set rows. \<exists>n. row_of K n r)) \<and>
           (\<forall>w lo hi. partRows m part = Inr w \<and> unitInterval m part = (lo, hi) \<longrightarrow> unat w = card (chain_rows K {lo..hi}))) \<and>
        (\<forall>rows. block_rows V X m = Some rows \<longrightarrow> (\<forall>k \<in> set rows. \<exists>n. k = BlockRow (block_of (H n)))))"

text \<open>As many rows of the chain as the chain has: all of them.\<close>

lemma counted_complete:
  assumes "truthful H K t" "chain_ok H K" "distinct (map row_key (eth_logs t))"
    and count: "of_nat (length (between_logs lo hi t)) = (w :: u64)" "unat w = card (chain_rows K {lo..hi})"
    and fits: "fits_int64 lo" "fits_int64 hi" and rows: "\<forall>r \<in> set (eth_logs t). stored_log r"
  shows "chain_rows K {lo..hi} \<subseteq> set (eth_logs t)"
proof -
  let ?rs = "between_logs lo hi t" and ?C = "chain_rows K {lo..hi}"
  have d: "distinct ?rs" using assms(3) by (simp add: between_logs_def distinct_map)
  have sub: "set ?rs \<subseteq> ?C"
  proof
    fix r assume r: "r \<in> set ?rs"
    then obtain n where n: "row_of K n r" using assms(1) by (auto simp: truthful_def between_logs_def)
    have num: "r_block_number r = int64 n" using row_of_number [OF assms(2) n] .
    have "stored_log r" using rows r by (simp add: between_logs_def)
    then have "fits_int64 n"
      using n assms(2) by (auto simp: row_of_def wf_log_def chain_ok_def)
    then have "n \<in> {lo..hi}" using r num fits by (simp add: between_logs_def int64_le_iff)
    then show "r \<in> ?C" using n by (auto simp: row_of_def chain_rows_def)
  qed
  have fin: "finite ?C" by (simp add: chain_rows_def)
  have len: "length ?rs = card (set ?rs)" using distinct_card [OF d] by simp
  then have le: "length ?rs \<le> card ?C" using card_mono [OF fin sub] by simp
  have "card ?C < 2 ^ 64" using count(2) unat_less_u64 [of w] by simp
  then have "unat (of_nat (length ?rs) :: u64) = length ?rs" using le by (simp add: unat_of_nat)
  then have "card (set ?rs) = card ?C" using count len by simp
  then have "set ?rs = ?C" using sub fin by (intro card_subset_eq)
  then show ?thesis by (auto simp: between_logs_def)
qed

lemma verified_complete:
  assumes tf: "taken_from H K V Xs a b" and X: "X \<in> Xs" "readManifest X = Inr m" and v: "export_verified V X m t"
    and t: "truthful H K t" "chain_ok H K" "repairable a b t" and n: "n \<in> {a..b}"
  shows "complete_at K t n"
proof -
  have m: "BlocksFirst m = a" "BlocksLast m = b" "a \<le> b" "plausible b" and wf: "\<forall>l \<in> set (K n). wf_log l"
    using tf X n by (auto simp: taken_from_def export_family_def)
  have fits: "fits_int64 b" "fits_int64 n" "fits_int64 a" using plausible_fits [OF m(4)] n fits_int64_mono by auto
  have "int64 (BlocksFirst m) \<le> int64 n" "int64 n \<le> int64 (BlocksLast m)"
    using n fits by (simp_all add: m int64_le_iff)
  then obtain part lo hi where part: "part \<in> part_numbers m" "unitInterval m part = (lo, hi)" "int64 lo \<le> int64 n" "int64 n \<le> int64 hi"
    using part_of_height [of m "int64 n"] m by auto
  have bounds: "hi \<le> b" "fits_int64 hi" "lo = max (part * PartitionBlocks) a"
    using unit_interval_bounds [OF part(1) _ part(2)] m by simp_all
  have "part \<le> b div PartitionBlocks" using part(1) m by (simp add: part_numbers_def)
  then have "part * PartitionBlocks \<le> b" using part_start [of part b] by (simp add: word_le_nat_alt)
  then have lo: "fits_int64 lo" using fits_int64_mono [OF _ fits(1), of lo] m(3) by (simp add: bounds(3))
  then have inside: "n \<in> {lo..hi}" using part(3,4) fits bounds by (simp add: int64_le_iff)
  have pv: "partRows m part = Inr (of_nat (length (between_logs lo hi t)))"
  proof -
    have "part_verified V X m t part" using v part(1) by (simp add: export_verified_def)
    then show ?thesis by (simp add: part_verified_def part(2))
  qed
  then have "unat (of_nat (length (between_logs lo hi t)) :: u64) = card (chain_rows K {lo..hi})"
    using tf X part(1,2) unfolding taken_from_def by blast
  from counted_complete [OF t(1,2) _ refl this lo bounds(2)] t(3)
  have "chain_rows K {lo..hi} \<subseteq> set (eth_logs t)" by (simp add: repairable_def)
  then show ?thesis using wf inside unfolding complete_at_def chain_rows_def by blast
qed

lemma faithful_same:
  assumes "faithful H K a b t" "same_rows t t'" "maintenance t' \<or> \<not> maintenance t"
  shows "faithful H K a b t'"
proof -
  have "truthful H K t' = truthful H K t" "complete_at K t' = complete_at K t"
    using assms(2) by (simp_all add: truthful_def same_rows_def complete_at_def fun_eq_iff)
  then show ?thesis using assms(1,3) same_rows_facts(1) [OF assms(2)] by (auto simp: faithful_def)
qed

text \<open>A change of the rows of the interval while it is guarded.\<close>

lemma faithful_guarded:
  assumes f: "faithful H K a b t" and ch: "chain_ok H K" and g: "guarded t" and truth: "truthful H K t'"
    and keep: "ingest_cursor t' = ingest_cursor t" "maintenance t' = maintenance t"
    and outside: "\<And>r n. r \<in> set (eth_logs t) \<Longrightarrow> r_block_number r = int64 n \<Longrightarrow> n \<notin> {a..b} \<Longrightarrow> fits_int64 n \<Longrightarrow> r \<in> set (eth_logs t')"
    and head: "\<And>c. coverage_of t = Some c \<Longrightarrow> fits_int64 (covHead c)"
  shows "faithful H K a b t'"
proof -
  have cov: "coverage_of t' = coverage_of t" using keep by (simp add: coverage_of_def)
  have "maintenance t' \<and> n \<in> {a..b} \<or> complete_at K t' n" if c: "coverage_of t = Some c" and n: "n \<in> {covStart c..covHead c}" for c n
  proof (cases "n \<in> {a..b}")
    case True
    then show ?thesis using g keep c by (simp add: guarded_def)
  next
    case False
    have "fits_int64 n" using head [OF c] n fits_int64_mono by auto
    moreover have "complete_at K t n" using f c n False by (auto simp: faithful_def)
    ultimately show ?thesis using complete_at_kept [OF _ ch, of t n t'] outside False by blast
  qed
  then show ?thesis using truth cov by (simp add: faithful_def)
qed

lemma step_faithful:
  assumes tf: "taken_from H K V Xs a b" and f: "faithful H K a b t" and ch: "chain_ok H K" and r: "repairable a b t"
    and head: "\<And>c. coverage_of t = Some c \<Longrightarrow> fits_int64 (covHead c)" and step: "backfill_step V Xs t t'"
  shows "faithful H K a b t'"
  using step
proof cases
  case (Flagged why)
  then show ?thesis using faithful_same [OF f same_rows_steps(1)] by simp
next
  case (Partitioned X m part)
  have "maintenance t' = maintenance t" using Partitioned(4) by (auto simp: create_partition_def split: if_splits)
  then show ?thesis using faithful_same [OF f same_rows_steps(3) [OF Partitioned(4)]] by simp
next
  case (Dropped name)
  then show ?thesis using faithful_same [OF f same_rows_steps(2)] by (simp add: drop_index_def)
next
  case (Indexed name)
  have "maintenance t' = maintenance t" using Indexed by (auto simp: create_index_def split: if_splits)
  then show ?thesis using faithful_same [OF f same_rows_steps(4) [OF Indexed]] by simp
next
  case (PartLoaded X m part)
  have m: "BlocksFirst m = a" "BlocksLast m = b" "a \<le> b" "plausible b"
    using tf PartLoaded(1,2) by (auto simp: taken_from_def export_family_def)
  obtain lo hi where iv: "unitInterval m part = (lo, hi)" by fastforce
  note keep = part_loaded_keeps [OF PartLoaded(5)]
  obtain rows where rows: "part_rows V X part = Some rows"
    and logs: "eth_logs t' = eth_logs (delete_logs_between (int64 lo) (int64 hi) t) @ sort_key row_key rows"
    by (rule part_loaded_fields [OF PartLoaded(5) iv])
  have new: "\<exists>n. row_of K n r" if "r \<in> set rows" for r
    using tf PartLoaded(1-3) rows that by (simp add: taken_from_def)
  then have truth: "truthful H K t'"
    using f keep unfolding faithful_def truthful_def logs by (auto simp: delete_logs_between_def)
  have bounds: "hi \<le> b" "fits_int64 hi" "lo = max (part * PartitionBlocks) a"
    using unit_interval_bounds [OF PartLoaded(3) _ iv] m by simp_all
  have "part \<le> b div PartitionBlocks" using PartLoaded(3) m by (simp add: part_numbers_def)
  then have "part * PartitionBlocks \<le> b" using part_start [of part b] by (simp add: word_le_nat_alt)
  then have lo: "fits_int64 lo"
    using fits_int64_mono [OF _ plausible_fits [OF m(4)], of lo] m(3) by (simp add: bounds(3))
  have "r \<in> set (eth_logs t')" if "r \<in> set (eth_logs t)" "r_block_number r = int64 n" "n \<notin> {a..b}" "fits_int64 n" for r n
  proof -
    have "\<not> (lo \<le> n \<and> n \<le> hi)" using that(3) bounds by auto
    then show ?thesis using that lo bounds(2) by (simp add: logs delete_logs_between_def int64_le_iff)
  qed
  with keep show ?thesis by (intro faithful_guarded [OF f ch PartLoaded(4) truth _ _ _ head]) simp_all
next
  case (BlocksLoaded X m)
  note keep = blocks_loaded_keeps [OF BlocksLoaded(4)]
  obtain rows where rows: "block_rows V X m = Some rows"
    and blocks: "eth_blocks t' = eth_blocks (delete_blocks_between (int64 (BlocksFirst m)) (int64 (BlocksLast m)) t) @ rows"
    by (rule blocks_loaded_fields [OF BlocksLoaded(4)])
  have "\<exists>n. k = BlockRow (block_of (H n))" if "k \<in> set rows" for k
    using tf BlocksLoaded(1,2) rows that by (simp add: taken_from_def)
  then have "truthful H K t'"
    using f keep unfolding faithful_def truthful_def blocks by (auto simp: delete_blocks_between_def)
  with keep show ?thesis by (intro faithful_guarded [OF f ch BlocksLoaded(3) _ _ _ _ head]) simp_all
next
  case (Published X m)
  have m: "BlocksFirst m = a" "BlocksLast m = b" "a \<le> b" "plausible b"
    using tf Published(1,2) by (auto simp: taken_from_def export_family_def)
  have truth: "truthful H K t" using f by (simp add: faithful_def)
  let ?e = "extended_coverage (coverage_of t) a b"
  have t': "t' = t\<lparr>ingest_cursor := Some (int64 (covStart ?e), int64 (covHead ?e))\<rparr>" and touch: "touches (coverage_of t) a b"
    using Published(4) by (simp_all add: published_def m Let_def)
  have cov: "coverage_of t' = Some ?e" by (simp add: t' coverage_of_def)
  have "maintenance t' \<and> n \<in> {a..b} \<or> complete_at K t' n" if n: "n \<in> {covStart ?e..covHead ?e}" for n
  proof (cases "n \<in> {a..b}")
    case True
    then show ?thesis
      using verified_complete [OF tf Published(1-3) truth ch r True] by (simp add: complete_at_def t')
  next
    case False
    then obtain c where "coverage_of t = Some c" "n \<in> {covStart c..covHead c}"
      using hull_covers [OF touch head plausible_fits [OF m(4)] m(3) n] by blast
    then show ?thesis using f False by (auto simp: faithful_def complete_at_def t')
  qed
  moreover have "truthful H K t'" using truth by (simp add: t' truthful_def)
  ultimately show ?thesis by (simp add: faithful_def cov)
next
  case (Cleared X m)
  have truth: "truthful H K t" using f by (simp add: faithful_def)
  have "complete_at K t n" if "coverage_of t = Some c" "n \<in> {covStart c..covHead c}" for c n
    using f that verified_complete [OF tf Cleared(2-4) truth ch r, of n] unfolding faithful_def by blast
  then show ?thesis using truth by (auto simp: Cleared(1) faithful_def truthful_def complete_at_def coverage_of_def)
qed

section \<open>The life of the tables of one chain\<close>

definition told ::
  "(u64 \<Rightarrow> block_head) \<Rightarrow> (u64 \<Rightarrow> log list) \<Rightarrow> 'v libraries \<Rightarrow> export_dir set \<Rightarrow> u64 \<Rightarrow> u64 \<Rightarrow> tables \<Rightarrow> bool" where
  "told H K V Xs a b t \<longleftrightarrow> chain_ok H K \<and> taken_from H K V Xs a b \<and> in_order a b t \<and> faithful H K a b t"

lemma told_held: "told H K V Xs a b t \<Longrightarrow> held V Xs a b t"
  by (simp add: told_def held_def taken_from_def)

lemma told_moves: "told H K V Xs a b t \<Longrightarrow> moves V Xs t t' \<Longrightarrow> told H K V Xs a b t'"
proof (rotate_tac 1, induction rule: rtranclp_induct)
  case (step t1 t2)
  then have t: "told H K V Xs a b t1" by simp
  have "in_order a b t2" using backfill_step_in_order [OF _ _ step(2)] t by (simp add: told_def taken_from_def)
  moreover have "faithful H K a b t2"
    by (rule step_faithful [OF _ _ _ _ held_head [OF told_held [OF t]] step(2)])
      (use t in \<open>simp_all add: told_def in_order_def\<close>)
  ultimately show ?case using t by (simp add: told_def)
qed

text \<open>The nodes of one chain, as \<open>Mirror\<close> has them, with the kept logs of that chain.\<close>

definition serves_chain ::
  "(block_head \<Rightarrow> bool) \<Rightarrow> keccak \<Rightarrow> (u64 \<Rightarrow> block_head) \<Rightarrow> (u64 \<Rightarrow> log list) \<Rightarrow> ('p, pg) subscriber \<Rightarrow> bool" where
  "serves_chain Seen kc H L S \<longleftrightarrow> ordinary S Seen \<and> one_chain S Seen H L \<and> s_keccak S = kc"

interpretation told: kept_by_commands "told H (kept_logs kc L) V Xs a b" "chain_batch H (kept_logs kc L)" V Xs
    "serves_chain Seen kc H L :: ('p, pg) subscriber \<Rightarrow> bool" Seen
  for H kc L and V :: "'v libraries" and Xs a b Seen
proof unfold_locales
  let ?K = "kept_logs kc L"
  show "told H ?K V Xs a b t0 \<Longrightarrow> chain_batch H ?K f t bs ls \<Longrightarrow> write_committed f t bs ls t0 t1 \<Longrightarrow> told H ?K V Xs a b t1"
    for t0 f t bs ls t1
    using write_in_order [of a b t0 f t bs ls t1] write_faithful [of H ?K a b t0 f t bs ls t1] held_head [OF told_held, of H ?K V Xs a b t0]
    by (auto simp: told_def chain_batch_def taken_from_def export_family_def)
  show "told H ?K V Xs a b t0 \<Longrightarrow> rewound n t0 t1 \<Longrightarrow> told H ?K V Xs a b t1" for t0 n t1
    using rewind_in_order [of a b t0 n t1] rewind_faithful [of H ?K a b t0 n t1] held_head [OF told_held, of H ?K V Xs a b t0]
    by (auto simp: told_def taken_from_def export_family_def)
  show "told H ?K V Xs a b t0 \<Longrightarrow> coverage_of t0 = Some c \<Longrightarrow> fits_int64 (covHead c)" for t0 c
    by (rule held_head [OF told_held])
  show "serves_chain Seen kc H L S \<Longrightarrow> good_batch S Seen f t bs ls \<Longrightarrow> chain_batch H ?K f t bs ls"
    for S :: "('p, pg) subscriber" and f t bs ls
    using good_batch_chain [of S Seen H L f t bs ls] by (simp add: serves_chain_def)
qed (auto simp: chain_batch_def serves_chain_def intro: told_moves)

lemma covered_height:
  assumes "warehouse_ok t" "coverage_of t = Some c" "covStart c \<le> n" "n \<le> covHead c"
  shows "int64 n \<in> b_number ` set (eth_blocks t)"
proof -
  note c = coverage_of_Some [OF assms(1,2)]
  have "fits_int64 n" "fits_int64 (covStart c)" using c(1,2) assms(4) fits_int64_mono by blast+
  then have "int64 n \<in> {int64 (covStart c)..int64 (covHead c)}" using assms(3,4) c(1) by (simp add: int64_le_iff)
  then show ?thesis using assms(1) c(3) by (auto simp: warehouse_ok_def covered_def)
qed

section \<open>What readers are told\<close>

lemma joined_truthful:
  assumes t: "truthful H K t" "chain_ok H K" and rb: "(r, k) \<in> set (joined t)"
  obtains n l where "l \<in> set (K n)" "wf_log l" "r = LogRow l" "k = BlockRow (block_of (H n))" "r_block_number r = int64 n"
proof -
  have "r \<in> set (eth_logs t)" "k \<in> set (eth_blocks t)" "b_number k = r_block_number r"
    using rb by (simp_all add: joined_iff)
  then obtain n l i where l: "l \<in> set (K n)" "wf_log l" "r = LogRow l" and k: "k = BlockRow (block_of (H i))"
    using t(1) by (fastforce simp: truthful_def row_of_def)
  have num: "r_block_number r = int64 n" using l t(2) by (simp add: chain_ok_def)
  moreover have "b_number k = int64 i" using t(2) by (simp add: k block_of_def chain_ok_def)
  ultimately have "i = n" using \<open>b_number k = r_block_number r\<close> by simp
  then show thesis using that l k num by blast
qed

lemma stored_logs_faithful:
  assumes ok: "warehouse_ok t" and t: "truthful H K t" "chain_ok H K" "strict_chain K"
    and full: "\<And>n. from \<le> n \<Longrightarrow> n \<le> to \<Longrightarrow> complete_at K t n \<and> int64 n \<in> b_number ` set (eth_blocks t)"
    and P: "\<And>l. P l \<Longrightarrow> from \<le> logBlockNumber l \<and> logBlockNumber l \<le> to"
  shows "filter P (stored_logs t) = filter P (chain_answer H K from to)"
proof (rule same_by_key [where key = log_key])
  have "sorted_wrt (<) (map log_key (chain_answer H K from to))"
    unfolding chain_answer_def by (rule chain_concat_strict [OF t(3,2) _ sorted_heights]) (simp add: served_def)
  then show "sorted_wrt (<) (map log_key (filter P (chain_answer H K from to)))"
    by (simp add: sorted_wrt_map sorted_wrt_filter)
  show "sorted_wrt (<) (map log_key (filter P (stored_logs t)))"
    using stored_logs_sorted [OF ok] by (simp add: sorted_wrt_map sorted_wrt_filter)
  show "set (filter P (stored_logs t)) = set (filter P (chain_answer H K from to))"
  proof (intro set_eqI iffI)
    fix x assume x: "x \<in> set (filter P (stored_logs t))"
    then obtain r k where rk: "(r, k) \<in> set (joined t)" "x = scanLog (r, k)" by (auto simp: stored_logs_def)
    obtain n l where l: "l \<in> set (K n)" "wf_log l" "r = LogRow l" "k = BlockRow (block_of (H n))"
      by (rule joined_truthful [OF t(1,2) rk(1)])
    have xs: "x = served (block_of (H n)) l" using scanLog_LogRow [OF l(2)] rk(2) l by simp
    then have "logBlockNumber x = n" using l(1) t(2) by (simp add: served_def chain_ok_def)
    then have "n \<in> set (heights from to)" using x P by (auto simp: set_heights)
    then show "x \<in> set (filter P (chain_answer H K from to))" using x xs l(1) by (auto simp: chain_answer_def)
  next
    fix x assume x: "x \<in> set (filter P (chain_answer H K from to))"
    then obtain n l where n: "from \<le> n" "n \<le> to" "l \<in> set (K n)" "x = served (block_of (H n)) l"
      by (auto simp: chain_answer_def set_heights)
    have l: "wf_log l" "LogRow l \<in> set (eth_logs t)" using full [OF n(1,2)] n(3) by (simp_all add: complete_at_def)
    obtain k where k: "k \<in> set (eth_blocks t)" "b_number k = int64 n" using full [OF n(1,2)] by force
    have num: "r_block_number (LogRow l) = int64 n" using n(3) t(2) by (simp add: chain_ok_def)
    then have rk: "(LogRow l, k) \<in> set (joined t)" using l k by (simp add: joined_iff)
    obtain i where "k = BlockRow (block_of (H i))" using t(1) k(1) by (auto simp: truthful_def)
    then have "k = BlockRow (block_of (H n))" using k(2) t(2) by (simp add: block_of_def chain_ok_def)
    then have "x = scanLog (LogRow l, k)" using scanLog_LogRow [OF l(1)] n(4) by simp
    then show "x \<in> set (filter P (stored_logs t))" using x rk by (auto simp: stored_logs_def)
  qed
qed

text \<open>
  C1. What a client is told, ever: from tables of one chain, after any number of services, backfills and
  rewinds, each with any arguments and configuration and each failing or dying anywhere, against
  nodes that serve the chain and exports taken from it, an \<open>eth_getLogs\<close> that answers gives exactly
  the chain's kept logs of the range the request names that match its filter, in chain order, each
  under the hash and timestamp of its header, and the range lies inside the published coverage.
\<close>

theorem processes_serve_chain:
  assumes "taken_from H (kept_logs kc L) V Xs a b" "range disk \<subseteq> Xs" "chain_ok H (kept_logs kc L)" "strict_chain (kept_logs kc L)"
    and "\<forall>l \<in> set lives. sane (serves_chain Seen kc H L) Seen kc l"
    and "in_order a b t0" "faithful H (kept_logs kc L) a b t0"
    and "tab d = snd (processes kc V disk lives t0)" "tags_ok tags" "GetLogs kc tags cfg crit d = (Inr logs, d')"
  shows "\<exists>c from to. coverage_of (tab d) = Some c \<and> names_range tags crit (tab d) c from to \<and>
    (if to < from then logs = []
     else covStart c \<le> from \<and> to \<le> covHead c \<and>
       logs = filter (log_matches kc (query_of crit from to)) (chain_answer H (kept_logs kc L) from to))"
proof -
  let ?K = "kept_logs kc L"
  have "told H ?K V Xs a b t0" using assms(1,3,6,7) by (simp add: told_def)
  then have t: "told H ?K V Xs a b (tab d)"
    using told.processes_keep [OF assms(2,5), of V a b t0] by (simp add: assms(8))
  have "visible (tab d)" by (rule GetLogs_visible [OF assms(10)])
  then have up: "\<not> maintenance (tab d)" by (simp add: visible_def)
  have ok: "warehouse_ok (tab d)" using t up by (simp add: told_def in_order_def)
  from GetLogs_answers [OF assms(9) ok assms(10)] obtain c f to where
    c: "coverage_of (tab d) = Some c" "names_range tags crit (tab d) c f to" and
    logs: "if to < f then logs = []
       else covStart c \<le> f \<and> to \<le> covHead c \<and>
         logs = filter (log_matches kc (query_of crit f to)) (stored_logs (tab d))"
    by (auto split: if_splits)
  have "filter (log_matches kc (query_of crit f to)) (stored_logs (tab d)) =
      filter (log_matches kc (query_of crit f to)) (chain_answer H ?K f to)" if "covStart c \<le> f" "to \<le> covHead c"
  proof (rule stored_logs_faithful [OF ok _ assms(3,4)])
    show "truthful H ?K (tab d)" using t by (simp add: told_def faithful_def)
    fix n assume n: "f \<le> n" "n \<le> to"
    then have n: "covStart c \<le> n" "n \<le> covHead c" using that by auto
    then have "complete_at ?K (tab d) n" using t c(1) up by (simp add: told_def faithful_def)
    moreover have "int64 n \<in> b_number ` set (eth_blocks (tab d))" using covered_height [OF ok c(1) n] .
    ultimately show "complete_at ?K (tab d) n \<and> int64 n \<in> b_number ` set (eth_blocks (tab d))" by blast
  qed (simp add: log_matches_def query_of_def)
  then show ?thesis using c logs by (auto split: if_splits)
qed

end
