(* ===== verification/Scenario.thy ===== *)
theory Scenario
  imports Truth
begin

text \<open>
  A concrete life of the program: one platform, one node, the exports of \<open>BackfillFacts\<close>, and three
  processes. The properties of the whole are applied to it.
\<close>

section \<open>Three processes\<close>

definition demo_config :: config where
  "demo_config = \<lparr>Debug = False, SentryDSN = '''',
     Server = \<lparr>ServerHost = '''', ServerPort = 8545, ReadTimeout = 0, WriteTimeout = 0, IdleTimeout = 0\<rparr>,
     Database = \<lparr>DBHost = ''db'', DBPort = 5432, DBUser = '''', DBPassword = '''', DBName = '''', SSLMode = '''', MaxConns = 16\<rparr>,
     Ethereum = \<lparr>WebSocketURL = ''ws'', EthChainID = 1, IngestionEnabled = True, EthStartBlock = 5, EthConfirmationBlocks = 2,
       EthMaxCatchupBlocks = 0, GetLogsSpanCap = 0, RPCTimeout = 60, EthHeadTimeout = 60\<rparr>,
     RPC = \<lparr>RPCMaxResults = 10, QueryTimeout = 1\<rparr>\<rparr>"

definition demo_platform :: "(unit, unit) platform" where
  "demo_platform = \<lparr>Overload = (\<lambda>_ _ e. e), ReadInConfig = (\<lambda>_ _. ReadOk), UnmarshalConfig = (\<lambda>_ _. Inr demo_config),
     InitLogger = (\<lambda>_. None), NewPool = (\<lambda>_. None), Ping = (\<lambda>_. None), Dial = (\<lambda>_ _. Inr small_node), ShowDuration = (\<lambda>_. ''1m0s'')\<rparr>"

definition demo_life :: "string list \<Rightarrow> (unit, unit) life" where
  "demo_life args = \<lparr>l_args = args, l_env = (), l_platform = demo_platform, l_session = 0, l_locks = racing [] (\<lambda>_ t. t),
     l_pool = connect fresh_tables, l_http = \<lparr>RegisterErr = None, ServerEnd = ContextEnds (Sentinel Canceled) None, ServerFirst = False\<rparr>,
     l_events = some_events, l_node = (), l_context = reading\<rparr>"

definition demo_disk :: "string \<Rightarrow> export_dir" where
  "demo_disk dir = (if dir = ''old'' then demo_export 3 else demo_export 2)"

text \<open>
  A service that ingests one block and ends when its node is silent, a backfill of an export that
  overlaps it, and a rewind.
\<close>

definition demo_lives :: "(unit, unit) life list" where
  "demo_lives = [demo_life [], demo_life [''backfill'', ''-dir'', ''old''], demo_life [''rewind'', ''-to=5'']]"

lemma demo_start:
  "Load (config_libs.truncate demo_platform) file path env = Inr demo_config" "InitLogger demo_platform cfg = None"
  "OpenStore demo_platform dsn = None" "Dial demo_platform ws timeout = Inr small_node"
  by (simp_all add: demo_platform_def Load_def config_libs.truncate_def Let_def Validate_def missing_keys_def demo_config_def
      MainnetChainID_def OpenStore_def)

lemma demo_sane:
  assumes "\<And>cfg. SpanCap cfg = 0 \<Longrightarrow> Node (subscriber_of (\<lambda>_. 1) cfg small_node pg_store)"
  shows "sane Node small_heads (\<lambda>_. 1) (demo_life args)"
proof -
  have "cfg = demo_config" if "commonFlags demo_platform common_flag args env = Inr (cfg, f)" for args env cfg f
    using that by (auto simp: commonFlags_def demo_start split: sum.splits)
  moreover have "SpanCap (run_config_of demo_platform demo_config) = 0" by (simp add: run_config_of_def demo_config_def)
  ultimately have "dials Node (\<lambda>_. 1) demo_platform ()"
    using assms by (fastforce simp: dials_def demo_start)
  then show ?thesis using start_ok(2) some_events_ok by (simp add: sane_def demo_life_def)
qed

lemma demo_flags:
  "commonFlags demo_platform common_flag [] env = Inr (demo_config, default_flags)"
  "commonFlags demo_platform rewind_flag [''-to=5''] env = Inr (demo_config, default_flags\<lparr>f_to := Some 5\<rparr>)"
  "commonFlags demo_platform backfill_flag [''-dir'', ''old''] env = Inr (demo_config, default_flags\<lparr>f_dir := ''old''\<rparr>)"
  by (simp_all add: commonFlags_def demo_start split_flag_def cut_def Let_def common_flag_def rewind_flag_def backfill_flag_def
      ParseUint_def)

lemma demo_locks:
  "\<exists>c. AcquireWriterLock 0 (racing [] (\<lambda>_ t. t)) = (Inr (), c)" "\<exists>c. AcquireBackfillLocks 0 (racing [] (\<lambda>_ t. t)) = (Inr (), c)"
proof -
  have "fst (AcquireWriterLock 0 (racing [] (\<lambda>_ t. t))) = Inr ()" "fst (AcquireBackfillLocks 0 (racing [] (\<lambda>_ t. t))) = Inr ()"
    by code_simp+
  then show "\<exists>c. AcquireWriterLock 0 (racing [] (\<lambda>_ t. t)) = (Inr (), c)" "\<exists>c. AcquireBackfillLocks 0 (racing [] (\<lambda>_ t. t)) = (Inr (), c)"
    by (metis prod.collapse)+
qed

lemma demo_pool: "(connect fresh_tables)\<lparr>tab := t\<rparr> = connect t"
  by (simp add: connect_def)

lemma demo_processes:
  "process kc V disk (demo_life []) t =
    (case ingest_on kc (run_config_of demo_platform demo_config) small_node some_events () (connect t) of (r, d) \<Rightarrow> (exit_code r, tab d))"
  "process kc V disk (demo_life [''backfill'', ''-dir'', ''old'']) t =
    (case runStages (V\<lparr>LoadCtxErr := reading\<rparr>) (disk ''old'') ''all'' (connect t) of (r, d) \<Rightarrow> (exit_code r, tab d))"
  "process kc V disk (demo_life [''rewind'', ''-to=5'']) t = (case Rewind 5 (connect t) of (r, d) \<Rightarrow> (exit_code r, tab d))"
proof -
  obtain c d where c: "AcquireWriterLock 0 (racing [] (\<lambda>_ t. t)) = (Inr (), c)" "AcquireBackfillLocks 0 (racing [] (\<lambda>_ t. t)) = (Inr (), d)"
    using demo_locks by blast
  note commands = process_def run_process_def subcommand_def demo_life_def under_locks_def c demo_pool andThen_def lift_def fail_with_def ret_def throw_def demo_flags demo_start
  show "process kc V disk (demo_life [''backfill'', ''-dir'', ''old'']) t =
      (case runStages (V\<lparr>LoadCtxErr := reading\<rparr>) (disk ''old'') ''all'' (connect t) of (r, d) \<Rightarrow> (exit_code r, tab d))"
    by (simp add: commands runBackfill_def default_flags_def case_prod_beta)
  show "process kc V disk (demo_life [''rewind'', ''-to=5'']) t = (case Rewind 5 (connect t) of (r, d) \<Rightarrow> (exit_code r, tab d))"
    by (simp add: commands runRewind_def default_flags_def case_prod_beta)
  have enabled: "IngestionEnabled (Ethereum demo_config)" by (simp add: demo_config_def)
  obtain r u where run: "ingest_on kc (run_config_of demo_platform demo_config) small_node some_events () (connect t) = (r, u)" by fastforce
  show "process kc V disk (demo_life []) t =
      (case ingest_on kc (run_config_of demo_platform demo_config) small_node some_events () (connect t) of (r, d) \<Rightarrow> (exit_code r, tab d))"
    by (cases r) (simp_all add: commands runServe_def NewServer_def runIngestion_def group_error_def error_of_def exit_code_def errors_Is_def enabled run)
qed

text \<open>The tables the service leaves.\<close>

definition served_tables :: tables where
  "served_tables = fresh_tables\<lparr>eth_blocks := [BlockRow (block_of (head_at 5))], eth_logs := [LogRow (kept_at 5)],
     partitions := [PartitionDDL 5], ingest_cursor := Some (5, 5)\<rparr>"

lemma demo_served: "process (\<lambda>_. 1) V disk (demo_life []) fresh_tables = (1, served_tables)"
proof -
  have "(case ingest_on (\<lambda>_. 1) (run_config_of demo_platform demo_config) small_node some_events () (connect fresh_tables) of
      (r, d) \<Rightarrow> (exit_code r, tab d)) = (1, served_tables)"
    by code_simp
  then show ?thesis by (simp only: demo_processes(1))
qed

theorem processes_keep_in_order_witness:
  "in_order 5 6 (snd (processes (\<lambda>_. 1) demo_lib demo_disk demo_lives fresh_tables)) \<and>
   (case processes (\<lambda>_. 1) demo_lib demo_disk demo_lives fresh_tables of
      (codes, t) \<Rightarrow> (codes, map b_number (eth_blocks t), maintenance t)) = ([1, 0, 0], [5], False)"
proof
  have "range demo_disk \<subseteq> demo_family" by (auto simp: demo_disk_def demo_family_def)
  moreover have "\<forall>l \<in> set demo_lives. sane (\<lambda>S. ordinary S small_heads) small_heads (\<lambda>_. 1) l"
    by (simp add: demo_lives_def demo_sane some_ordinary)
  ultimately show "in_order 5 6 (snd (processes (\<lambda>_. 1) demo_lib demo_disk demo_lives fresh_tables))"
    by (rule processes_keep_in_order [OF demo_export_family _ _ in_order_fresh])
  have "(case runStages (demo_lib\<lparr>LoadCtxErr := reading\<rparr>) (demo_export 3) ''all'' (connect served_tables) of (r2, d2) \<Rightarrow>
      case Rewind 5 (connect (tab d2)) of (r3, d3) \<Rightarrow>
        ([exit_code r2, exit_code r3], map b_number (eth_blocks (tab d3)), maintenance (tab d3))) = ([0, 0], [5], False)"
    by code_simp
  then show "(case processes (\<lambda>_. 1) demo_lib demo_disk demo_lives fresh_tables of
      (codes, t) \<Rightarrow> (codes, map b_number (eth_blocks t), maintenance t)) = ([1, 0, 0], [5], False)"
    by (simp add: demo_lives_def demo_served demo_processes(2,3) demo_disk_def case_prod_beta)
qed

theorem loaded_config_usable_witness:
  "checkCatchupBound (LoopConfig (run_config_of demo_platform demo_config)) 7 9 started = (Inr (), started)"
proof -
  have gap: "(7 :: u64) \<le> 9 \<and> (9 :: u64) - 7 \<le> EthConfirmationBlocks (Ethereum demo_config)" by (simp add: demo_config_def)
  have "\<forall>n tip s. n \<le> tip \<and> tip - n \<le> EthConfirmationBlocks (Ethereum demo_config) \<longrightarrow>
      checkCatchupBound (LoopConfig (run_config_of demo_platform demo_config)) n tip s = (Inr (), s)"
    by (rule loaded_config_usable [OF demo_start(1), THEN conjunct2, THEN conjunct2, THEN conjunct2, THEN conjunct2, THEN conjunct2, THEN conjunct2])
  then show ?thesis using gap by metis
qed

text \<open>A rewind while session 1 ingests.\<close>

theorem busy_writers_are_refused_witness:
  "\<exists>e c'. runRewind demo_platform 0 [''-to=5''] () (racing [] (\<lambda>_ t. (1, writerLockKey, Exclusive) # t), connect demo_tables) =
    (Inl e, (c', connect demo_tables))"
proof -
  have "writer_elsewhere 0 (racing [] (\<lambda>_ t. (1, writerLockKey, Exclusive) # t))"
    by (auto simp: writer_elsewhere_def racing_def intro!: exI [of _ 1])
  then show ?thesis by (rule busy_writers_are_refused [THEN conjunct2, THEN conjunct2, THEN conjunct1])
qed

text \<open>Session 0 has acquired the locks of a backfill; session 1 rewinds, session 2 reads.\<close>

theorem writers_exclude_witness:
  "(\<exists>e x. runRewind demo_platform 1 [''-to=5''] () (racing both_locks (\<lambda>_ t. t), connect demo_tables) = (Inl e, (x, connect demo_tables))) \<and>
   (\<exists>e q. Read (ret ()) ((connect demo_tables)\<lparr>maintenance_locked := True\<rparr>) = (Inl e, q) \<and> tab q = demo_tables)"
proof -
  let ?free = "racing [] (\<lambda>_ t. t)" and ?busy = "racing both_locks (\<lambda>_ t. t)"
  have "fst (AcquireBackfillLocks 0 ?free) = Inr ()" "locks (snd (AcquireBackfillLocks 0 ?free)) = both_locks"
    by code_simp+
  then obtain d where d: "AcquireBackfillLocks 0 ?free = (Inr (), d)" "locks d = both_locks"
    by (metis prod.collapse)
  have ends: "locks (snd (AcquireWriterLock 1 ?busy)) = both_locks" "locks (snd (AcquireBackfillLocks 1 ?busy)) = both_locks"
    by code_simp+
  have tables: "no_conflicts (locks ?free)" "no_conflicts (locks ?busy)"
    by (simp_all add: racing_def both_locks_def no_conflicts_def writerLockKey_def maintenanceLockKey_def)
  have polite: "polite me (racing t (\<lambda>_ t. t))" for me t by (simp add: polite_def racing_def)
  have held: "still_held 0 d (locks (snd (AcquireWriterLock 1 ?busy)))" "still_held 0 d (locks (snd (AcquireBackfillLocks 1 ?busy)))"
    by (simp_all only: still_held_def ends d(2) order_refl)
  note exclude = writers_exclude [OF disjI2 [OF d(1)] polite tables(1) one_neq_zero polite tables(2) held]
  have reading: "maintenance_locked ((connect demo_tables)\<lparr>maintenance_locked := True\<rparr>) = (\<not> fst (try_advisory 2 maintenanceLockKey Shared both_locks))"
    by (simp add: try_advisory_def grantable_def both_locks_def conflict_def)
  have still: "still_held 0 d both_locks" by (simp only: still_held_def d(2) order_refl)
  have "\<exists>e q'. Read (ret ()) ((connect demo_tables)\<lparr>maintenance_locked := True\<rparr>) = (Inl e, q') \<and>
      tab q' = tab ((connect demo_tables)\<lparr>maintenance_locked := True\<rparr>)"
    by (rule exclude [THEN conjunct2, THEN conjunct2, THEN conjunct2, THEN conjunct2, rule_format, THEN conjunct2, rule_format, OF d(1), of 2 both_locks])
      (intro conjI still reading, simp)
  then show ?thesis using exclude [THEN conjunct2, THEN conjunct2, THEN conjunct1] by (simp add: connect_def)
qed

section \<open>An export of the chain\<close>

text \<open>Blocks 5 and 6 of the chain the small node serves, with their logs.\<close>

definition true_block :: "u64 \<Rightarrow> demo_value parquet_row" where
  "true_block n = (\<lambda>i. [DemoInt n, DemoBytes (hash_bytes (ucast n + 1)), DemoInt n] ! i)"

definition true_log :: "u64 \<Rightarrow> demo_value parquet_row" where
  "true_log n = (\<lambda>i. [DemoInt n, DemoInt 0, DemoInt 0, DemoBytes (hash_bytes 0), DemoBytes (address_bytes 0),
     DemoBytes (hash_bytes 1), DemoBytes (hash_bytes 2), DemoNull, DemoNull, DemoNull] ! i)"

definition true_lib :: "demo_value libraries" where
  "true_lib = demo_lib\<lparr>OpenParquet := (\<lambda>bs.
     if bs = [1] then Inr \<lparr>SchemaColumns = demo_columns [''number'', ''block_hash'', ''ts''], FooterRows = 2,
       RowGroups = [\<lparr>NumRows = 2, Replies = [([true_block 5, true_block 6], EndOfFile)]\<rparr>]\<rparr>
     else if bs = [2] then Inr \<lparr>SchemaColumns = demo_columns log_column_names, FooterRows = 2,
       RowGroups = [\<lparr>NumRows = 2, Replies = [([true_log 5, true_log 6], EndOfFile)]\<rparr>]\<rparr>
     else Inl (ErrNew ''not a parquet file''))\<rparr>"

definition true_manifest :: manifest where
  "true_manifest = (demo_manifest 2)\<lparr>LogsRows := 2, LogsParts := [(''000'', 2)]\<rparr>"

definition true_export :: export_dir where
  "true_export = (demo_export 2)\<lparr>exManifest := Parsed true_manifest\<rparr>"

lemma true_read: "readManifest true_export = Inr true_manifest"
  by (simp add: readManifest_def true_export_def true_manifest_def demo_export_def demo_manifest_def)

lemma true_rows:
  "part_rows true_lib true_export 0 = Some (map (\<lambda>n. LogRow (kept_at n)) [5, 6])"
  "block_rows true_lib true_export true_manifest = Some (map (\<lambda>n. BlockRow (block_of (head_at n))) [5, 6])"
  by code_simp+

lemma true_parts: "part_numbers true_manifest = {0}" "BlocksFirst true_manifest = 5" "BlocksLast true_manifest = 6"
  by (simp_all add: part_numbers_def true_manifest_def demo_manifest_def PartitionBlocks_def)

lemma kept_at_wf: "n \<in> {5, 6} \<Longrightarrow> wf_log (kept_at n)"
  by (auto simp: wf_log_def kept_at_def log_at_def fits_int64_def)

lemma true_wanted: "unitInterval true_manifest 0 = (5, 6)" "partRows true_manifest 0 = Inr 2"
  by code_simp+

lemma two_heights: "{5..6} = {5, 6 :: u64}"
proof -
  have "heights 5 6 = [5, 6]" by code_simp
  then show ?thesis using set_heights_interval [of 5 6] by simp
qed

lemma true_taken_from: "taken_from head_at (\<lambda>n. [kept_at n]) true_lib {true_export} 5 6"
proof -
  have rows: "chain_rows (\<lambda>n. [kept_at n]) {5..6} = {LogRow (kept_at 5), LogRow (kept_at 6)}"
    by (simp add: chain_rows_def two_heights insert_commute)
  have "r_block_number (LogRow (kept_at 5)) \<noteq> r_block_number (LogRow (kept_at 6))" by code_simp
  then have card: "card (chain_rows (\<lambda>n. [kept_at n]) {5..6}) = 2" by (subst rows, subst card_2_iff) metis
  have "stored_block (BlockRow (block_of (head_at n)))" if "n \<in> {5, 6}" for n
    unfolding block_of_def by (rule demo_stored_block) (use that in \<open>auto simp: head_at_def fits_int64_def\<close>)
  moreover have stored: "stored_log (LogRow (kept_at n))" "row_of (\<lambda>n. [kept_at n]) n (LogRow (kept_at n))"
    if "n \<in> {5, 6}" for n
    using kept_at_wf [OF that] by (auto simp: stored_log_def row_of_def)
  ultimately have "export_family true_lib {true_export} 5 6"
    by (simp add: export_family_def true_read true_parts true_rows plausible_def fits_int64_def)
  moreover have "\<exists>n. row_of (\<lambda>n. [kept_at n]) n (LogRow (kept_at m))" if "m \<in> {5, 6}" for m using stored(2) [OF that] by blast
  moreover have "\<exists>n. BlockRow (block_of (head_at m)) = BlockRow (block_of (head_at n))" for m by blast
  ultimately show ?thesis
    using kept_at_wf card by (simp add: taken_from_def true_read true_parts true_rows true_wanted two_heights)
qed

text \<open>A service that ingests block 5, and a backfill of blocks 5 and 6.\<close>

definition true_lives :: "(unit, unit) life list" where
  "true_lives = [demo_life [], demo_life [''backfill'', ''-dir'', ''old'']]"

definition true_request :: FilterCriteria where
  "true_request = chain_request\<lparr>cToBlock := Some 6\<rparr>"

lemma small_kept: "kept_logs (\<lambda>_. 1) (\<lambda>n. [kept_at n]) = (\<lambda>n. [kept_at n])"
  using follower_kept by (simp add: follower_def)

lemma small_serves: "SpanCap cfg = 0 \<Longrightarrow> serves_chain small_heads (\<lambda>_. 1) head_at (\<lambda>n. [kept_at n]) (subscriber_of (\<lambda>_. 1) cfg small_node pg_store)"
  by (simp add: serves_chain_def some_ordinary some_chain some_subscriber_sink)

lemma small_chain: "chain_ok head_at (\<lambda>n. [kept_at n])" "strict_chain (\<lambda>n. [kept_at n])"
  by (simp_all add: chain_ok_def head_at_def kept_at_def log_at_def strict_chain_def)

definition true_tables :: tables where
  "true_tables = fresh_tables\<lparr>
     eth_blocks := map (\<lambda>n. BlockRow (block_of (head_at n))) [5, 6], eth_logs := map (\<lambda>n. LogRow (kept_at n)) [5, 6],
     partitions := [PartitionDDL 5], ingest_cursor := Some (5, 6),
     backfill_units := [(blocksUnit, unitFingerprint true_lib true_manifest ''blocks/'', 2),
       (''logs/part=000'', part_fingerprint true_lib true_manifest 0, 2)], indexes := map index_name SecondaryIndexes\<rparr>"

lemma true_loaded:
  "(case runStages (true_lib\<lparr>LoadCtxErr := reading\<rparr>) true_export ''all'' (connect served_tables) of (r, d) \<Rightarrow> (exit_code r, tab d)) = (0, true_tables)"
  by code_simp

lemma true_end: "processes (\<lambda>_. 1) true_lib (\<lambda>_. true_export) true_lives fresh_tables = ([1, 0], true_tables)"
  by (simp add: true_lives_def demo_served demo_processes(2) true_loaded)

lemma true_answer:
  "case fst (GetLogs (\<lambda>_. 1) go_tags \<lparr>ChainID = 1, MaxResults = 10\<rparr> true_request (connect true_tables)) of Inr logs \<Rightarrow> length logs = 2 | Inl e \<Rightarrow> False"
  by code_simp

theorem processes_serve_chain_witness:
  "\<exists>d logs d' c from to.
     tab d = snd (processes (\<lambda>_. 1) true_lib (\<lambda>_. true_export) true_lives fresh_tables) \<and>
     GetLogs (\<lambda>_. 1) go_tags \<lparr>ChainID = 1, MaxResults = 10\<rparr> true_request d = (Inr logs, d') \<and> length logs = 2 \<and>
     names_range go_tags true_request (tab d) c from to \<and>
     logs = (if to < from then [] else filter (log_matches (\<lambda>_. 1) (query_of true_request from to)) (chain_answer head_at (\<lambda>n. [kept_at n]) from to))"
proof -
  let ?d = "connect (snd (processes (\<lambda>_. 1) true_lib (\<lambda>_. true_export) true_lives fresh_tables))"
  let ?get = "\<lambda>d. GetLogs (\<lambda>_. 1) go_tags \<lparr>ChainID = 1, MaxResults = 10\<rparr> true_request d"
  obtain logs where logs: "fst (?get ?d) = Inr logs" "length logs = 2"
    using true_answer by (auto simp: true_end split: sum.splits)
  then have get: "?get ?d = (Inr logs, snd (?get ?d))" by (simp add: prod_eq_iff)
  have lives: "\<forall>l \<in> set true_lives. sane (serves_chain small_heads (\<lambda>_. 1) head_at (\<lambda>n. [kept_at n])) small_heads (\<lambda>_. 1) l"
    by (simp add: true_lives_def demo_sane small_serves)
  have tabs: "tab ?d = snd (processes (\<lambda>_. 1) true_lib (\<lambda>_. true_export) true_lives fresh_tables)" by (simp add: connect_def)
  obtain c f to where "names_range go_tags true_request (tab ?d) c f to"
    "if to < f then logs = [] else covStart c \<le> f \<and> to \<le> covHead c \<and>
       logs = filter (log_matches (\<lambda>_. 1) (query_of true_request f to)) (chain_answer head_at (\<lambda>n. [kept_at n]) f to)"
    using processes_serve_chain [OF _ _ _ _ lives in_order_fresh _ tabs go_tags_ok get, unfolded small_kept,
        OF true_taken_from _ small_chain faithful_fresh] by auto
  then have "logs = (if to < f then [] else filter (log_matches (\<lambda>_. 1) (query_of true_request f to)) (chain_answer head_at (\<lambda>n. [kept_at n]) f to))"
    by (simp split: if_splits)
  with \<open>names_range go_tags true_request (tab ?d) c f to\<close> show ?thesis
    by (intro exI [of _ ?d] exI [of _ logs] exI [of _ "snd (?get ?d)"] exI [of _ c] exI [of _ f] exI [of _ to] conjI tabs get logs(2))
qed

end
