(* ===== verification/Spec2Isabelle.thy ===== *)
theory Spec2Isabelle
  imports EventSet Warehouse ReaderFacts ApiErrors Criteria Client Runner Recovery BackfillFacts Scenario
begin

text \<open>
  ff-eth-logs keeps a PostgreSQL warehouse of the Ethereum logs of a fixed set of events and answers
  \<open>eth_getLogs\<close> from it. Three commands write the warehouse: the service follows the head of the chain
  (tail ingestion), a backfill loads a Parquet export stage by stage, a rewind deletes everything
  above a block. Readers see only the published coverage, one interval of heights, and only while
  no backfill is reloading it.

  \<^bold>\<open>How the parts interact.\<close> \<open>cmd/ff-eth-logs\<close> loads the configuration, takes the advisory locks of its
  command and runs it. Ingestion plans a range below the confirmed head, fetches its headers and
  its logs through the paginated client, checks them against each other, and hands the batch to the
  store, which replaces the range and moves the cursor in one transaction; a reorganisation that
  reached written blocks is answered by a search for the fork point and a rewind. The backfill
  raises a durable maintenance flag before it touches published rows and lowers it once it has
  verified the tables against the manifest. The API resolves the range of a request against the
  coverage, inside one read snapshot, and selects the logs by SQL.

  \<^bold>\<open>How the code is modelled.\<close> A function that does I/O is a step: a function from a state to a result
  (\<open>Inl\<close> an error, \<open>Inr\<close> a value) and a new state, composed by \<open>andThen\<close> as the code composes calls with
  early returns (\<open>Prelude\<close>). The database is the record of its tables; a statement is a function of the
  tables, and \<open>faults\<close> decides of each statement whether it runs, fails, or runs and loses its reply;
  a transaction rolls the tables back on any error. \<open>uint64\<close> is a 64-bit word and wraps, \<open>bigint\<close> columns
  are integers read by \<open>int64\<close>. Errors are a datatype with Go's wrapping, read by \<open>errors_Is\<close> and
  \<open>errors_As\<close>. Every property holds for every \<open>faults\<close>, node, history of the chain and sequence of events its
  hypotheses admit.

  \<^bold>\<open>The theories, by the code they model.\<close>

  \<^item> \<open>Prelude\<close>, \<open>Types\<close>: words, steps and their triples (\<open>triple P m Q E\<close>: from \<open>P\<close>, a value of \<open>m\<close> leaves \<open>Q\<close> and an
    error \<open>E\<close>), loops, printing; the records the components exchange.
  \<^item> \<open>Errors\<close> (\<open>chain/errors.go\<close>), \<open>EventSet\<close> (\<open>eventset/eventset.go\<close>: \<open>Keep\<close>, \<open>Topics\<close>), \<open>Client\<close> (\<open>chain/client.go\<close>:
    \<open>executeWithRetry\<close>, \<open>RedactURLs\<close> and each RPC call), \<open>Pagination\<close> (\<open>chain/pagination.go\<close>: \<open>PaginatorFilterLogs\<close>).
  \<^item> \<open>Store\<close> (\<open>logstore/store.go\<close>, \<open>schema.go\<close>: \<open>WriteRange\<close>, \<open>Rewind\<close>, \<open>SetCoverage\<close>, the maintenance flag), \<open>Locks\<close>
    (the advisory locks of \<open>store.go\<close>), \<open>Reader\<close> (\<open>logstore/reader.go\<close>: \<open>buildFilter\<close>, \<open>filterLogs\<close>, \<open>Read\<close>).
  \<^item> \<open>Criteria\<close> (\<open>rpcapi/criteria.go\<close>: \<open>UnmarshalJSON\<close>), \<open>RpcApi\<close> (\<open>rpcapi/api.go\<close>: \<open>GetLogs\<close>; the health page of \<open>server.go\<close>).
  \<^item> \<open>Fetcher\<close>, \<open>Ingest\<close>, \<open>Runner\<close> (\<open>ingestion/fetcher.go\<close>, \<open>subscriber.go\<close>, \<open>runner.go\<close>: \<open>FetchIngestionLogs\<close>, \<open>Run\<close> with
    \<open>record\<close>, \<open>reconcile\<close>, \<open>recoverDeepReorg\<close>, \<open>ingestBatch\<close>; \<open>RunIngestion\<close>).
  \<^item> \<open>Manifest\<close>, \<open>Loader\<close> (\<open>backfill/manifest.go\<close>, \<open>loader.go\<close>: \<open>Prepare\<close>, \<open>Logs\<close>, \<open>Blocks\<close>, \<open>Finish\<close>).
  \<^item> \<open>Config\<close> (\<open>config/config.go\<close>: \<open>Load\<close>, \<open>Validate\<close>, \<open>DSN\<close>), \<open>Commands\<close> (\<open>main.go\<close>, \<open>backfill.go\<close>, the life of the HTTP server:
    \<open>runServe\<close>, \<open>runBackfill\<close>, \<open>runRewind\<close>, \<open>run_process\<close>).

  \<^bold>\<open>What is shown.\<close>

  \<^item> \<open>StoreFacts\<close>, \<open>Warehouse\<close>: \<open>warehouse_ok\<close>, the invariant of the tables (unique keys, readable rows in their
    partitions, a block row for every published height); each writer keeps it, is all or nothing under
    any fault, refuses what would leave a hole, and succeeds on a good batch.
  \<^item> \<open>ReaderFacts\<close>, \<open>ApiFacts\<close>, \<open>ApiErrors\<close>: the SQL selects what go-ethereum's filter rules select; \<open>GetLogs\<close> answers
    exactly, or refuses with an error a routing client can tell from a range cap.
  \<^item> \<open>IngestFacts\<close>, \<open>Following\<close>, \<open>Recovery\<close>: \<open>sink_contract\<close> is what the head-following loop asks of a warehouse; under it
    the loop keeps its position, writes only linked, confirmed and consistent batches, and ends or
    waits. \<open>table_invariant\<close> makes the store a sink under any invariant its writers keep. \<open>Requests\<close> keeps the
    order in which a run asks its node: the logs of a batch first, then its blocks without logs again.
  \<^item> \<open>Mirror\<close>, \<open>Runner\<close>: against a node of one chain the tables are the mirror of that chain over the coverage,
    through restarts, and \<open>eth_getLogs\<close> answers as the chain would.
  \<^item> \<open>LoaderFacts\<close>, \<open>Fingerprint\<close>, \<open>Backfill\<close>, \<open>BackfillFacts\<close>: each stage is a path of \<open>backfill_step\<close>, a relation on tables; a
    finish that succeeds leaves exactly the rows of the export it verified, and no half-loaded row is
    ever served. \<open>copy_target\<close> is the contract of the two COPY targets.
  \<^item> \<open>Locks\<close>, \<open>Config\<close>, \<open>Commands\<close>: locks are taken all or none; while the locks one writer acquired are held, every
    other command is refused and sends no statement, and during a backfill every read is; the
    connection string says what the configuration says, and a configuration that loads can be used.
  \<^item> \<open>System\<close>, \<open>Truth\<close>: \<open>kept_by_commands\<close> is the contract of an invariant that every command keeps. \<open>System\<close> shows it for
    the order of the tables and \<open>Truth\<close> for their agreement with the chain, so that after any sequence of
    services, backfills and rewinds, each failing or dying anywhere, an answer is the chain's.
    \<open>Scenario\<close> applies them to a concrete sequence of processes.

  \<^bold>\<open>Bounds.\<close> A loop whose counter counts down recurses on it. A loop that counts up over \<open>uint64\<close> is \<open>for_up\<close> with
  \<open>loop_fuel\<close>, one more round than the interval has heights; its counter wraps as Go's does, and the
  model's error \<open>Diverges\<close> stands for a loop that never ends. The walks of the paginator take \<open>walk_fuel\<close> (65
  halvings or advances per height) and \<open>outer_fuel\<close>, the fetcher \<open>fetch_fuel\<close>, \<open>record\<close> one round per written block;
  \<open>Run_ends\<close> (for \<open>ordinary\<close> nodes) and the exactness theorems show that none of them runs out. A lock that is waited for is
  tried at most 52 times, with no fuel: its recursion is measured by the clock.

  \<^bold>\<open>What is a parameter.\<close> The node and its errors (\<open>eth_client\<close>); keccak256, MD5, SHA-256; the JSON decoder, \<open>hexutil\<close>,
  the block tags; \<open>url.Parse\<close>, the URL pattern and the retry schedule; parquet-go's files and row replies;
  viper and godotenv, given the settings the code makes; connecting, dialling and the set-up of the
  logger; what other sessions do to the lock table between two statements; how the HTTP listener
  ends. Hypotheses about them are named: \<open>ordinary\<close> and \<open>one_chain\<close> (the node), \<open>no_collisions\<close> (the digests),
  \<open>export_family\<close> and \<open>taken_from\<close> (the exports), \<open>quiet_faults\<close> (the database's errors are not the loop's own signals),
  \<open>polite\<close> (the server grants no conflicting lock), \<open>still_held\<close> (a writer's lock connection lives and has not
  unlocked), \<open>backoff_ok\<close> and \<open>plain_permanents\<close> (the retry library and its \<open>Permanent\<close> errors), \<open>plain_host\<close> (a
  host name or address).

  \<^bold>\<open>What is not modelled.\<close> The logger (\<open>logger/logger.go\<close>) and every log line, which no decision of the code
  depends on; the HTTP transport; signals, which reach the code as errors of its context; closing of
  connections; the test doubles and the test database. Goroutines appear as sequences of events: the
  subscription delivers heads, an error or silence, and the service's two halves end in either
  order. Commands of different processes do not interleave on the tables: the writer lock, whose
  exclusion \<open>Commands\<close> shows, serialises the writers as long as the connection that holds it lives, and a
  read is one snapshot. A writer that has lost its lock connection and goes on with the others of its
  pool is outside what is shown.
\<close>

end
